(* ===== verification/Prelude.thy ===== *)
theory Prelude
  imports Main "HOL-Library.Word"
begin

text \<open>
  Shared vocabulary of the development: the machine integer types of the C++ sources,
  the faults an execution can end in, the result type that carries them, and the
  generic facts on lists, strings and words that the component theories use.
\<close>

section \<open>Machine integers\<close>

text \<open>
  The sources are compiled for a platform with 32-bit \<^verbatim>\<open>int\<close>, 64-bit \<^verbatim>\<open>long long\<close>, and
  a signed \<^verbatim>\<open>char\<close>. A signed integer is the word of its width, read with \<open>sint\<close>.
\<close>

type_synonym u8 = "8 word"
type_synonym u16 = "16 word"
type_synonym u32 = "32 word"
type_synonym u64 = "64 word"
type_synonym i32 = "32 word"

section \<open>Faults and results\<close>

text \<open>
  What a C++ execution can end in besides returning: a failed \<^verbatim>\<open>VERIFY\<close> or \<^verbatim>\<open>assert\<close>,
  an access outside an allocated block, a read of a cell that was never written, a
  dereference of a null pointer, a read of a freed block, a thread that locks a mutex
  nobody will unlock.
\<close>

datatype fault =
    VerifyFailed
  | OutOfBounds
  | UninitRead
  | NullDeref
  | UseAfterFree
  | Deadlock

type_synonym 'a res = "fault + 'a"

primrec bindR :: "'e + 'a \<Rightarrow> ('a \<Rightarrow> 'e + 'b) \<Rightarrow> 'e + 'b" where
  "bindR (Inl e) f = Inl e"
| "bindR (Inr x) f = f x"

named_theorems returns \<open>when a computation that can fail returns a value\<close>

declare bind_eq_Some_conv [returns]

lemma bindR_Inr_iff [returns]: "bindR m f = Inr y \<longleftrightarrow> (\<exists>x. m = Inr x \<and> f x = Inr y)"
  by (cases m) auto

lemma bindR_InrE:
  assumes "bindR m f = Inr y"
  obtains x where "m = Inr x" "f x = Inr y"
  using assms by (auto simp: bindR_Inr_iff)

lemma bindR_Inl_iff:
  "bindR m f = Inl e \<longleftrightarrow> m = Inl e \<or> (\<exists>x. m = Inr x \<and> f x = Inl e)"
  by (cases m) auto

lemma bindR_assoc: "bindR (bindR m f) g = bindR m (\<lambda>x. bindR (f x) g)"
  by (cases m) auto

lemma bindR_cong [fundef_cong]:
  "m = m' \<Longrightarrow> (\<And>x. m' = Inr x \<Longrightarrow> f x = f' x) \<Longrightarrow> bindR m f = bindR m' f'"
  by (cases m') auto

section \<open>Signed comparisons\<close>

named_theorems signed \<open>comparisons of signed integers by their values\<close>

declare word_sless_alt [signed] word_sle_eq [signed]

section \<open>Bytes and characters\<close>

text \<open>A \<^verbatim>\<open>std::string\<close> is a \<open>string\<close>; its characters travel as bytes.\<close>

definition byte_of_char :: "char \<Rightarrow> u8" where
  "byte_of_char c = of_char c"

definition char_of_byte :: "u8 \<Rightarrow> char" where
  "char_of_byte b = char_of (unat b)"

lemma unat_byte_of_char: "unat (byte_of_char c) = of_char c"
proof -
  have "(of_char c :: nat) < 256" by (rule nat_of_char_less_256)
  moreover have "byte_of_char c = of_nat (of_char c)"
    by (simp add: byte_of_char_def of_nat_of_char)
  ultimately show ?thesis by (simp add: unat_of_nat)
qed

lemma char_of_byte_of_char [simp]: "char_of_byte (byte_of_char c) = c"
  by (simp add: char_of_byte_def unat_byte_of_char)

lemma byte_of_char_of_byte [simp]: "byte_of_char (char_of_byte b) = b"
proof -
  have "unat b < 256"
    using unsigned_less [of b, where 'a = nat] by simp
  then have "unat (byte_of_char (char_of_byte b)) = unat b"
    by (simp add: unat_byte_of_char char_of_byte_def)
  then show ?thesis by (simp add: word_unat_eq_iff)
qed

section \<open>Lists\<close>

lemma those_map_Some [simp]: "those (map Some xs) = Some xs"
  by (induction xs) auto

lemma those_eq_Some_iff: "those xs = Some ys \<longleftrightarrow> xs = map Some ys"
proof (induction xs arbitrary: ys)
  case Nil
  then show ?case by auto
next
  case (Cons x xs)
  then show ?case by (cases ys) (auto split: option.splits)
qed

end
