(* ===== verification/Marshall.thy ===== *)
theory Marshall
  imports Prelude
begin

text \<open>
  The wire format of the RPC library: \<^verbatim>\<open>rpc/marshall.h\<close> and the operators of
  \<^verbatim>\<open>rpc/rpc.cc\<close>. A \<open>marshall\<close> is a growable block with a write head, an \<open>unmarshall\<close>
  a received block with a read head and an \<open>ok\<close> flag. Cells of a block that were
  allocated and never written are \<open>None\<close>; every write or read outside the block, and
  every read of an unwritten cell, is a fault of the model.

  The locale \<open>codec\<close> is the contract between a \<open>\<lless>\<close> and a \<open>\<ggreater>\<close> operator of one type;
  every pair of operators of the sources is an interpretation of it.
  Block sizes are natural numbers: the C++ \<^verbatim>\<open>int\<close> sizes agree with them below \<open>2^31\<close>,
  and the read side, where the sizes come from the network, is kept at 32 bits.
\<close>

unbundle bit_operations_syntax

section \<open>Headers and sizes\<close>

record req_header =
  rq_xid :: i32
  rq_proc :: i32
  rq_clt_nonce :: u32
  rq_srv_nonce :: u32
  rq_xid_rep :: i32

record reply_header =
  rp_xid :: i32
  rp_ret :: i32

definition static_max :: "nat \<Rightarrow> nat \<Rightarrow> nat" where
  "static_max a b = (if a > b then a else b)"

definition sizeof_rpc_sz :: nat where
  "sizeof_rpc_sz = 4"

definition DEFAULT_RPC_SZ :: nat where
  "DEFAULT_RPC_SZ = 1024"

text \<open>A request header is five 32-bit fields, a reply header two.\<close>

definition RPC_HEADER_SZ :: nat where
  "RPC_HEADER_SZ = static_max (5 * 4) (2 * 4) + sizeof_rpc_sz"

lemma RPC_HEADER_SZ_eq: "RPC_HEADER_SZ = 24"
  by (simp add: RPC_HEADER_SZ_def static_max_def sizeof_rpc_sz_def)

section \<open>The write side\<close>

record marshall =
  m_buf :: "u8 option list"
  m_capa :: nat
  m_ind :: nat

definition marshall_new :: marshall where
  "marshall_new =
     \<lparr>m_buf = replicate DEFAULT_RPC_SZ None, m_capa = DEFAULT_RPC_SZ, m_ind = RPC_HEADER_SZ\<rparr>"

text \<open>\<open>realloc\<close> keeps the old cells and leaves the new ones unwritten.\<close>

definition realloc :: "u8 option list \<Rightarrow> nat \<Rightarrow> u8 option list" where
  "realloc b n = take n b @ replicate (n - length b) None"

definition marshall_rawbyte :: "u8 \<Rightarrow> marshall \<Rightarrow> marshall res" where
  "marshall_rawbyte x m =
     bindR
       (if m_capa m \<le> m_ind m
        then if m_buf m = [] then Inl VerifyFailed
             else Inr (m\<lparr>m_capa := 2 * m_capa m, m_buf := realloc (m_buf m) (2 * m_capa m)\<rparr>)
        else Inr m)
       (\<lambda>m. if m_ind m < length (m_buf m)
            then Inr (m\<lparr>m_buf := (m_buf m)[m_ind m := Some x], m_ind := m_ind m + 1\<rparr>)
            else Inl OutOfBounds)"

definition marshall_rawbytes :: "u8 list \<Rightarrow> marshall \<Rightarrow> marshall res" where
  "marshall_rawbytes p m =
     (let n = length p in
      bindR
       (if m_capa m < m_ind m + n
        then let c = (if n < m_capa m then 2 * m_capa m else m_capa m + n)
             in if m_buf m = [] then Inl VerifyFailed
                else Inr (m\<lparr>m_capa := c, m_buf := realloc (m_buf m) c\<rparr>)
        else Inr m)
       (\<lambda>m. if m_ind m + n \<le> length (m_buf m)
            then Inr (m\<lparr>m_buf := take (m_ind m) (m_buf m) @ map Some p @ drop (m_ind m + n) (m_buf m),
                        m_ind := m_ind m + n\<rparr>)
            else Inl OutOfBounds))"

definition marshall_size :: "marshall \<Rightarrow> nat" where
  "marshall_size m = m_ind m"

definition get_content :: "marshall \<Rightarrow> u8 list option" where
  "get_content m = those (take (m_ind m - RPC_HEADER_SZ) (drop RPC_HEADER_SZ (m_buf m)))"

definition marshall_take_buf :: "marshall \<Rightarrow> u8 option list \<times> nat \<times> marshall" where
  "marshall_take_buf m = (m_buf m, m_ind m, m\<lparr>m_buf := [], m_ind := 0\<rparr>)"

definition marshall_bool :: "bool \<Rightarrow> marshall \<Rightarrow> marshall res" where
  "marshall_bool x m = marshall_rawbyte (of_bool x) m"

definition marshall_uchar :: "u8 \<Rightarrow> marshall \<Rightarrow> marshall res" where
  "marshall_uchar x m = marshall_rawbyte x m"

definition marshall_char :: "char \<Rightarrow> marshall \<Rightarrow> marshall res" where
  "marshall_char x m = marshall_uchar (byte_of_char x) m"

definition marshall_ushort :: "u16 \<Rightarrow> marshall \<Rightarrow> marshall res" where
  "marshall_ushort x m =
     bindR (marshall_rawbyte (ucast (drop_bit 8 x AND 0xff)) m)
       (marshall_rawbyte (ucast (x AND 0xff)))"

definition marshall_short :: "u16 \<Rightarrow> marshall \<Rightarrow> marshall res" where
  "marshall_short x m = marshall_ushort x m"

definition marshall_uint :: "u32 \<Rightarrow> marshall \<Rightarrow> marshall res" where
  "marshall_uint x m =
     bindR (marshall_rawbyte (ucast (drop_bit 24 x AND 0xff)) m) (\<lambda>m.
     bindR (marshall_rawbyte (ucast (drop_bit 16 x AND 0xff)) m) (\<lambda>m.
     bindR (marshall_rawbyte (ucast (drop_bit 8 x AND 0xff)) m) (\<lambda>m.
       marshall_rawbyte (ucast (x AND 0xff)) m)))"

definition marshall_int :: "i32 \<Rightarrow> marshall \<Rightarrow> marshall res" where
  "marshall_int x m = marshall_uint x m"

definition marshall_string :: "string \<Rightarrow> marshall \<Rightarrow> marshall res" where
  "marshall_string s m =
     bindR (marshall_uint (of_nat (length s)) m) (marshall_rawbytes (map byte_of_char s))"

definition marshall_ull :: "u64 \<Rightarrow> marshall \<Rightarrow> marshall res" where
  "marshall_ull x m =
     bindR (marshall_uint (ucast (drop_bit 32 x)) m) (marshall_uint (ucast x))"

text \<open>\<open>pack\<close> shifts a signed integer, so the shift is arithmetic.\<close>

definition marshall_pack :: "i32 \<Rightarrow> marshall \<Rightarrow> marshall res" where
  "marshall_pack x m =
     bindR (marshall_rawbyte (ucast (signed_drop_bit 24 x AND 0xff)) m) (\<lambda>m.
     bindR (marshall_rawbyte (ucast (signed_drop_bit 16 x AND 0xff)) m) (\<lambda>m.
     bindR (marshall_rawbyte (ucast (signed_drop_bit 8 x AND 0xff)) m) (\<lambda>m.
       marshall_rawbyte (ucast (x AND 0xff)) m)))"

definition pack_req_header :: "req_header \<Rightarrow> marshall \<Rightarrow> marshall res" where
  "pack_req_header h m =
     (let saved_sz = m_ind m in
      bindR (marshall_pack (rq_xid h) (m\<lparr>m_ind := sizeof_rpc_sz\<rparr>)) (\<lambda>m.
      bindR (marshall_pack (rq_proc h) m) (\<lambda>m.
      bindR (marshall_pack (rq_clt_nonce h) m) (\<lambda>m.
      bindR (marshall_pack (rq_srv_nonce h) m) (\<lambda>m.
      bindR (marshall_pack (rq_xid_rep h) m) (\<lambda>m.
        Inr (m\<lparr>m_ind := saved_sz\<rparr>)))))))"

definition pack_reply_header :: "reply_header \<Rightarrow> marshall \<Rightarrow> marshall res" where
  "pack_reply_header h m =
     (let saved_sz = m_ind m in
      bindR (marshall_pack (rp_xid h) (m\<lparr>m_ind := sizeof_rpc_sz\<rparr>)) (\<lambda>m.
      bindR (marshall_pack (rp_ret h) m) (\<lambda>m.
        Inr (m\<lparr>m_ind := saved_sz\<rparr>))))"

fun marshall_each :: "('a \<Rightarrow> marshall \<Rightarrow> marshall res) \<Rightarrow> 'a list \<Rightarrow> marshall \<Rightarrow> marshall res" where
  "marshall_each put [] m = Inr m"
| "marshall_each put (x # xs) m = bindR (put x m) (marshall_each put xs)"

definition marshall_vector :: "('a \<Rightarrow> marshall \<Rightarrow> marshall res) \<Rightarrow> 'a list \<Rightarrow> marshall \<Rightarrow> marshall res" where
  "marshall_vector put v m =
     bindR (marshall_uint (of_nat (length v)) m) (marshall_each put v)"

text \<open>A \<^verbatim>\<open>std::map\<close> is the list of its entries in iteration order.\<close>

definition marshall_map ::
  "('a \<Rightarrow> marshall \<Rightarrow> marshall res) \<Rightarrow> ('b \<Rightarrow> marshall \<Rightarrow> marshall res)
     \<Rightarrow> ('a \<times> 'b) list \<Rightarrow> marshall \<Rightarrow> marshall res" where
  "marshall_map putA putB d m =
     bindR (marshall_uint (of_nat (length d)) m)
       (marshall_each (\<lambda>(a, b) m. bindR (putA a m) (putB b)) d)"

section \<open>The read side\<close>

record unmarshall =
  u_buf :: "u8 option list"
  u_sz :: nat
  u_ind :: nat
  u_ok :: bool

definition unmarshall_null :: unmarshall where
  "unmarshall_null = \<lparr>u_buf = [], u_sz = 0, u_ind = 0, u_ok = False\<rparr>"

definition unmarshall_of_buf :: "u8 option list \<Rightarrow> nat \<Rightarrow> unmarshall" where
  "unmarshall_of_buf b sz = \<lparr>u_buf = b, u_sz = sz, u_ind = 0, u_ok = True\<rparr>"

definition take_content :: "u8 list \<Rightarrow> unmarshall \<Rightarrow> unmarshall" where
  "take_content s u =
     (let sz = length s + RPC_HEADER_SZ; b = realloc (u_buf u) sz in
      \<lparr>u_buf = take RPC_HEADER_SZ b @ map Some s, u_sz = sz, u_ind = RPC_HEADER_SZ, u_ok = True\<rparr>)"

definition unmarshall_take_buf :: "unmarshall \<Rightarrow> u8 option list \<times> nat \<times> unmarshall" where
  "unmarshall_take_buf u = (u_buf u, u_sz u, u\<lparr>u_sz := 0, u_ind := 0, u_buf := []\<rparr>)"

definition take_in :: "unmarshall \<Rightarrow> unmarshall \<Rightarrow> unmarshall \<times> unmarshall" where
  "take_in u another =
     (let (b, sz, another') = unmarshall_take_buf another in
      (u\<lparr>u_buf := b, u_sz := sz, u_ind := RPC_HEADER_SZ, u_ok := (sz \<ge> RPC_HEADER_SZ)\<rparr>, another'))"

definition okdone :: "unmarshall \<Rightarrow> bool" where
  "okdone u \<longleftrightarrow> u_ok u \<and> u_ind u = u_sz u"

text \<open>\<open>rawbyte\<close> returns a signed \<^verbatim>\<open>char\<close> widened to \<^verbatim>\<open>unsigned int\<close>; past the end it reads 0.\<close>

definition unmarshall_rawbyte :: "unmarshall \<Rightarrow> (u32 \<times> unmarshall) res" where
  "unmarshall_rawbyte u =
     (if u_sz u \<le> u_ind u then Inr (0, u\<lparr>u_ok := False\<rparr>)
      else if length (u_buf u) \<le> u_ind u then Inl OutOfBounds
      else case u_buf u ! u_ind u of
             None \<Rightarrow> Inl UninitRead
           | Some c \<Rightarrow> Inr (scast c, u\<lparr>u_ind := u_ind u + 1\<rparr>))"

text \<open>The bound check of \<open>rawbytes\<close> is an unsigned 32-bit sum, which wraps around.\<close>

definition unmarshall_rawbytes :: "string \<Rightarrow> u32 \<Rightarrow> unmarshall \<Rightarrow> (string \<times> unmarshall) res" where
  "unmarshall_rawbytes ss n u =
     (if (of_nat (u_ind u) + n :: u32) > of_nat (u_sz u)
      then Inr (ss, u\<lparr>u_ok := False\<rparr>)
      else if length (u_buf u) < u_ind u + unat n then Inl OutOfBounds
      else case those (take (unat n) (drop (u_ind u) (u_buf u))) of
             None \<Rightarrow> Inl UninitRead
           | Some bs \<Rightarrow> Inr (map char_of_byte bs, u\<lparr>u_ind := u_ind u + unat n\<rparr>))"

definition unmarshall_bool :: "unmarshall \<Rightarrow> (bool \<times> unmarshall) res" where
  "unmarshall_bool u = bindR (unmarshall_rawbyte u) (\<lambda>(b, u). Inr (b \<noteq> 0, u))"

definition unmarshall_uchar :: "unmarshall \<Rightarrow> (u8 \<times> unmarshall) res" where
  "unmarshall_uchar u = bindR (unmarshall_rawbyte u) (\<lambda>(b, u). Inr (ucast b, u))"

definition unmarshall_char :: "unmarshall \<Rightarrow> (char \<times> unmarshall) res" where
  "unmarshall_char u = bindR (unmarshall_rawbyte u) (\<lambda>(b, u). Inr (char_of_byte (ucast b), u))"

definition unmarshall_ushort :: "unmarshall \<Rightarrow> (u16 \<times> unmarshall) res" where
  "unmarshall_ushort u =
     bindR (unmarshall_rawbyte u) (\<lambda>(b1, u).
     bindR (unmarshall_rawbyte u) (\<lambda>(b0, u).
       Inr (ucast (push_bit 8 (b1 AND 0xff)) OR ucast (b0 AND 0xff), u)))"

definition unmarshall_short :: "unmarshall \<Rightarrow> (u16 \<times> unmarshall) res" where
  "unmarshall_short u = unmarshall_ushort u"

definition unmarshall_uint :: "unmarshall \<Rightarrow> (u32 \<times> unmarshall) res" where
  "unmarshall_uint u =
     bindR (unmarshall_rawbyte u) (\<lambda>(b3, u).
     bindR (unmarshall_rawbyte u) (\<lambda>(b2, u).
     bindR (unmarshall_rawbyte u) (\<lambda>(b1, u).
     bindR (unmarshall_rawbyte u) (\<lambda>(b0, u).
       Inr (((push_bit 24 (b3 AND 0xff) OR push_bit 16 (b2 AND 0xff)) OR push_bit 8 (b1 AND 0xff))
              OR (b0 AND 0xff), u)))))"

definition unmarshall_int :: "unmarshall \<Rightarrow> (i32 \<times> unmarshall) res" where
  "unmarshall_int u = unmarshall_uint u"

definition unmarshall_ull :: "unmarshall \<Rightarrow> (u64 \<times> unmarshall) res" where
  "unmarshall_ull u =
     bindR (unmarshall_uint u) (\<lambda>(h, u).
     bindR (unmarshall_uint u) (\<lambda>(l, u).
       Inr (ucast l OR push_bit 32 (ucast h), u)))"

text \<open>The target string keeps its value \<open>s\<close> when the length or the bytes are missing.\<close>

definition unmarshall_string :: "string \<Rightarrow> unmarshall \<Rightarrow> (string \<times> unmarshall) res" where
  "unmarshall_string s u =
     bindR (unmarshall_uint u) (\<lambda>(sz, u).
       if u_ok u then unmarshall_rawbytes s sz u else Inr (s, u))"

definition unmarshall_unpack :: "unmarshall \<Rightarrow> (i32 \<times> unmarshall) res" where
  "unmarshall_unpack u =
     bindR (unmarshall_rawbyte u) (\<lambda>(b3, u).
     bindR (unmarshall_rawbyte u) (\<lambda>(b2, u).
     bindR (unmarshall_rawbyte u) (\<lambda>(b1, u).
     bindR (unmarshall_rawbyte u) (\<lambda>(b0, u).
       Inr (((push_bit 24 (b3 AND 0xff) OR push_bit 16 (b2 AND 0xff)) OR push_bit 8 (b1 AND 0xff))
              OR (b0 AND 0xff), u)))))"

definition unpack_req_header :: "unmarshall \<Rightarrow> (req_header \<times> unmarshall) res" where
  "unpack_req_header u =
     bindR (unmarshall_unpack (u\<lparr>u_ind := sizeof_rpc_sz\<rparr>)) (\<lambda>(x, u).
     bindR (unmarshall_unpack u) (\<lambda>(p, u).
     bindR (unmarshall_unpack u) (\<lambda>(c, u).
     bindR (unmarshall_unpack u) (\<lambda>(s, u).
     bindR (unmarshall_unpack u) (\<lambda>(xr, u).
       Inr (\<lparr>rq_xid = x, rq_proc = p, rq_clt_nonce = c, rq_srv_nonce = s, rq_xid_rep = xr\<rparr>,
            u\<lparr>u_ind := RPC_HEADER_SZ\<rparr>))))))"

definition unpack_reply_header :: "unmarshall \<Rightarrow> (reply_header \<times> unmarshall) res" where
  "unpack_reply_header u =
     bindR (unmarshall_unpack (u\<lparr>u_ind := sizeof_rpc_sz\<rparr>)) (\<lambda>(x, u).
     bindR (unmarshall_unpack u) (\<lambda>(r, u).
       Inr (\<lparr>rp_xid = x, rp_ret = r\<rparr>, u\<lparr>u_ind := RPC_HEADER_SZ\<rparr>)))"

fun unmarshall_times :: "(unmarshall \<Rightarrow> ('a \<times> unmarshall) res) \<Rightarrow> nat \<Rightarrow> unmarshall \<Rightarrow> ('a list \<times> unmarshall) res" where
  "unmarshall_times get 0 u = Inr ([], u)"
| "unmarshall_times get (Suc n) u =
     bindR (get u) (\<lambda>(z, u). bindR (unmarshall_times get n u) (\<lambda>(zs, u). Inr (z # zs, u)))"

definition unmarshall_vector :: "(unmarshall \<Rightarrow> ('a \<times> unmarshall) res) \<Rightarrow> unmarshall \<Rightarrow> ('a list \<times> unmarshall) res" where
  "unmarshall_vector get u =
     bindR (unmarshall_uint u) (\<lambda>(n, u). unmarshall_times get (unat n) u)"

text \<open>\<open>d[a] = b\<close> on a \<^verbatim>\<open>std::map\<close>, kept in key order.\<close>

fun std_map_set :: "'a::linorder \<Rightarrow> 'b \<Rightarrow> ('a \<times> 'b) list \<Rightarrow> ('a \<times> 'b) list" where
  "std_map_set a b [] = [(a, b)]"
| "std_map_set a b (e # d) =
     (if a = fst e then (a, b) # d
      else if a < fst e then (a, b) # e # d
      else e # std_map_set a b d)"

definition unmarshall_map ::
  "(unmarshall \<Rightarrow> ('a::linorder \<times> unmarshall) res) \<Rightarrow> (unmarshall \<Rightarrow> ('b \<times> unmarshall) res)
     \<Rightarrow> unmarshall \<Rightarrow> (('a \<times> 'b) list \<times> unmarshall) res" where
  "unmarshall_map getA getB u =
     bindR (unmarshall_uint u) (\<lambda>(n, u).
     bindR (unmarshall_times (\<lambda>u. bindR (getA u) (\<lambda>(a, u). bindR (getB u) (\<lambda>(b, u). Inr ((a, b), u))))
              (unat n) u) (\<lambda>(es, u).
       Inr (fold (\<lambda>(a, b) d. std_map_set a b d) es [], u)))"

section \<open>Bytes of machine integers\<close>

lemma and_ff: "(w :: 'a::len word) AND 0xff = take_bit 8 w"
  by (simp add: take_bit_eq_mask mask_eq_exp_minus_1)

lemma scast_and_ff [simp]: "(scast (b::u8) :: u32) AND 0xff = ucast b"
proof (rule bit_word_eqI)
  fix n assume "n < LENGTH(32)"
  consider "n < 7" | "n = 7" | "7 < n"
    by force
  then show "bit ((scast b :: u32) AND 0xff) n = bit (ucast b :: u32) n"
    by cases (auto simp: and_ff bit_simps dest: bit_imp_le_length)
qed

lemma signed_shift_ff [simp]:
  "signed_drop_bit 24 (x::i32) AND 0xff = drop_bit 24 x AND 0xff"
  "signed_drop_bit 16 (x::i32) AND 0xff = drop_bit 16 x AND 0xff"
  "signed_drop_bit 8 (x::i32) AND 0xff = drop_bit 8 x AND 0xff"
  unfolding and_ff
  by (rule bit_word_eqI; auto simp: bit_simps min_def dest: bit_imp_le_length)+

text \<open>The big-endian bytes of a 16-bit, a 32-bit and a 64-bit integer.\<close>

definition be16 :: "u16 \<Rightarrow> u8 list" where
  "be16 x = [ucast (drop_bit 8 x AND 0xff), ucast (x AND 0xff)]"

definition be32 :: "u32 \<Rightarrow> u8 list" where
  "be32 x = [ucast (drop_bit 24 x AND 0xff), ucast (drop_bit 16 x AND 0xff),
             ucast (drop_bit 8 x AND 0xff), ucast (x AND 0xff)]"

definition be64 :: "u64 \<Rightarrow> u8 list" where
  "be64 x = be32 (ucast (drop_bit 32 x)) @ be32 (ucast x)"

lemma length_be [simp]: "length (be16 x) = 2" "length (be32 y) = 4" "length (be64 z) = 8"
  by (simp_all add: be16_def be32_def be64_def)

lemma join16:
  "ucast (push_bit 8 (ucast (ucast (drop_bit 8 x AND 0xff) :: u8) :: u32))
     OR ucast (ucast (ucast (x AND 0xff) :: u8) :: u32) = (x :: u16)" (is "?l = x")
proof (rule bit_word_eqI)
  fix n assume "n < LENGTH(16)"
  then consider "n < 8" | "8 \<le> n" "n < 16"
    by force
  then show "bit ?l n = bit x n"
    by cases (auto simp: and_ff bit_simps)
qed

lemma join32:
  "((push_bit 24 (ucast (ucast (drop_bit 24 x AND 0xff) :: u8))
      OR push_bit 16 (ucast (ucast (drop_bit 16 x AND 0xff) :: u8)))
      OR push_bit 8 (ucast (ucast (drop_bit 8 x AND 0xff) :: u8)))
      OR ucast (ucast (x AND 0xff) :: u8) = (x :: u32)" (is "?l = x")
proof (rule bit_word_eqI)
  fix n assume "n < LENGTH(32)"
  then consider "n < 8" | "8 \<le> n" "n < 16" | "16 \<le> n" "n < 24" | "24 \<le> n" "n < 32"
    by force
  then show "bit ?l n = bit x n"
    by cases (auto simp: and_ff bit_simps)
qed

lemma join64:
  "ucast (ucast x :: u32) OR push_bit 32 (ucast (ucast (drop_bit 32 x) :: u32)) = (x :: u64)"
  (is "?l = x")
proof (rule bit_word_eqI)
  fix n assume "n < LENGTH(64)"
  then consider "n < 32" | "32 \<le> n" "n < 64"
    by force
  then show "bit ?l n = bit x n"
    by cases (auto simp: bit_simps)
qed

section \<open>Writing never leaves the block\<close>

text \<open>
  \<open>poke b i bs\<close> overwrites the cells from \<open>i\<close> on. \<open>appends m bs m'\<close> says that the step
  from \<open>m\<close> to \<open>m'\<close> wrote exactly \<open>bs\<close> at the head of \<open>m\<close>, after growing the block if it had to.
\<close>

definition poke :: "u8 option list \<Rightarrow> nat \<Rightarrow> u8 list \<Rightarrow> u8 option list" where
  "poke b i bs = take i b @ map Some bs @ drop (i + length bs) b"

definition m_inv :: "marshall \<Rightarrow> bool" where
  "m_inv m \<longleftrightarrow> length (m_buf m) = m_capa m \<and> m_ind m \<le> m_capa m \<and> 0 < m_capa m"

definition appends :: "marshall \<Rightarrow> u8 list \<Rightarrow> marshall \<Rightarrow> bool" where
  "appends m bs m' \<longleftrightarrow>
     (\<exists>e. m_ind m + length bs \<le> m_capa m + e
        \<and> m' = m\<lparr>m_buf := poke (m_buf m @ replicate e None) (m_ind m) bs,
                 m_capa := m_capa m + e, m_ind := m_ind m + length bs\<rparr>)"

lemma length_poke [simp]: "i + length bs \<le> length b \<Longrightarrow> length (poke b i bs) = length b"
  by (simp add: poke_def)

lemma poke_poke:
  "i + length a + length c \<le> length b \<Longrightarrow> poke (poke b i a) (i + length a) c = poke b i (a @ c)"
proof -
  assume le: "i + length a + length c \<le> length b"
  then have "take (i + length a) (poke b i a) = take i b @ map Some a"
    by (simp add: poke_def)
  moreover have "drop (i + length a + length c) (poke b i a) = drop (i + length (a @ c)) b"
    using le by (simp add: poke_def ac_simps)
  ultimately show ?thesis
    by (simp add: poke_def)
qed

lemma poke_single: "i < length b \<Longrightarrow> b[i := Some x] = poke b i [x]"
  by (simp add: poke_def upd_conv_take_nth_drop)

lemma poke_ext: "i + length bs \<le> length b \<Longrightarrow> poke b i bs @ z = poke (b @ z) i bs"
  by (simp add: poke_def)

lemma m_inv_new [simp, intro]: "m_inv marshall_new"
  by (simp add: m_inv_def marshall_new_def DEFAULT_RPC_SZ_def RPC_HEADER_SZ_eq)

lemma m_inv_appends: "m_inv m \<Longrightarrow> appends m bs m' \<Longrightarrow> m_inv m'"
  by (auto simp: m_inv_def appends_def)

lemma appends_nil [simp, intro]: "m_inv m \<Longrightarrow> appends m [] m"
  by (auto simp: appends_def poke_def m_inv_def intro: exI [of _ 0])

lemma appends_append:
  assumes "m_inv m" and "appends m a m1" and "appends m1 b m2"
  shows "appends m (a @ b) m2"
proof -
  from assms(2) obtain e where e: "m_ind m + length a \<le> m_capa m + e"
      "m1 = m\<lparr>m_buf := poke (m_buf m @ replicate e None) (m_ind m) a,
              m_capa := m_capa m + e, m_ind := m_ind m + length a\<rparr>"
    by (auto simp: appends_def)
  from assms(3) e obtain f where f: "m_ind m + length a + length b \<le> m_capa m + e + f"
      "m2 = m1\<lparr>m_buf := poke (m_buf m1 @ replicate f None) (m_ind m1) b,
              m_capa := m_capa m1 + f, m_ind := m_ind m1 + length b\<rparr>"
    by (auto simp: appends_def)
  have len: "length (m_buf m) = m_capa m"
    using assms(1) by (simp add: m_inv_def)
  have "m_buf m1 @ replicate f None = poke (m_buf m @ replicate (e + f) None) (m_ind m) a"
    using e len by (simp add: poke_ext replicate_add)
  then have "m_buf m2 = poke (m_buf m @ replicate (e + f) None) (m_ind m) (a @ b)"
    using e f len by (simp add: poke_poke)
  then show ?thesis
    using e f by (auto simp: appends_def add.assoc intro!: exI [of _ "e + f"])
qed

lemma realloc_grow: "length b \<le> n \<Longrightarrow> realloc b n = b @ replicate (n - length b) None"
  by (simp add: realloc_def)

lemma rawbyte_appends:
  assumes "m_inv m"
  shows "\<exists>m'. marshall_rawbyte x m = Inr m' \<and> appends m [x] m'"
proof (cases "m_capa m \<le> m_ind m")
  case True
  with assms have "m_ind m = m_capa m" "length (m_buf m) = m_capa m" "0 < m_capa m"
    by (auto simp: m_inv_def)
  then show ?thesis
    by (auto simp: marshall_rawbyte_def realloc_grow appends_def poke_single
        intro!: exI [of _ "m_capa m"])
next
  case False
  with assms show ?thesis
    by (auto simp: marshall_rawbyte_def appends_def poke_single m_inv_def intro!: exI [of _ 0])
qed

lemma rawbytes_appends:
  assumes "m_inv m"
  shows "\<exists>m'. marshall_rawbytes bs m = Inr m' \<and> appends m bs m'"
proof -
  define c where "c = (if length bs < m_capa m then 2 * m_capa m else m_capa m + length bs)"
  have len: "length (m_buf m) = m_capa m" "m_ind m \<le> m_capa m" "m_buf m \<noteq> []"
    using assms by (auto simp: m_inv_def)
  show ?thesis
  proof (cases "m_capa m < m_ind m + length bs")
    case True
    have "m_capa m \<le> c" "m_ind m + length bs \<le> c"
      using len by (auto simp: c_def)
    then show ?thesis
      using True len
      by (auto simp: marshall_rawbytes_def Let_def realloc_grow appends_def poke_def
          simp flip: c_def intro!: exI [of _ "c - m_capa m"])
  next
    case False
    then show ?thesis
      using len by (auto simp: marshall_rawbytes_def Let_def appends_def poke_def intro!: exI [of _ 0])
  qed
qed

section \<open>The contract between a write and a read operator\<close>

text \<open>\<open>u_ready u bs\<close>: the read head of \<open>u\<close> stands before exactly the bytes \<open>bs\<close>.\<close>

definition u_ready :: "unmarshall \<Rightarrow> u8 list \<Rightarrow> bool" where
  "u_ready u bs \<longleftrightarrow> u_ok u \<and> length (u_buf u) = u_sz u \<and> u_sz u < 2 ^ 31
     \<and> u_ind u \<le> u_sz u \<and> drop (u_ind u) (u_buf u) = map Some bs"

definition advance :: "nat \<Rightarrow> unmarshall \<Rightarrow> unmarshall" where
  "advance n u = u\<lparr>u_ind := u_ind u + n\<rparr>"

lemma advance_advance [simp]: "advance n (advance k u) = advance (k + n) u"
  by (simp add: advance_def)

lemma advance_0 [simp]: "advance 0 u = u"
  by (simp add: advance_def)

lemma u_ready_ok [simp]: "u_ready u bs \<Longrightarrow> u_ok u"
  by (simp add: u_ready_def)

lemma u_ready_length: "u_ready u bs \<Longrightarrow> length bs = u_sz u - u_ind u"
  by (auto simp: u_ready_def dest: arg_cong [of _ _ length])

lemma u_ready_advance: "u_ready u (bs @ r) \<Longrightarrow> u_ready (advance (length bs) u) r"
proof -
  assume u: "u_ready u (bs @ r)"
  then have "length bs + length r = u_sz u - u_ind u"
    by (simp flip: u_ready_length [OF u])
  moreover have "drop (length bs) (drop (u_ind u) (u_buf u)) = map Some r"
    using u by (simp add: u_ready_def)
  ultimately show ?thesis
    using u by (auto simp: u_ready_def advance_def ac_simps)
qed

lemma u_ready_done: "u_ready u [] \<Longrightarrow> okdone u"
  by (auto simp: u_ready_def okdone_def)

locale codec =
  fixes put :: "'a \<Rightarrow> marshall \<Rightarrow> marshall res"
    and get :: "unmarshall \<Rightarrow> ('a \<times> unmarshall) res"
    and enc :: "'a \<Rightarrow> u8 list"
    and valid :: "'a \<Rightarrow> bool"
  assumes put_appends: "m_inv m \<Longrightarrow> valid x \<Longrightarrow> \<exists>m'. put x m = Inr m' \<and> appends m (enc x) m'"
    and get_enc: "u_ready u (enc x @ r) \<Longrightarrow> valid x \<Longrightarrow> get u = Inr (x, advance (length (enc x)) u)"
begin

lemma get_ready:
  "u_ready u (enc x @ r) \<Longrightarrow> valid x \<Longrightarrow>
     \<exists>u'. get u = Inr (x, u') \<and> u' = advance (length (enc x)) u \<and> u_ready u' r"
  by (simp add: get_enc u_ready_advance)

lemma put_safe: "m_inv m \<Longrightarrow> valid x \<Longrightarrow> \<exists>m'. put x m = Inr m' \<and> m_inv m'"
  using put_appends m_inv_appends by blast

text \<open>No encoding of a value is a proper prefix of another one's.\<close>

lemma enc_prefix_free:
  assumes "valid x" and "valid y" and "enc x @ r = enc y @ s" and "length (enc x @ r) < 2 ^ 31"
  shows "x = y \<and> r = s"
proof -
  define u where "u = unmarshall_of_buf (map Some (enc x @ r)) (length (enc x @ r))"
  have "u_ready u (enc x @ r)" "u_ready u (enc y @ s)"
    using assms(3,4) by (auto simp: u_ready_def u_def unmarshall_of_buf_def)
  then have "get u = Inr (x, advance (length (enc x)) u)" "get u = Inr (y, advance (length (enc y)) u)"
    using assms(1,2) by (auto intro: get_enc)
  then show ?thesis
    using assms(3) by simp
qed

lemma each_appends:
  "m_inv m \<Longrightarrow> list_all valid xs \<Longrightarrow>
     \<exists>m'. marshall_each put xs m = Inr m' \<and> appends m (concat (map enc xs)) m'"
proof (induction xs arbitrary: m)
  case Nil
  then show ?case by simp
next
  case (Cons x xs)
  then obtain m1 where m1: "put x m = Inr m1" "appends m (enc x) m1"
    using put_appends by force
  with Cons obtain m2 where "marshall_each put xs m1 = Inr m2" "appends m1 (concat (map enc xs)) m2"
    using m_inv_appends by force
  with m1 Cons.prems show ?case
    by (auto intro: appends_append)
qed

lemma times_enc:
  "u_ready u (concat (map enc xs) @ r) \<Longrightarrow> list_all valid xs \<Longrightarrow>
     unmarshall_times get (length xs) u = Inr (xs, advance (length (concat (map enc xs))) u)"
proof (induction xs arbitrary: u)
  case Nil
  then show ?case by simp
next
  case (Cons x xs)
  then have "u_ready u (enc x @ concat (map enc xs) @ r)"
    by simp
  with Cons show ?case
    by (simp add: get_enc u_ready_advance ac_simps)
qed

end

section \<open>The operators of the library\<close>

lemma ucast_scast_byte [simp]: "(ucast (scast (b::u8) :: u32) :: u8) = b"
proof (rule bit_word_eqI)
  fix n assume "n < LENGTH(8)"
  then consider "n < 7" | "n = 7"
    by force
  then show "bit (ucast (scast b :: u32) :: u8) n = bit b n"
    by cases (simp_all add: bit_simps)
qed

lemma rawbyte_ready:
  "u_ready u (b # r) \<Longrightarrow> unmarshall_rawbyte u = Inr (scast b, advance (Suc 0) u)"
proof -
  assume u: "u_ready u (b # r)"
  then have "drop (u_ind u) (u_buf u) \<noteq> []"
    by (simp add: u_ready_def)
  then have lt: "u_ind u < u_sz u"
    using u by (simp add: u_ready_def)
  moreover have "u_buf u ! u_ind u = Some b"
    using u lt by (metis (no_types, lifting) Cons_nth_drop_Suc list.inject list.simps(9) u_ready_def)
  ultimately show ?thesis
    using u by (simp add: unmarshall_rawbyte_def advance_def u_ready_def)
qed

lemma u_ready_tl: "u_ready u (b # r) \<Longrightarrow> u_ready (advance (Suc 0) u) r"
  using u_ready_advance [of u "[b]" r] by simp

text \<open>Chaining two writes.\<close>

lemma appends_bind:
  assumes "m_inv m" and "\<exists>m'. p m = Inr m' \<and> appends m a m'"
    and "\<And>m'. m_inv m' \<Longrightarrow> \<exists>m''. q m' = Inr m'' \<and> appends m' b m''"
  shows "\<exists>m'. bindR (p m) q = Inr m' \<and> appends m (a @ b) m'"
  using assms by (metis appends_append bindR.simps(2) m_inv_appends)

lemma uint_appends: "m_inv m \<Longrightarrow> \<exists>m'. marshall_uint x m = Inr m' \<and> appends m (be32 x) m'"
proof -
  assume m: "m_inv m"
  have "\<exists>m'. marshall_uint x m = Inr m'
      \<and> appends m ([ucast (drop_bit 24 x AND 0xff)] @ [ucast (drop_bit 16 x AND 0xff)] @
          [ucast (drop_bit 8 x AND 0xff)] @ [ucast (x AND 0xff)]) m'"
    unfolding marshall_uint_def
    by (intro appends_bind rawbyte_appends m)
  then show ?thesis
    by (simp add: be32_def)
qed

lemma uint_ready:
  assumes "u_ready u (be32 x @ r)"
  shows "unmarshall_uint u = Inr (x, advance 4 u)"
proof -
  note u0 = assms [unfolded be32_def append_Cons append_Nil]
  note u1 = u_ready_tl [OF u0]
  note u2 = u_ready_tl [OF u1]
  note u3 = u_ready_tl [OF u2]
  have four: "Suc (Suc (Suc (Suc 0))) = 4"
    by simp
  show ?thesis
    by (simp add: unmarshall_uint_def u0 [THEN rawbyte_ready] u1 [THEN rawbyte_ready]
        u2 [THEN rawbyte_ready, simplified] u3 [THEN rawbyte_ready, simplified] join32 four del: push_bit_and)
qed

interpretation uint_codec: codec marshall_uint unmarshall_uint be32 "\<lambda>_. True"
  by unfold_locales (simp_all add: uint_appends uint_ready)

interpretation int_codec: codec marshall_int unmarshall_int be32 "\<lambda>_. True"
  by unfold_locales (simp_all add: marshall_int_def [abs_def] unmarshall_int_def uint_appends uint_ready)

interpretation pack_codec: codec marshall_pack unmarshall_unpack be32 "\<lambda>_. True"
proof -
  have "marshall_pack = marshall_uint" "unmarshall_unpack = unmarshall_uint"
    by (simp_all add: fun_eq_iff marshall_pack_def marshall_uint_def unmarshall_unpack_def unmarshall_uint_def)
  then show "codec marshall_pack unmarshall_unpack be32 (\<lambda>_. True)"
    by (simp add: uint_codec.codec_axioms)
qed

interpretation ull_codec: codec marshall_ull unmarshall_ull be64 "\<lambda>_. True"
proof
  fix m x assume "m_inv m"
  then show "\<exists>m'. marshall_ull x m = Inr m' \<and> appends m (be64 x) m'"
    unfolding marshall_ull_def be64_def by (intro appends_bind uint_appends)
next
  fix u x r assume "u_ready u (be64 x @ r)"
  then have u: "u_ready u (be32 (ucast (drop_bit 32 x)) @ be32 (ucast x) @ r)"
    by (simp add: be64_def)
  then have "u_ready (advance 4 u) (be32 (ucast x) @ r)"
    using u_ready_advance by fastforce
  with u show "unmarshall_ull u = Inr (x, advance (length (be64 x)) u)"
    by (simp add: unmarshall_ull_def uint_ready join64)
qed

interpretation bool_codec: codec marshall_bool unmarshall_bool "\<lambda>b. [of_bool b]" "\<lambda>_. True"
proof
  fix m and x :: bool assume "m_inv m"
  then show "\<exists>m'. marshall_bool x m = Inr m' \<and> appends m [of_bool x] m'"
    by (simp add: marshall_bool_def rawbyte_appends)
next
  fix u and x :: bool and r assume "u_ready u ([of_bool x] @ r)"
  then show "unmarshall_bool u = Inr (x, advance (length [of_bool x :: u8]) u)"
    by (cases x) (auto simp: unmarshall_bool_def dest!: rawbyte_ready)
qed

interpretation uchar_codec: codec marshall_uchar unmarshall_uchar "\<lambda>b. [b]" "\<lambda>_. True"
  by unfold_locales
    (auto simp: marshall_uchar_def unmarshall_uchar_def rawbyte_appends dest!: rawbyte_ready)

interpretation char_codec: codec marshall_char unmarshall_char "\<lambda>c. [byte_of_char c]" "\<lambda>_. True"
  by unfold_locales
    (auto simp: marshall_char_def marshall_uchar_def unmarshall_char_def rawbyte_appends dest!: rawbyte_ready)

interpretation ushort_codec: codec marshall_ushort unmarshall_ushort be16 "\<lambda>_. True"
proof
  fix m x assume m: "m_inv m"
  have "\<exists>m'. marshall_ushort x m = Inr m' \<and> appends m ([ucast (drop_bit 8 x AND 0xff)] @ [ucast (x AND 0xff)]) m'"
    unfolding marshall_ushort_def by (intro appends_bind rawbyte_appends m)
  then show "\<exists>m'. marshall_ushort x m = Inr m' \<and> appends m (be16 x) m'"
    by (simp add: be16_def)
next
  fix u x r assume "u_ready u (be16 x @ r)"
  note u0 = this [unfolded be16_def append_Cons append_Nil]
  note u1 = u_ready_tl [OF u0]
  show "unmarshall_ushort u = Inr (x, advance (length (be16 x)) u)"
    by (simp add: unmarshall_ushort_def u0 [THEN rawbyte_ready] u1 [THEN rawbyte_ready] join16 numeral_2_eq_2
        del: push_bit_and)
qed

interpretation short_codec: codec marshall_short unmarshall_short be16 "\<lambda>_. True"
  using ushort_codec.codec_axioms
  by (simp add: marshall_short_def [abs_def] unmarshall_short_def [abs_def])

definition enc_string :: "string \<Rightarrow> u8 list" where
  "enc_string s = be32 (of_nat (length s)) @ map byte_of_char s"

lemma rawbytes_ready:
  assumes "u_ready u (map byte_of_char s @ r)"
  shows "unmarshall_rawbytes t (of_nat (length s)) u = Inr (s, advance (length s) u)"
proof -
  have len: "length s + length r = u_sz u - u_ind u"
    using u_ready_length [OF assms] by simp
  have sz: "u_sz u < 2 ^ 31" "u_ind u \<le> u_sz u" "length (u_buf u) = u_sz u"
    using assms by (auto simp: u_ready_def)
  have un: "unat (of_nat (length s) :: u32) = length s"
    using len sz by (simp add: unat_of_nat)
  have "(of_nat (u_ind u) + of_nat (length s) :: u32) \<le> of_nat (u_sz u)"
    using len sz by (simp add: word_le_nat_alt unat_of_nat flip: of_nat_add)
  moreover have "those (take (length s) (drop (u_ind u) (u_buf u))) = Some (map byte_of_char s)"
    using assms by (simp add: u_ready_def those_eq_Some_iff)
  moreover have "\<not> length (u_buf u) < u_ind u + length s"
    using len sz by simp
  ultimately show ?thesis
    by (simp add: unmarshall_rawbytes_def un advance_def not_less [symmetric] o_def)
qed

interpretation string_codec: codec marshall_string "unmarshall_string s0" enc_string "\<lambda>s. length s < 2 ^ 32"
proof
  fix m s assume "m_inv m"
  then show "\<exists>m'. marshall_string s m = Inr m' \<and> appends m (enc_string s) m'"
    unfolding marshall_string_def enc_string_def by (intro appends_bind uint_appends rawbytes_appends)
next
  fix u s r assume "u_ready u (enc_string s @ r)"
  then have u: "u_ready u (be32 (of_nat (length s)) @ map byte_of_char s @ r)"
    by (simp add: enc_string_def)
  then have "u_ready (advance 4 u) (map byte_of_char s @ r)"
    using u_ready_advance by fastforce
  with u show "unmarshall_string s0 u = Inr (s, advance (length (enc_string s)) u)"
    by (simp add: unmarshall_string_def uint_ready rawbytes_ready enc_string_def)
qed

section \<open>Structures, vectors and maps\<close>

text \<open>A structure is written and read field by field.\<close>

locale two_codecs =
  first: codec putA getA encA validA + second: codec putB getB encB validB
  for putA :: "'a \<Rightarrow> marshall \<Rightarrow> marshall res" and getA encA validA
    and putB :: "'b \<Rightarrow> marshall \<Rightarrow> marshall res" and getB encB validB
begin

lemma pair_codec:
  "codec (\<lambda>(a, b) m. bindR (putA a m) (putB b))
     (\<lambda>u. bindR (getA u) (\<lambda>(a, u). bindR (getB u) (\<lambda>(b, u). Inr ((a, b), u))))
     (\<lambda>(a, b). encA a @ encB b) (\<lambda>(a, b). validA a \<and> validB b)"
proof (unfold_locales, goal_cases)
  case (1 m x)
  then show ?case
    by (auto split: prod.splits intro!: appends_bind first.put_appends second.put_appends)
next
  case (2 u x r)
  obtain a b where x: "x = (a, b)" by force
  with 2 have u: "u_ready u (encA a @ encB b @ r)" and v: "validA a" "validB b"
    by auto
  have "u_ready (advance (length (encA a)) u) (encB b @ r)"
    using u by (rule u_ready_advance)
  with u v x show ?case
    by (simp add: first.get_enc second.get_enc)
qed

lemma struct_codec:
  assumes "\<And>s. mk (fstf s) (sndf s) = s"
  shows "codec (\<lambda>s m. bindR (putA (fstf s) m) (putB (sndf s)))
     (\<lambda>u. bindR (getA u) (\<lambda>(a, u). bindR (getB u) (\<lambda>(b, u). Inr (mk a b, u))))
     (\<lambda>s. encA (fstf s) @ encB (sndf s)) (\<lambda>s. validA (fstf s) \<and> validB (sndf s))"
proof (unfold_locales, goal_cases)
  case (1 m s)
  then show ?case
    by (auto intro!: appends_bind first.put_appends second.put_appends)
next
  case (2 u s r)
  then have u: "u_ready u (encA (fstf s) @ encB (sndf s) @ r)"
    by simp
  then have "u_ready (advance (length (encA (fstf s))) u) (encB (sndf s) @ r)"
    by (rule u_ready_advance)
  with u 2 assms show ?case
    by (simp add: first.get_enc second.get_enc)
qed

end

context codec
begin

lemma vector_codec:
  "codec (marshall_vector put) (unmarshall_vector get)
     (\<lambda>v. be32 (of_nat (length v)) @ concat (map enc v)) (\<lambda>v. list_all valid v \<and> length v < 2 ^ 32)"
proof (unfold_locales, goal_cases)
  case (1 m v)
  then show ?case
    unfolding marshall_vector_def by (intro appends_bind uint_appends each_appends) auto
next
  case (2 u v r)
  then have u: "u_ready u (be32 (of_nat (length v)) @ concat (map enc v) @ r)"
    by simp
  then have "u_ready (advance 4 u) (concat (map enc v) @ r)"
    using u_ready_advance by fastforce
  moreover have "unat (of_nat (length v) :: u32) = length v"
    using 2 by (simp add: unat_of_nat)
  ultimately show ?case
    using u 2 by (simp add: unmarshall_vector_def uint_ready times_enc)
qed

end

lemma std_map_set_last:
  "list_all (\<lambda>e. fst e < a) d \<Longrightarrow> std_map_set a b d = d @ [(a, b)]"
  by (induction d) auto

text \<open>Inserting the entries of an ordered map one by one rebuilds it.\<close>

lemma std_map_rebuild:
  "sorted_wrt (<) (map fst (d @ es)) \<Longrightarrow>
     fold (\<lambda>(a, b) d. std_map_set a b d) es d = d @ es"
proof (induction es arbitrary: d)
  case Nil
  then show ?case by simp
next
  case (Cons e es)
  obtain a b where e: "e = (a, b)" by force
  with Cons.prems have "list_all (\<lambda>e. fst e < a) d"
    by (auto simp: sorted_wrt_append list_all_iff)
  then have "std_map_set a b d = d @ [e]"
    by (simp add: std_map_set_last e)
  with Cons.IH [of "d @ [e]"] Cons.prems show ?case
    by (simp add: e)
qed

lemma map_roundtrip:
  fixes putA :: "'a::linorder \<Rightarrow> marshall \<Rightarrow> marshall res"
  assumes codecs: "two_codecs putA getA encA validA putB getB encB validB"
    and valid: "list_all (\<lambda>(a, b). validA a \<and> validB b) d" "length d < 2 ^ 32"
    and sorted: "sorted_wrt (<) (map fst d)"
    and ready: "u_ready u (be32 (of_nat (length d)) @ concat (map (\<lambda>(a, b). encA a @ encB b) d) @ r)"
  shows "unmarshall_map getA getB u
     = Inr (d, advance (4 + length (concat (map (\<lambda>(a, b). encA a @ encB b) d))) u)"
proof -
  note pair = two_codecs.pair_codec [OF codecs]
  have "u_ready (advance 4 u) (concat (map (\<lambda>(a, b). encA a @ encB b) d) @ r)"
    using u_ready_advance [OF ready] by simp
  then have "unmarshall_times
      (\<lambda>u. bindR (getA u) (\<lambda>(a, u). bindR (getB u) (\<lambda>(b, u). Inr ((a, b), u)))) (length d) (advance 4 u)
      = Inr (d, advance (length (concat (map (\<lambda>(a, b). encA a @ encB b) d))) (advance 4 u))"
    using codec.times_enc [OF pair] valid(1) by blast
  moreover have "unat (of_nat (length d) :: u32) = length d"
    using valid(2) by (simp add: unat_of_nat)
  ultimately show ?thesis
    using std_map_rebuild [of "[]" d] sorted
    by (simp add: unmarshall_map_def uint_ready [OF ready])
qed

section \<open>Headers\<close>

definition enc_req_header :: "req_header \<Rightarrow> u8 list" where
  "enc_req_header h = be32 (rq_xid h) @ be32 (rq_proc h) @ be32 (rq_clt_nonce h)
     @ be32 (rq_srv_nonce h) @ be32 (rq_xid_rep h)"

definition enc_reply_header :: "reply_header \<Rightarrow> u8 list" where
  "enc_reply_header h = be32 (rp_xid h) @ be32 (rp_ret h)"

lemma length_enc_headers [simp]:
  "length (enc_req_header h) = 20" "length (enc_reply_header g) = 8"
  by (simp_all add: enc_req_header_def enc_reply_header_def)

lemma pack_appends: "m_inv m \<Longrightarrow> \<exists>m'. marshall_pack x m = Inr m' \<and> appends m (be32 x) m'"
  using pack_codec.put_appends by blast

text \<open>Packing a header fills the cells after the length field and nothing else.\<close>

lemma pack_req_header_poke:
  assumes "m_inv m" and "RPC_HEADER_SZ \<le> m_ind m"
  shows "\<exists>m'. pack_req_header h m = Inr m' \<and> m_inv m' \<and> m_ind m' = m_ind m
    \<and> take (m_ind m) (m_buf m') = poke (take (m_ind m) (m_buf m)) 4 (enc_req_header h)"
proof -
  let ?m = "m\<lparr>m_ind := 4\<rparr>"
  have inv: "m_inv ?m"
    using assms by (simp add: m_inv_def RPC_HEADER_SZ_eq)
  have "\<exists>m1. bindR (marshall_pack (rq_xid h) ?m) (\<lambda>m.
      bindR (marshall_pack (rq_proc h) m) (\<lambda>m.
      bindR (marshall_pack (rq_clt_nonce h) m) (\<lambda>m.
      bindR (marshall_pack (rq_srv_nonce h) m) (\<lambda>m. marshall_pack (rq_xid_rep h) m)))) = Inr m1
      \<and> appends ?m (enc_req_header h) m1"
    unfolding enc_req_header_def by (intro appends_bind pack_appends inv)
  then obtain m1 where m1: "pack_req_header h m = Inr (m1\<lparr>m_ind := m_ind m\<rparr>)"
      and ap: "appends ?m (enc_req_header h) m1"
    by (auto simp: pack_req_header_def sizeof_rpc_sz_def returns)
  then obtain e where "m_buf m1 = poke (m_buf m @ replicate e None) 4 (enc_req_header h)"
      and "m_capa m1 = m_capa m + e"
    by (auto simp: appends_def)
  then show ?thesis
    using assms m1 by (auto simp: m_inv_def poke_def RPC_HEADER_SZ_eq min_def take_drop)
qed

lemma pack_reply_header_poke:
  assumes "m_inv m" and "RPC_HEADER_SZ \<le> m_ind m"
  shows "\<exists>m'. pack_reply_header h m = Inr m' \<and> m_inv m' \<and> m_ind m' = m_ind m
    \<and> take (m_ind m) (m_buf m') = poke (take (m_ind m) (m_buf m)) 4 (enc_reply_header h)"
proof -
  let ?m = "m\<lparr>m_ind := 4\<rparr>"
  have inv: "m_inv ?m"
    using assms by (simp add: m_inv_def RPC_HEADER_SZ_eq)
  have "\<exists>m1. bindR (marshall_pack (rp_xid h) ?m) (\<lambda>m. marshall_pack (rp_ret h) m) = Inr m1
      \<and> appends ?m (enc_reply_header h) m1"
    unfolding enc_reply_header_def by (intro appends_bind pack_appends inv)
  then obtain m1 where m1: "pack_reply_header h m = Inr (m1\<lparr>m_ind := m_ind m\<rparr>)"
      and ap: "appends ?m (enc_reply_header h) m1"
    by (auto simp: pack_reply_header_def sizeof_rpc_sz_def returns)
  then obtain e where "m_buf m1 = poke (m_buf m @ replicate e None) 4 (enc_reply_header h)"
      and "m_capa m1 = m_capa m + e"
    by (auto simp: appends_def)
  then show ?thesis
    using assms m1 by (auto simp: m_inv_def poke_def RPC_HEADER_SZ_eq min_def take_drop)
qed

lemma advance_set_ind [simp]: "(advance n u)\<lparr>u_ind := k\<rparr> = u\<lparr>u_ind := k\<rparr>"
  by (simp add: advance_def)

lemma unpack_step: "u_ready u (be32 x @ r) \<Longrightarrow> unmarshall_unpack u = Inr (x, advance 4 u)"
  using pack_codec.get_enc by fastforce

lemma unpack_req_header_ready:
  assumes "u_ready (u\<lparr>u_ind := 4\<rparr>) (enc_req_header h @ r)"
  shows "unpack_req_header u = Inr (h, u\<lparr>u_ind := RPC_HEADER_SZ\<rparr>)"
proof -
  have adv: "\<And>u x r. u_ready u (be32 x @ r) \<Longrightarrow> u_ready (advance 4 u) r"
    using u_ready_advance by fastforce
  note u0 = assms [unfolded enc_req_header_def append_assoc]
  note u1 = adv [OF u0] note u2 = adv [OF u1] note u3 = adv [OF u2] note u4 = adv [OF u3]
  show ?thesis
    by (simp add: unpack_req_header_def sizeof_rpc_sz_def u0 [THEN unpack_step] u1 [THEN unpack_step]
        u2 [THEN unpack_step, simplified] u3 [THEN unpack_step, simplified]
        u4 [THEN unpack_step, simplified])
qed

lemma unpack_reply_header_ready:
  assumes "u_ready (u\<lparr>u_ind := 4\<rparr>) (enc_reply_header h @ r)"
  shows "unpack_reply_header u = Inr (h, u\<lparr>u_ind := RPC_HEADER_SZ\<rparr>)"
proof -
  note u0 = assms [unfolded enc_reply_header_def append_assoc]
  have u1: "u_ready (advance 4 (u\<lparr>u_ind := 4\<rparr>)) (be32 (rp_ret h) @ r)"
    using u_ready_advance [OF u0] by simp
  show ?thesis
    by (simp add: unpack_reply_header_def sizeof_rpc_sz_def u0 [THEN unpack_step] u1 [THEN unpack_step])
qed

section \<open>Content\<close>

lemma appends_new:
  assumes "appends marshall_new bs m"
  shows "m_ind m = RPC_HEADER_SZ + length bs"
    and "take (m_ind m) (m_buf m) = replicate RPC_HEADER_SZ None @ map Some bs"
proof -
  obtain e where e: "24 + length bs \<le> 1024 + e"
      "m_buf m = poke (replicate (1024 + e) None) 24 bs" "m_ind m = 24 + length bs"
    using assms by (auto simp: appends_def marshall_new_def DEFAULT_RPC_SZ_def RPC_HEADER_SZ_eq
        simp flip: replicate_add)
  then show "m_ind m = RPC_HEADER_SZ + length bs"
    by (simp add: RPC_HEADER_SZ_eq)
  show "take (m_ind m) (m_buf m) = replicate RPC_HEADER_SZ None @ map Some bs"
    using e by (simp add: poke_def RPC_HEADER_SZ_eq min_def)
qed

lemma get_content_new:
  assumes "appends marshall_new bs m"
  shows "get_content m = Some bs"
proof -
  have "take (m_ind m - RPC_HEADER_SZ) (drop RPC_HEADER_SZ (m_buf m)) = map Some bs"
    using arg_cong [OF appends_new(2) [OF assms], of "drop RPC_HEADER_SZ"]
    by (simp add: drop_take)
  then show ?thesis
    by (simp add: get_content_def)
qed

section \<open>Reading what the network sent\<close>

definition u_init :: "unmarshall \<Rightarrow> bool" where
  "u_init u \<longleftrightarrow> list_all (\<lambda>c. c \<noteq> None) (u_buf u) \<and> length (u_buf u) = u_sz u
     \<and> u_ind u \<le> u_sz u \<and> u_sz u < 2 ^ 31"

lemma those_init: "list_all (\<lambda>c. c \<noteq> None) xs \<Longrightarrow> \<exists>ys. those xs = Some ys"
  by (induction xs) auto

lemma list_all_slice: "list_all P xs \<Longrightarrow> list_all P (take n (drop i xs))"
  by (auto simp: list_all_iff dest: in_set_takeD in_set_dropD)

lemma rawbytes_sum:
  assumes "u_init u"
  shows "unat (of_nat (u_ind u) + n :: u32) = (u_ind u + unat n) mod 2 ^ 32"
    and "unat (of_nat (u_sz u) :: u32) = u_sz u"
  using assms by (simp_all add: u_init_def unat_of_nat unat_word_ariths)

text \<open>
  Reading a string of announced length \<open>n\<close> from a received, fully initialised block ends in
  a fault in exactly one case: the 32-bit sum of read position and announced length wraps
  around to a value within the block. Then \<^verbatim>\<open>unmarshall::rawbytes\<close> copies bytes from beyond the
  end of the block; with any other length it returns.
\<close>

theorem unmarshall_rawbytes_overread:
  assumes "u_init u"
  shows "unmarshall_rawbytes s n u = Inl f \<longleftrightarrow>
     f = OutOfBounds \<and> 2 ^ 32 \<le> u_ind u + unat n \<and> u_ind u + unat n - 2 ^ 32 \<le> u_sz u"
proof -
  have sz: "length (u_buf u) = u_sz u" "u_ind u \<le> u_sz u" "u_sz u < 2 ^ 31" "unat n < 2 ^ 32"
    using assms unsigned_less [of n, where 'a = nat] by (auto simp: u_init_def)
  obtain ys where ys: "those (take (unat n) (drop (u_ind u) (u_buf u))) = Some ys"
    using assms those_init list_all_slice unfolding u_init_def by blast
  have gt: "(of_nat (u_ind u) + n :: u32) > of_nat (u_sz u) \<longleftrightarrow> u_sz u < (u_ind u + unat n) mod 2 ^ 32"
    using rawbytes_sum [OF assms] by (simp add: word_less_nat_alt)
  show ?thesis
  proof (cases "u_ind u + unat n < 2 ^ 32")
    case True
    then show ?thesis
      using sz ys gt by (auto simp: unmarshall_rawbytes_def)
  next
    case False
    then have "(u_ind u + unat n) mod 2 ^ 32 = u_ind u + unat n - 2 ^ 32"
      using sz by (subst mod_if) auto
    then show ?thesis
      using False sz ys gt by (auto simp: unmarshall_rawbytes_def)
  qed
qed

theorem unmarshall_rawbytes_overread_witness:
  "u_init \<lparr>u_buf = [Some 7], u_sz = 1, u_ind = 1, u_ok = True\<rparr>
   \<and> unmarshall_rawbytes [] 0xFFFFFFFF \<lparr>u_buf = [Some 7], u_sz = 1, u_ind = 1, u_ok = True\<rparr> = Inl OutOfBounds"
proof -
  have h: "u_init \<lparr>u_buf = [Some 7], u_sz = 1, u_ind = 1, u_ok = True\<rparr>"
    by (simp add: u_init_def)
  show ?thesis
    using h unmarshall_rawbytes_overread [OF h, of "[]" "0xFFFFFFFF" OutOfBounds] by simp
qed

text \<open>
  Writing a string never leaves the allocated block, whatever the block's fill level: the
  write returns, the block grows when it has to, the length and the bytes of the string
  are appended, and everything written before is still there.
\<close>

theorem marshall_string_safe:
  assumes "m_inv m"
  shows "\<exists>m'. marshall_string s m = Inr m' \<and> m_inv m' \<and> m_ind m' = m_ind m + 4 + length s
     \<and> take (m_ind m') (m_buf m') = take (m_ind m) (m_buf m)
         @ map Some (be32 (of_nat (length s)) @ map byte_of_char s)"
proof -
  have "\<exists>m'. marshall_string s m = Inr m' \<and> appends m (enc_string s) m'"
    unfolding marshall_string_def enc_string_def
    by (intro appends_bind uint_appends rawbytes_appends assms)
  then obtain m' where m': "marshall_string s m = Inr m'" "appends m (enc_string s) m'"
    by blast
  moreover have "m_inv m'"
    using assms m'(2) by (rule m_inv_appends)
  moreover have "take (m_ind m') (m_buf m') = take (m_ind m) (m_buf m) @ map Some (enc_string s)"
    using assms m'(2) by (auto simp: appends_def poke_def m_inv_def min_def)
  ultimately show ?thesis
    by (auto simp: appends_def enc_string_def)
qed

theorem marshall_string_safe_witness:
  "\<exists>m'. marshall_string ''ab'' marshall_new = Inr m' \<and> m_ind m' = 30"
proof -
  have h: "m_inv marshall_new" ..
  show ?thesis
    using marshall_string_safe [OF h, of "''ab''"]
    by (auto simp: marshall_new_def RPC_HEADER_SZ_eq)
qed

end
