(* ===== verification/Rpc_Stub.thy ===== *)
theory Rpc_Stub
  imports Marshall
begin

text \<open>
  The typed stubs of \<^verbatim>\<open>rpc/rpc.h\<close>: the \<^verbatim>\<open>rpcc::call\<close> templates, which write the arguments of
  a call into a request and read its result, and the handler classes \<^verbatim>\<open>h1\<close> that the
  \<^verbatim>\<open>rpcs::reg\<close> templates create, which read the arguments, call the registered method on the
  server object and write the result. An argument is the writer of its type applied to its
  value; the untyped transport \<^verbatim>\<open>rpcc::call1\<close> is the argument \<open>call1\<close> here and is modelled in
  theories \<open>Rpc_Client\<close> and \<open>Rpc_Server\<close>.
\<close>

section \<open>Error codes\<close>

definition timeout_failure :: i32 where "timeout_failure = - 1"
definition unmarshal_args_failure :: i32 where "unmarshal_args_failure = - 2"
definition unmarshal_reply_failure :: i32 where "unmarshal_reply_failure = - 3"
definition atmostonce_failure :: i32 where "atmostonce_failure = - 4"
definition oldsrv_failure :: i32 where "oldsrv_failure = - 5"
definition bind_failure :: i32 where "bind_failure = - 6"
definition cancel_failure :: i32 where "cancel_failure = - 7"
definition rpc_bind :: u32 where "rpc_bind = 1"

section \<open>The client stubs\<close>

type_synonym arg_writer = "marshall \<Rightarrow> marshall res"
type_synonym 'a reader = "unmarshall \<Rightarrow> ('a \<times> unmarshall) res"
type_synonym transport = "u32 \<Rightarrow> marshall \<Rightarrow> int \<Rightarrow> (i32 \<times> unmarshall) res"

text \<open>A result that does not unmarshal exactly fails \<^verbatim>\<open>VERIFY(0)\<close>.\<close>

definition call_m :: "transport \<Rightarrow> u32 \<Rightarrow> marshall \<Rightarrow> 'r reader \<Rightarrow> 'r \<Rightarrow> int \<Rightarrow> (i32 \<times> 'r) res" where
  "call_m call1 proc req get r tmo =
     bindR (call1 proc req tmo) (\<lambda>(intret, u).
       if intret <s 0 then Inr (intret, r)
       else bindR (get u) (\<lambda>(r, u).
              if okdone u then Inr (intret, r) else Inl VerifyFailed))"

definition req_args1 :: "arg_writer \<Rightarrow> marshall res" where
  "req_args1 p1 = p1 marshall_new"

definition req_args2 :: "arg_writer \<Rightarrow> arg_writer \<Rightarrow> marshall res" where
  "req_args2 p1 p2 = bindR (p1 marshall_new) p2"

definition req_args3 :: "arg_writer \<Rightarrow> arg_writer \<Rightarrow> arg_writer \<Rightarrow> marshall res" where
  "req_args3 p1 p2 p3 = bindR (bindR (p1 marshall_new) p2) p3"

definition req_args4 :: "arg_writer \<Rightarrow> arg_writer \<Rightarrow> arg_writer \<Rightarrow> arg_writer \<Rightarrow> marshall res" where
  "req_args4 p1 p2 p3 p4 = bindR (bindR (bindR (p1 marshall_new) p2) p3) p4"

definition req_args5 :: "arg_writer \<Rightarrow> arg_writer \<Rightarrow> arg_writer \<Rightarrow> arg_writer \<Rightarrow> arg_writer \<Rightarrow> marshall res" where
  "req_args5 p1 p2 p3 p4 p5 = bindR (bindR (bindR (bindR (p1 marshall_new) p2) p3) p4) p5"

definition req_args6 :: "arg_writer \<Rightarrow> arg_writer \<Rightarrow> arg_writer \<Rightarrow> arg_writer \<Rightarrow> arg_writer \<Rightarrow> arg_writer \<Rightarrow> marshall res" where
  "req_args6 p1 p2 p3 p4 p5 p6 = bindR (bindR (bindR (bindR (bindR (p1 marshall_new) p2) p3) p4) p5) p6"

definition req_args7 :: "arg_writer \<Rightarrow> arg_writer \<Rightarrow> arg_writer \<Rightarrow> arg_writer \<Rightarrow> arg_writer \<Rightarrow> arg_writer \<Rightarrow> arg_writer \<Rightarrow> marshall res" where
  "req_args7 p1 p2 p3 p4 p5 p6 p7 = bindR (bindR (bindR (bindR (bindR (bindR (p1 marshall_new) p2) p3) p4) p5) p6) p7"

definition call_0 ::
  "transport \<Rightarrow> u32 \<Rightarrow> 'r reader \<Rightarrow> 'r \<Rightarrow> int \<Rightarrow> (i32 \<times> 'r) res" where
  "call_0 call1 proc get r tmo = call_m call1 proc marshall_new get r tmo"

definition call_1 ::
  "transport \<Rightarrow> u32 \<Rightarrow> arg_writer \<Rightarrow> 'r reader \<Rightarrow> 'r \<Rightarrow> int \<Rightarrow> (i32 \<times> 'r) res" where
  "call_1 call1 proc p1 get r tmo =
     bindR (req_args1 p1) (\<lambda>m. call_m call1 proc m get r tmo)"

definition call_2 ::
  "transport \<Rightarrow> u32 \<Rightarrow> arg_writer \<Rightarrow> arg_writer \<Rightarrow> 'r reader \<Rightarrow> 'r \<Rightarrow> int \<Rightarrow> (i32 \<times> 'r) res" where
  "call_2 call1 proc p1 p2 get r tmo =
     bindR (req_args2 p1 p2) (\<lambda>m. call_m call1 proc m get r tmo)"

definition call_3 ::
  "transport \<Rightarrow> u32 \<Rightarrow> arg_writer \<Rightarrow> arg_writer \<Rightarrow> arg_writer \<Rightarrow> 'r reader \<Rightarrow> 'r \<Rightarrow> int \<Rightarrow> (i32 \<times> 'r) res" where
  "call_3 call1 proc p1 p2 p3 get r tmo =
     bindR (req_args3 p1 p2 p3) (\<lambda>m. call_m call1 proc m get r tmo)"

definition call_4 ::
  "transport \<Rightarrow> u32 \<Rightarrow> arg_writer \<Rightarrow> arg_writer \<Rightarrow> arg_writer \<Rightarrow> arg_writer \<Rightarrow> 'r reader \<Rightarrow> 'r \<Rightarrow> int \<Rightarrow> (i32 \<times> 'r) res" where
  "call_4 call1 proc p1 p2 p3 p4 get r tmo =
     bindR (req_args4 p1 p2 p3 p4) (\<lambda>m. call_m call1 proc m get r tmo)"

definition call_5 ::
  "transport \<Rightarrow> u32 \<Rightarrow> arg_writer \<Rightarrow> arg_writer \<Rightarrow> arg_writer \<Rightarrow> arg_writer \<Rightarrow> arg_writer \<Rightarrow> 'r reader \<Rightarrow> 'r \<Rightarrow> int \<Rightarrow> (i32 \<times> 'r) res" where
  "call_5 call1 proc p1 p2 p3 p4 p5 get r tmo =
     bindR (req_args5 p1 p2 p3 p4 p5) (\<lambda>m. call_m call1 proc m get r tmo)"

definition call_6 ::
  "transport \<Rightarrow> u32 \<Rightarrow> arg_writer \<Rightarrow> arg_writer \<Rightarrow> arg_writer \<Rightarrow> arg_writer \<Rightarrow> arg_writer \<Rightarrow> arg_writer \<Rightarrow> 'r reader \<Rightarrow> 'r \<Rightarrow> int \<Rightarrow> (i32 \<times> 'r) res" where
  "call_6 call1 proc p1 p2 p3 p4 p5 p6 get r tmo =
     bindR (req_args6 p1 p2 p3 p4 p5 p6) (\<lambda>m. call_m call1 proc m get r tmo)"

definition call_7 ::
  "transport \<Rightarrow> u32 \<Rightarrow> arg_writer \<Rightarrow> arg_writer \<Rightarrow> arg_writer \<Rightarrow> arg_writer \<Rightarrow> arg_writer \<Rightarrow> arg_writer \<Rightarrow> arg_writer \<Rightarrow> 'r reader \<Rightarrow> 'r \<Rightarrow> int \<Rightarrow> (i32 \<times> 'r) res" where
  "call_7 call1 proc p1 p2 p3 p4 p5 p6 p7 get r tmo =
     bindR (req_args7 p1 p2 p3 p4 p5 p6 p7) (\<lambda>m. call_m call1 proc m get r tmo)"

definition handler_fn1 ::
  "'a1 reader \<Rightarrow> ('r \<Rightarrow> marshall \<Rightarrow> marshall res)
     \<Rightarrow> ('s \<Rightarrow> 'a1 \<Rightarrow> i32 \<times> 'r \<times> 's)
     \<Rightarrow> 's \<Rightarrow> unmarshall \<Rightarrow> marshall \<Rightarrow> (i32 \<times> marshall \<times> 's) res" where
  "handler_fn1 get1 put meth s args ret =
     bindR (get1 args) (\<lambda>(a1, args).
       if \<not> okdone args then Inr (unmarshal_args_failure, ret, s)
       else let (b, r, s') = meth s a1 in bindR (put r ret) (\<lambda>ret. Inr (b, ret, s')))"

definition handler_fn2 ::
  "'a1 reader \<Rightarrow> 'a2 reader \<Rightarrow> ('r \<Rightarrow> marshall \<Rightarrow> marshall res)
     \<Rightarrow> ('s \<Rightarrow> 'a1 \<Rightarrow> 'a2 \<Rightarrow> i32 \<times> 'r \<times> 's)
     \<Rightarrow> 's \<Rightarrow> unmarshall \<Rightarrow> marshall \<Rightarrow> (i32 \<times> marshall \<times> 's) res" where
  "handler_fn2 get1 get2 put meth s args ret =
     bindR (get1 args) (\<lambda>(a1, args).
     bindR (get2 args) (\<lambda>(a2, args).
       if \<not> okdone args then Inr (unmarshal_args_failure, ret, s)
       else let (b, r, s') = meth s a1 a2 in bindR (put r ret) (\<lambda>ret. Inr (b, ret, s'))))"

definition handler_fn3 ::
  "'a1 reader \<Rightarrow> 'a2 reader \<Rightarrow> 'a3 reader \<Rightarrow> ('r \<Rightarrow> marshall \<Rightarrow> marshall res)
     \<Rightarrow> ('s \<Rightarrow> 'a1 \<Rightarrow> 'a2 \<Rightarrow> 'a3 \<Rightarrow> i32 \<times> 'r \<times> 's)
     \<Rightarrow> 's \<Rightarrow> unmarshall \<Rightarrow> marshall \<Rightarrow> (i32 \<times> marshall \<times> 's) res" where
  "handler_fn3 get1 get2 get3 put meth s args ret =
     bindR (get1 args) (\<lambda>(a1, args).
     bindR (get2 args) (\<lambda>(a2, args).
     bindR (get3 args) (\<lambda>(a3, args).
       if \<not> okdone args then Inr (unmarshal_args_failure, ret, s)
       else let (b, r, s') = meth s a1 a2 a3 in bindR (put r ret) (\<lambda>ret. Inr (b, ret, s')))))"

definition handler_fn4 ::
  "'a1 reader \<Rightarrow> 'a2 reader \<Rightarrow> 'a3 reader \<Rightarrow> 'a4 reader \<Rightarrow> ('r \<Rightarrow> marshall \<Rightarrow> marshall res)
     \<Rightarrow> ('s \<Rightarrow> 'a1 \<Rightarrow> 'a2 \<Rightarrow> 'a3 \<Rightarrow> 'a4 \<Rightarrow> i32 \<times> 'r \<times> 's)
     \<Rightarrow> 's \<Rightarrow> unmarshall \<Rightarrow> marshall \<Rightarrow> (i32 \<times> marshall \<times> 's) res" where
  "handler_fn4 get1 get2 get3 get4 put meth s args ret =
     bindR (get1 args) (\<lambda>(a1, args).
     bindR (get2 args) (\<lambda>(a2, args).
     bindR (get3 args) (\<lambda>(a3, args).
     bindR (get4 args) (\<lambda>(a4, args).
       if \<not> okdone args then Inr (unmarshal_args_failure, ret, s)
       else let (b, r, s') = meth s a1 a2 a3 a4 in bindR (put r ret) (\<lambda>ret. Inr (b, ret, s'))))))"

definition handler_fn5 ::
  "'a1 reader \<Rightarrow> 'a2 reader \<Rightarrow> 'a3 reader \<Rightarrow> 'a4 reader \<Rightarrow> 'a5 reader \<Rightarrow> ('r \<Rightarrow> marshall \<Rightarrow> marshall res)
     \<Rightarrow> ('s \<Rightarrow> 'a1 \<Rightarrow> 'a2 \<Rightarrow> 'a3 \<Rightarrow> 'a4 \<Rightarrow> 'a5 \<Rightarrow> i32 \<times> 'r \<times> 's)
     \<Rightarrow> 's \<Rightarrow> unmarshall \<Rightarrow> marshall \<Rightarrow> (i32 \<times> marshall \<times> 's) res" where
  "handler_fn5 get1 get2 get3 get4 get5 put meth s args ret =
     bindR (get1 args) (\<lambda>(a1, args).
     bindR (get2 args) (\<lambda>(a2, args).
     bindR (get3 args) (\<lambda>(a3, args).
     bindR (get4 args) (\<lambda>(a4, args).
     bindR (get5 args) (\<lambda>(a5, args).
       if \<not> okdone args then Inr (unmarshal_args_failure, ret, s)
       else let (b, r, s') = meth s a1 a2 a3 a4 a5 in bindR (put r ret) (\<lambda>ret. Inr (b, ret, s')))))))"

definition handler_fn6 ::
  "'a1 reader \<Rightarrow> 'a2 reader \<Rightarrow> 'a3 reader \<Rightarrow> 'a4 reader \<Rightarrow> 'a5 reader \<Rightarrow> 'a6 reader \<Rightarrow> ('r \<Rightarrow> marshall \<Rightarrow> marshall res)
     \<Rightarrow> ('s \<Rightarrow> 'a1 \<Rightarrow> 'a2 \<Rightarrow> 'a3 \<Rightarrow> 'a4 \<Rightarrow> 'a5 \<Rightarrow> 'a6 \<Rightarrow> i32 \<times> 'r \<times> 's)
     \<Rightarrow> 's \<Rightarrow> unmarshall \<Rightarrow> marshall \<Rightarrow> (i32 \<times> marshall \<times> 's) res" where
  "handler_fn6 get1 get2 get3 get4 get5 get6 put meth s args ret =
     bindR (get1 args) (\<lambda>(a1, args).
     bindR (get2 args) (\<lambda>(a2, args).
     bindR (get3 args) (\<lambda>(a3, args).
     bindR (get4 args) (\<lambda>(a4, args).
     bindR (get5 args) (\<lambda>(a5, args).
     bindR (get6 args) (\<lambda>(a6, args).
       if \<not> okdone args then Inr (unmarshal_args_failure, ret, s)
       else let (b, r, s') = meth s a1 a2 a3 a4 a5 a6 in bindR (put r ret) (\<lambda>ret. Inr (b, ret, s'))))))))"

definition handler_fn7 ::
  "'a1 reader \<Rightarrow> 'a2 reader \<Rightarrow> 'a3 reader \<Rightarrow> 'a4 reader \<Rightarrow> 'a5 reader \<Rightarrow> 'a6 reader \<Rightarrow> 'a7 reader \<Rightarrow> ('r \<Rightarrow> marshall \<Rightarrow> marshall res)
     \<Rightarrow> ('s \<Rightarrow> 'a1 \<Rightarrow> 'a2 \<Rightarrow> 'a3 \<Rightarrow> 'a4 \<Rightarrow> 'a5 \<Rightarrow> 'a6 \<Rightarrow> 'a7 \<Rightarrow> i32 \<times> 'r \<times> 's)
     \<Rightarrow> 's \<Rightarrow> unmarshall \<Rightarrow> marshall \<Rightarrow> (i32 \<times> marshall \<times> 's) res" where
  "handler_fn7 get1 get2 get3 get4 get5 get6 get7 put meth s args ret =
     bindR (get1 args) (\<lambda>(a1, args).
     bindR (get2 args) (\<lambda>(a2, args).
     bindR (get3 args) (\<lambda>(a3, args).
     bindR (get4 args) (\<lambda>(a4, args).
     bindR (get5 args) (\<lambda>(a5, args).
     bindR (get6 args) (\<lambda>(a6, args).
     bindR (get7 args) (\<lambda>(a7, args).
       if \<not> okdone args then Inr (unmarshal_args_failure, ret, s)
       else let (b, r, s') = meth s a1 a2 a3 a4 a5 a6 a7 in bindR (put r ret) (\<lambda>ret. Inr (b, ret, s')))))))))"

section \<open>Delivery of requests and replies\<close>

text \<open>
  \<open>received junk m\<close> is the block a peer unmarshals after \<open>m\<close> was sent: the cells up to the
  write head, with the length that \<^verbatim>\<open>connection::writepdu\<close> stores in the first four. Cells
  that were never written arrive as arbitrary bytes.
\<close>

definition received :: "(nat \<Rightarrow> u8) \<Rightarrow> marshall \<Rightarrow> unmarshall" where
  "received junk m = unmarshall_of_buf
     (map Some (be32 (of_nat (m_ind m)))
        @ map (\<lambda>i. Some (case m_buf m ! i of None \<Rightarrow> junk i | Some b \<Rightarrow> b)) [4..<m_ind m])
     (m_ind m)"

lemma received_bytes:
  assumes "take (m_ind m) (m_buf m) = poke (replicate 24 None @ map Some bs) 4 h"
    and "m_ind m = 24 + length bs" and "length h \<le> 20"
  shows "\<exists>gap. u_buf (received junk m) = map Some (be32 (of_nat (m_ind m)) @ h @ gap @ bs)
       \<and> length gap + length h = 20"
proof -
  define gap where "gap = map junk [4 + length h..<24]"
  have tk: "take (m_ind m) (m_buf m)
      = replicate 4 None @ map Some h @ replicate (20 - length h) None @ map Some bs"
    using assms(1,3) by (simp add: poke_def)
  have nth: "m_buf m ! i = (replicate 4 None @ map Some h @ replicate (20 - length h) None @ map Some bs) ! i"
    if "i < m_ind m" for i
    using tk that by (metis nth_take)
  have "map (\<lambda>i. case m_buf m ! i of None \<Rightarrow> junk i | Some b \<Rightarrow> b) [4..<m_ind m] = h @ gap @ bs"
  proof (rule nth_equalityI)
    show "length (map (\<lambda>i. case m_buf m ! i of None \<Rightarrow> junk i | Some b \<Rightarrow> b) [4..<m_ind m])
        = length (h @ gap @ bs)"
      using assms(2,3) by (simp add: gap_def)
  next
    fix k assume "k < length (map (\<lambda>i. case m_buf m ! i of None \<Rightarrow> junk i | Some b \<Rightarrow> b) [4..<m_ind m])"
    then have k: "4 + k < m_ind m" by simp
    then show "map (\<lambda>i. case m_buf m ! i of None \<Rightarrow> junk i | Some b \<Rightarrow> b) [4..<m_ind m] ! k
        = (h @ gap @ bs) ! k"
      using assms(2,3) by (auto simp: nth nth_append gap_def)
  qed
  moreover have "map (\<lambda>i. Some (f i)) xs = map Some (map f xs)" for f :: "nat \<Rightarrow> u8" and xs
    by simp
  ultimately have "map (\<lambda>i. Some (case m_buf m ! i of None \<Rightarrow> junk i | Some b \<Rightarrow> b)) [4..<m_ind m]
      = map Some (h @ gap @ bs)"
    by metis
  then show ?thesis
    using assms(3)
    by (intro exI [of _ gap]) (simp add: received_def unmarshall_of_buf_def, simp add: gap_def)
qed

lemma received_fields [simp]:
  "u_sz (received junk m) = m_ind m" "u_ok (received junk m)"
  by (simp_all add: received_def unmarshall_of_buf_def)

lemma appends_new_inv:
  assumes "appends marshall_new bs m"
  shows "m_inv m" "m_ind m = 24 + length bs" "RPC_HEADER_SZ \<le> m_ind m"
    "take (m_ind m) (m_buf m) = replicate 24 None @ map Some bs"
  using m_inv_appends [OF m_inv_new assms] appends_new [OF assms] by (simp_all add: RPC_HEADER_SZ_eq)

lemma request_ready:
  assumes "appends marshall_new bs m" and "24 + length bs < 2 ^ 31"
  shows "\<exists>m' u. pack_req_header h m = Inr m' \<and> unpack_req_header (received junk m') = Inr (h, u)
     \<and> u_ready u bs"
proof -
  note new = appends_new_inv [OF assms(1)]
  obtain m' where m': "pack_req_header h m = Inr m'" "m_ind m' = m_ind m"
      "take (m_ind m) (m_buf m') = poke (take (m_ind m) (m_buf m)) 4 (enc_req_header h)"
    using pack_req_header_poke [OF new(1,3)] by blast
  then obtain gap where "u_buf (received junk m') = map Some (be32 (of_nat (m_ind m')) @ enc_req_header h @ gap @ bs)"
      "length gap + length (enc_req_header h) = 20"
    using received_bytes [of m' bs "enc_req_header h" junk] new by auto
  then have buf: "u_buf (received junk m') = map Some (be32 (of_nat (m_ind m')) @ enc_req_header h @ bs)"
    by simp
  have "u_ready ((received junk m')\<lparr>u_ind := 4\<rparr>) (enc_req_header h @ bs)"
    using buf m' new assms(2) by (simp add: u_ready_def)
  then have "unpack_req_header (received junk m') = Inr (h, (received junk m')\<lparr>u_ind := RPC_HEADER_SZ\<rparr>)"
    by (rule unpack_req_header_ready)
  moreover have "u_ready ((received junk m')\<lparr>u_ind := RPC_HEADER_SZ\<rparr>) bs"
    using buf m' new assms(2) by (simp add: u_ready_def RPC_HEADER_SZ_eq)
  ultimately show ?thesis
    using m'(1) by blast
qed

lemma reply_ready:
  assumes "appends marshall_new bs m" and "24 + length bs < 2 ^ 31"
  shows "\<exists>m' u. pack_reply_header h m = Inr m' \<and> unpack_reply_header (received junk m') = Inr (h, u)
     \<and> u_ready (fst (take_in unmarshall_null u)) bs"
proof -
  note new = appends_new_inv [OF assms(1)]
  obtain m' where m': "pack_reply_header h m = Inr m'" "m_ind m' = m_ind m"
      "take (m_ind m) (m_buf m') = poke (take (m_ind m) (m_buf m)) 4 (enc_reply_header h)"
    using pack_reply_header_poke [OF new(1,3)] by blast
  then obtain gap where buf: "u_buf (received junk m') = map Some (be32 (of_nat (m_ind m')) @ enc_reply_header h @ gap @ bs)"
      "length gap = 12"
    using received_bytes [of m' bs "enc_reply_header h" junk] new by auto
  have "u_ready ((received junk m')\<lparr>u_ind := 4\<rparr>) (enc_reply_header h @ gap @ bs)"
    using buf m' new assms(2) by (simp add: u_ready_def)
  then have "unpack_reply_header (received junk m') = Inr (h, (received junk m')\<lparr>u_ind := RPC_HEADER_SZ\<rparr>)"
    by (rule unpack_reply_header_ready)
  moreover have "u_ready (fst (take_in unmarshall_null ((received junk m')\<lparr>u_ind := RPC_HEADER_SZ\<rparr>))) bs"
    using buf m' new assms(2)
    by (simp add: u_ready_def RPC_HEADER_SZ_eq take_in_def unmarshall_take_buf_def unmarshall_null_def)
  ultimately show ?thesis
    using m'(1) by blast
qed

section \<open>A remote call returns what the method returns\<close>

text \<open>
  One call over a network that delivers: the request is packed, delivered and unpacked, the
  handler runs, its reply is packed, delivered and unpacked, and \<^verbatim>\<open>rpcc::got_pdu\<close> hands the
  rest of the reply to the caller with \<open>take_in\<close>.
\<close>

definition loopback ::
  "(u32 \<Rightarrow> req_header) \<Rightarrow> (nat \<Rightarrow> u8) \<Rightarrow> (nat \<Rightarrow> u8)
     \<Rightarrow> ('s \<Rightarrow> unmarshall \<Rightarrow> marshall \<Rightarrow> (i32 \<times> marshall \<times> 's) res) \<Rightarrow> 's \<Rightarrow> transport" where
  "loopback hdr junk1 junk2 fn s proc req tmo =
     bindR (pack_req_header (hdr proc) req) (\<lambda>m.
     bindR (unpack_req_header (received junk1 m)) (\<lambda>(h, u).
     bindR (fn s u marshall_new) (\<lambda>(b, ret, s').
     bindR (pack_reply_header \<lparr>rp_xid = rq_xid h, rp_ret = b\<rparr> ret) (\<lambda>m.
     bindR (unpack_reply_header (received junk2 m)) (\<lambda>(h, u).
       Inr (rp_ret h, fst (take_in unmarshall_null u)))))))"

lemma loopback_call_m:
  assumes result: "codec putR getR encR validR" "validR r" "24 + length (encR r) < 2 ^ 31"
    and req: "appends marshall_new bs m" "24 + length bs < 2 ^ 31"
    and fn: "\<And>u. u_ready u bs \<Longrightarrow> fn s u marshall_new = bindR (putR r marshall_new) (\<lambda>ret. Inr (b, ret, s'))"
    and nonneg: "0 <=s b"
  shows "call_m (loopback hdr junk1 junk2 fn s) proc m getR r0 tmo = Inr (b, r)"
proof -
  obtain m1 u1 where m1: "pack_req_header (hdr proc) m = Inr m1"
      "unpack_req_header (received junk1 m1) = Inr (hdr proc, u1)" "u_ready u1 bs"
    using request_ready [OF req] by blast
  obtain ret where ret: "putR r marshall_new = Inr ret" "appends marshall_new (encR r) ret"
    using codec.put_appends [OF result(1) m_inv_new result(2)] by blast
  obtain m2 u2 where m2: "pack_reply_header \<lparr>rp_xid = rq_xid (hdr proc), rp_ret = b\<rparr> ret = Inr m2"
      "unpack_reply_header (received junk2 m2) = Inr (\<lparr>rp_xid = rq_xid (hdr proc), rp_ret = b\<rparr>, u2)"
      "u_ready (fst (take_in unmarshall_null u2)) (encR r)"
    using reply_ready [OF ret(2) result(3)] by blast
  have "getR (fst (take_in unmarshall_null u2))
      = Inr (r, advance (length (encR r)) (fst (take_in unmarshall_null u2)))"
    using codec.get_enc [OF result(1), of _ r "[]"] m2(3) result(2) by simp
  moreover have "okdone (advance (length (encR r)) (fst (take_in unmarshall_null u2)))"
    using u_ready_advance [of _ "encR r" "[]"] m2(3) by (simp add: u_ready_done)
  moreover have "\<not> b <s 0"
    using nonneg by (simp add: signed)
  ultimately show ?thesis
    using m1 m2 ret fn [OF m1(3)] by (simp add: call_m_def loopback_def)
qed

lemma read_arg:
  assumes "codec put get enc valid" and "u_ready u (enc x @ r)" and "valid x"
  shows "bindR (get u) f = f (x, advance (length (enc x)) u)"
    and "u_ready (advance (length (enc x)) u) r"
  using assms codec.get_enc u_ready_advance by fastforce+

lemma write_args:
  assumes "codec put1 get1 enc1 valid1" "valid1 a1"
  shows "\<exists>m. put1 a1 marshall_new = Inr m \<and> appends marshall_new (enc1 a1) m"
  by (rule codec.put_appends [OF assms(1) m_inv_new assms(2)])

lemma write_more:
  assumes "\<exists>m. p = Inr m \<and> appends marshall_new bs m" and "codec put get enc valid" and "valid a"
  shows "\<exists>m. bindR p (put a) = Inr m \<and> appends marshall_new (bs @ enc a) m"
proof -
  obtain m where m: "p = Inr m" "appends marshall_new bs m"
    using assms(1) by blast
  obtain m' where "put a m = Inr m'" "appends m (enc a) m'"
    using codec.put_appends [OF assms(2) m_inv_appends [OF m_inv_new m(2)] assms(3)] by blast
  then show ?thesis
    using m appends_append [OF m_inv_new m(2)] by auto
qed

lemma handler_fn1_ready:
  assumes "codec put1 get1 enc1 valid1" "valid1 a1" and "u_ready u (enc1 a1)"
  shows "handler_fn1 get1 put meth s u ret =
    (let (b, r, s') = meth s a1 in bindR (put r ret) (\<lambda>ret. Inr (b, ret, s')))"
proof -
  note r1 = read_arg [OF assms(1) _ assms(2), of u "[]"]
  show ?thesis
    using assms(3) by (simp add: handler_fn1_def r1 u_ready_done)
qed

lemma handler_fn2_ready:
  assumes "codec put1 get1 enc1 valid1" "valid1 a1" and "codec put2 get2 enc2 valid2" "valid2 a2"
    and "u_ready u (enc1 a1 @ enc2 a2)"
  shows "handler_fn2 get1 get2 put meth s u ret =
    (let (b, r, s') = meth s a1 a2 in bindR (put r ret) (\<lambda>ret. Inr (b, ret, s')))"
proof -
  note r1 = read_arg [OF assms(1,5,2)]
  have "u_ready (advance (length (enc1 a1)) u) (enc2 a2 @ [])"
    using r1(2) by simp
  note r2 = read_arg [OF assms(3) this assms(4)]
  show ?thesis
    using u_ready_done [OF r2(2)] by (simp add: handler_fn2_def r1(1) r2(1))
qed

lemma handler_fn3_ready:
  assumes "codec put1 get1 enc1 valid1" "valid1 a1" and "codec put2 get2 enc2 valid2" "valid2 a2"
    and "codec put3 get3 enc3 valid3" "valid3 a3"
    and "u_ready u (enc1 a1 @ enc2 a2 @ enc3 a3)"
  shows "handler_fn3 get1 get2 get3 put meth s u ret =
    (let (b, r, s') = meth s a1 a2 a3 in bindR (put r ret) (\<lambda>ret. Inr (b, ret, s')))"
proof -
  note r1 = read_arg [OF assms(1,7,2)]
  note r2 = read_arg [OF assms(3) r1(2) assms(4)]
  have "u_ready (advance (length (enc2 a2)) (advance (length (enc1 a1)) u)) (enc3 a3 @ [])"
    using r2(2) by simp
  note r3 = read_arg [OF assms(5) this assms(6)]
  show ?thesis
    using u_ready_done [OF r3(2)] by (simp only: handler_fn3_def r1(1) r2(1) r3(1) prod.case simp_thms if_False)
qed

text \<open>
  A remote procedure call is transparent: for arguments and a result of marshallable types,
  \<^verbatim>\<open>rpcc::call\<close> over a network that delivers gives the caller the status and the result that
  the registered method computes from exactly the arguments the caller passed.
\<close>

theorem call_transparent:
  assumes a1: "codec put1 get1 enc1 valid1" "valid1 a1"
    and a2: "codec put2 get2 enc2 valid2" "valid2 a2"
    and a3: "codec put3 get3 enc3 valid3" "valid3 a3"
    and res: "codec putR getR encR validR" "validR r" "24 + length (encR r) < 2 ^ 31"
    and size: "24 + length (enc1 a1 @ enc2 a2 @ enc3 a3) < 2 ^ 31"
    and meth: "meth s a1 a2 a3 = (b, r, s')" "0 <=s b"
  shows "call_3 (loopback hdr junk1 junk2 (handler_fn3 get1 get2 get3 putR meth) s) proc
      (put1 a1) (put2 a2) (put3 a3) getR r0 tmo = Inr (b, r)"
proof -
  have "\<exists>m. req_args3 (put1 a1) (put2 a2) (put3 a3) = Inr m
      \<and> appends marshall_new ((enc1 a1 @ enc2 a2) @ enc3 a3) m"
    unfolding req_args3_def by (rule write_more [OF write_more [OF write_args [OF a1] a2] a3])
  then obtain m where m: "req_args3 (put1 a1) (put2 a2) (put3 a3) = Inr m"
      "appends marshall_new (enc1 a1 @ enc2 a2 @ enc3 a3) m"
    by auto
  have "call_m (loopback hdr junk1 junk2 (handler_fn3 get1 get2 get3 putR meth) s) proc m getR r0 tmo
      = Inr (b, r)"
    by (rule loopback_call_m [OF res m(2) size _ meth(2)])
      (simp add: handler_fn3_ready [OF a1 a2 a3] meth(1))
  then show ?thesis
    by (simp add: call_3_def m(1))
qed

theorem call_transparent_witness:
  "call_3 (loopback (\<lambda>p. \<lparr>rq_xid = 1, rq_proc = p, rq_clt_nonce = 5, rq_srv_nonce = 9, rq_xid_rep = 0\<rparr>)
       (\<lambda>_. 0) (\<lambda>_. 255)
       (handler_fn3 unmarshall_uint (unmarshall_string []) unmarshall_bool marshall_int
          (\<lambda>s n str t. (0, n + of_nat (length str), s))) ()) 0x7001
     (marshall_uint 40) (marshall_string ''ab'') (marshall_bool True) unmarshall_int 0 1000
   = Inr (0, 42)"
  by (rule call_transparent [OF uint_codec.codec_axioms _ string_codec.codec_axioms _
        bool_codec.codec_axioms _ int_codec.codec_axioms])
    (simp_all add: enc_string_def)

end
