(* ===== verification/Lock_Server.thy ===== *)
theory Lock_Server
  imports Rpc_Stub
begin

text \<open>
  The lock protocol (\<^verbatim>\<open>lock_protocol.h\<close>), the plain lock server (\<^verbatim>\<open>lock_server.cc\<close>) and its client
  stubs (\<^verbatim>\<open>lock_client.cc\<close>). A thread of the server that finds the lock taken waits on the
  condition variable \<^verbatim>\<open>statusCheckCond\<close>, which all locks share; the relation \<open>lock_step\<close>
  interleaves the threads between these waits and records who holds what.
\<close>

section \<open>Protocol\<close>

type_synonym status = i32
type_synonym lockid_t = u64

definition lp_OK :: status where "lp_OK = 0"
definition lp_RETRY :: status where "lp_RETRY = 1"
definition lp_RPCERR :: status where "lp_RPCERR = 2"
definition lp_NOENT :: status where "lp_NOENT = 3"
definition lp_IOERR :: status where "lp_IOERR = 4"

definition lp_acquire :: u32 where "lp_acquire = 0x7001"
definition lp_release :: u32 where "lp_release = lp_acquire + 1"
definition lp_attach :: u32 where "lp_attach = lp_acquire + 2"
definition lp_unattach :: u32 where "lp_unattach = lp_acquire + 3"
definition lp_stat :: u32 where "lp_stat = lp_acquire + 4"

definition rlp_OK :: status where "rlp_OK = 0"
definition rlp_revoke :: u32 where "rlp_revoke = 0x8001"
definition rlp_retry :: u32 where "rlp_retry = 0x8002"

section \<open>The server\<close>

text \<open>The key of \<^verbatim>\<open>threadStatusMap\<close> is an \<^verbatim>\<open>int\<close>: a lock identifier is cut to its low 32 bits.\<close>

record lock_server =
  ls_nacquire :: i32
  threadStatusMap :: "i32 \<rightharpoonup> i32"

definition lock_server_new :: lock_server where
  "lock_server_new = \<lparr>ls_nacquire = 0, threadStatusMap = Map.empty\<rparr>"

definition lid_int :: "lockid_t \<Rightarrow> i32" where
  "lid_int lid = ucast lid"

definition lock_server_stat :: "i32 \<Rightarrow> lockid_t \<Rightarrow> lock_server \<Rightarrow> status \<times> i32" where
  "lock_server_stat clt lid s = (lp_OK, ls_nacquire s)"

text \<open>\<open>None\<close> means that the thread goes to sleep on the condition variable.\<close>

definition acquire_loop :: "lockid_t \<Rightarrow> lock_server \<Rightarrow> (status \<times> lock_server) option" where
  "acquire_loop lid s =
     (if threadStatusMap s (lid_int lid) = Some 1 then None
      else Some (lp_OK, s\<lparr>threadStatusMap := (threadStatusMap s)(lid_int lid \<mapsto> 1)\<rparr>))"

definition lock_server_acquire :: "i32 \<Rightarrow> lockid_t \<Rightarrow> lock_server \<Rightarrow> (status \<times> lock_server) option" where
  "lock_server_acquire clt lid s =
     (case threadStatusMap s (lid_int lid) of
        Some v \<Rightarrow>
          if v = 0 then Some (lp_OK, s\<lparr>threadStatusMap := (threadStatusMap s)(lid_int lid \<mapsto> 1)\<rparr>)
          else acquire_loop lid s
      | None \<Rightarrow> Some (lp_OK, s\<lparr>threadStatusMap := (threadStatusMap s)(lid_int lid \<mapsto> 1)\<rparr>))"

text \<open>The last component tells whether the condition variable is signalled.\<close>

definition lock_server_release :: "i32 \<Rightarrow> lockid_t \<Rightarrow> lock_server \<Rightarrow> status \<times> lock_server \<times> bool" where
  "lock_server_release clt lid s =
     (if threadStatusMap s (lid_int lid) = Some 1
      then (lp_OK, s\<lparr>threadStatusMap := (threadStatusMap s)(lid_int lid \<mapsto> 0)\<rparr>, True)
      else (lp_NOENT, s, False))"

section \<open>The client stubs\<close>

text \<open>\<open>call proc lid\<close> is \<^verbatim>\<open>cl->call(proc, cl->id(), lid, r)\<close>: the return code and \<open>r\<close>.\<close>

definition lock_client_stat :: "(u32 \<Rightarrow> lockid_t \<Rightarrow> status \<times> i32) \<Rightarrow> lockid_t \<Rightarrow> i32 res" where
  "lock_client_stat call lid =
     (let (ret, r) = call lp_stat lid in if ret = lp_OK then Inr r else Inl VerifyFailed)"

definition lock_client_acquire :: "(u32 \<Rightarrow> lockid_t \<Rightarrow> status \<times> i32) \<Rightarrow> lockid_t \<Rightarrow> status" where
  "lock_client_acquire call lid = fst (call lp_acquire lid)"

definition lock_client_release :: "(u32 \<Rightarrow> lockid_t \<Rightarrow> status \<times> i32) \<Rightarrow> lockid_t \<Rightarrow> status" where
  "lock_client_release call lid = fst (call lp_release lid)"

section \<open>Threads of the server\<close>

text \<open>
  \<open>q_blocked\<close> are the requests asleep on the condition variable, \<open>q_woken\<close> those that were
  woken and have not yet got the mutex back, \<open>q_holds\<close> the locks granted and not released.
  A signal wakes one sleeper, whichever lock it waits for; a sleeper may also wake by itself.
  Only the holder of a lock releases it.
\<close>

record lock_threads =
  q_srv :: lock_server
  q_blocked :: "(i32 \<times> lockid_t) list"
  q_woken :: "(i32 \<times> lockid_t) list"
  q_holds :: "(i32 \<times> lockid_t) list"

inductive lock_step :: "lock_threads \<Rightarrow> lock_threads \<Rightarrow> bool" where
  lk_grant: "lock_server_acquire clt lid (q_srv q) = Some (r, s)
    \<Longrightarrow> lock_step q (q\<lparr>q_srv := s, q_holds := (clt, lid) # q_holds q\<rparr>)"
| lk_block: "lock_server_acquire clt lid (q_srv q) = None
    \<Longrightarrow> lock_step q (q\<lparr>q_blocked := (clt, lid) # q_blocked q\<rparr>)"
| lk_recheck: "q_woken q = us @ (clt, lid) # vs \<Longrightarrow> acquire_loop lid (q_srv q) = Some (r, s)
    \<Longrightarrow> lock_step q (q\<lparr>q_srv := s, q_woken := us @ vs, q_holds := (clt, lid) # q_holds q\<rparr>)"
| lk_resleep: "q_woken q = us @ (clt, lid) # vs \<Longrightarrow> acquire_loop lid (q_srv q) = None
    \<Longrightarrow> lock_step q (q\<lparr>q_woken := us @ vs, q_blocked := (clt, lid) # q_blocked q\<rparr>)"
| lk_release: "q_holds q = us @ (clt, lid) # vs \<Longrightarrow> lock_server_release clt lid (q_srv q) = (r, s, True)
    \<Longrightarrow> q_blocked q = [] \<Longrightarrow> lock_step q (q\<lparr>q_srv := s, q_holds := us @ vs\<rparr>)"
| lk_release_signal: "q_holds q = us @ (clt, lid) # vs \<Longrightarrow> lock_server_release clt lid (q_srv q) = (r, s, True)
    \<Longrightarrow> q_blocked q = bs @ w # cs
    \<Longrightarrow> lock_step q (q\<lparr>q_srv := s, q_holds := us @ vs, q_blocked := bs @ cs, q_woken := w # q_woken q\<rparr>)"
| lk_spurious: "q_blocked q = bs @ w # cs
    \<Longrightarrow> lock_step q (q\<lparr>q_blocked := bs @ cs, q_woken := w # q_woken q\<rparr>)"

definition lock_threads_new :: lock_threads where
  "lock_threads_new = \<lparr>q_srv = lock_server_new, q_blocked = [], q_woken = [], q_holds = []\<rparr>"

inductive lock_reachable :: "lock_threads \<Rightarrow> bool" where
  lk_init: "lock_reachable lock_threads_new"
| lk_next: "lock_reachable q \<Longrightarrow> lock_step q q' \<Longrightarrow> lock_reachable q'"

section \<open>Mutual exclusion\<close>

definition lock_inv :: "lock_threads \<Rightarrow> bool" where
  "lock_inv q \<longleftrightarrow>
     distinct (map (lid_int \<circ> snd) (q_holds q))
     \<and> (\<forall>h \<in> set (q_holds q). threadStatusMap (q_srv q) (lid_int (snd h)) = Some 1)"

lemma acquire_loop_SomeD:
  "acquire_loop lid s = Some (r, s') \<Longrightarrow>
   r = lp_OK \<and> threadStatusMap s (lid_int lid) \<noteq> Some 1
   \<and> s' = s\<lparr>threadStatusMap := (threadStatusMap s)(lid_int lid \<mapsto> 1)\<rparr>"
  by (auto simp: acquire_loop_def split: if_splits)

lemma lock_server_acquire_SomeD:
  "lock_server_acquire clt lid s = Some (r, s') \<Longrightarrow>
   r = lp_OK \<and> threadStatusMap s (lid_int lid) \<noteq> Some 1
   \<and> s' = s\<lparr>threadStatusMap := (threadStatusMap s)(lid_int lid \<mapsto> 1)\<rparr>"
  by (auto simp: lock_server_acquire_def split: option.splits if_splits dest: acquire_loop_SomeD)

lemma lock_server_releaseD:
  "lock_server_release clt lid s = (r, s', True) \<Longrightarrow>
   s' = s\<lparr>threadStatusMap := (threadStatusMap s)(lid_int lid \<mapsto> 0)\<rparr>"
  by (auto simp: lock_server_release_def split: if_splits)

lemma lock_inv_grant:
  assumes "lock_inv q" "threadStatusMap (q_srv q) (lid_int lid) \<noteq> Some 1"
    and "s = (q_srv q)\<lparr>threadStatusMap := (threadStatusMap (q_srv q))(lid_int lid \<mapsto> 1)\<rparr>"
    and "q' = q\<lparr>q_srv := s, q_holds := (clt, lid) # q_holds q\<rparr>"
  shows "lock_inv q'"
proof -
  have "lid_int lid \<notin> set (map (lid_int \<circ> snd) (q_holds q))"
    using assms(1,2) by (force simp: lock_inv_def)
  then show ?thesis
    using assms by (auto simp: lock_inv_def)
qed

lemma lock_inv_release:
  assumes "lock_inv q" "q_holds q = us @ (clt, lid) # vs"
    and "s = (q_srv q)\<lparr>threadStatusMap := (threadStatusMap (q_srv q))(lid_int lid \<mapsto> 0)\<rparr>"
    and "q_srv q' = s" "q_holds q' = us @ vs"
  shows "lock_inv q'"
  using assms by (auto simp: lock_inv_def image_iff)

lemma lock_inv_frame: "lock_inv q \<Longrightarrow> q_srv q' = q_srv q \<Longrightarrow> q_holds q' = q_holds q \<Longrightarrow> lock_inv q'"
  by (simp add: lock_inv_def)

lemma lock_step_inv: "lock_step q q' \<Longrightarrow> lock_inv q \<Longrightarrow> lock_inv q'"
proof (induction rule: lock_step.induct)
  case (lk_grant clt lid q r s)
  then show ?case
    using lock_server_acquire_SomeD [OF lk_grant.hyps] by (auto intro: lock_inv_grant)
next
  case (lk_recheck q us clt lid vs r s)
  then have "lock_inv (q\<lparr>q_srv := s, q_holds := (clt, lid) # q_holds q\<rparr>)"
    using acquire_loop_SomeD [of lid "q_srv q" r s] by (auto intro: lock_inv_grant)
  then show ?case
    by (rule lock_inv_frame) simp_all
next
  case (lk_release q us clt lid vs r s)
  show ?case
    by (rule lock_inv_release [OF lk_release.prems lk_release.hyps(1) lock_server_releaseD [OF lk_release.hyps(2)]])
       simp_all
next
  case (lk_release_signal q us clt lid vs r s bs w cs)
  show ?case
    by (rule lock_inv_release [OF lk_release_signal.prems lk_release_signal.hyps(1)
          lock_server_releaseD [OF lk_release_signal.hyps(2)]]) simp_all
qed (erule lock_inv_frame, simp_all)+

lemma lock_inv_new: "lock_inv lock_threads_new"
  by (simp add: lock_inv_def lock_threads_new_def)

lemma lock_reachable_inv: "lock_reachable q \<Longrightarrow> lock_inv q"
  by (induction rule: lock_reachable.induct) (auto intro: lock_step_inv lock_inv_new)

text \<open>
  C36: Mutual exclusion of the lock server: under any interleaving of requests, releases by holders,
  signals and spurious wake-ups, no lock is held twice, and a held lock is marked as taken.
\<close>

theorem lock_server_exclusion:
  assumes "lock_reachable q"
  shows "distinct (map snd (q_holds q))
     \<and> (\<forall>h \<in> set (q_holds q). threadStatusMap (q_srv q) (lid_int (snd h)) = Some 1)"
proof -
  have inv: "lock_inv q"
    using assms by (rule lock_reachable_inv)
  then have "distinct (map lid_int (map snd (q_holds q)))"
    by (simp add: lock_inv_def)
  then show ?thesis
    using inv unfolding lock_inv_def distinct_map [of lid_int] by blast
qed

text \<open>Clients 1 and 2 hold locks 1 and 2, clients 3 and 4 wait for them.\<close>

definition ex_held :: lock_threads where
  "ex_held = \<lparr>q_srv = \<lparr>ls_nacquire = 0, threadStatusMap = [1 \<mapsto> 1, 2 \<mapsto> 1]\<rparr>,
     q_blocked = [(4, 2), (3, 1)], q_woken = [], q_holds = [(2, 2), (1, 1)]\<rparr>"

lemma ex_held_reachable: "lock_reachable ex_held"
proof -
  let ?s1 = "\<lparr>ls_nacquire = 0, threadStatusMap = [1 \<mapsto> 1]\<rparr>"
  let ?s2 = "\<lparr>ls_nacquire = 0, threadStatusMap = [1 \<mapsto> 1, 2 \<mapsto> 1]\<rparr>"
  let ?q1 = "lock_threads_new\<lparr>q_srv := ?s1, q_holds := [(1, 1)]\<rparr>"
  let ?q2 = "?q1\<lparr>q_srv := ?s2, q_holds := [(2, 2), (1, 1)]\<rparr>"
  note ev = lock_threads_new_def lock_server_new_def lock_server_acquire_def acquire_loop_def lid_int_def
  have "lock_step lock_threads_new ?q1"
    using lk_grant [of 1 1 lock_threads_new lp_OK ?s1] by (simp add: ev)
  moreover have "lock_step ?q1 ?q2"
    using lk_grant [of 2 2 ?q1 lp_OK ?s2] by (simp add: ev fun_upd_twist)
  moreover have "lock_step ?q2 (?q2\<lparr>q_blocked := [(3, 1)]\<rparr>)"
    using lk_block [of 3 1 ?q2] by (simp add: ev)
  moreover have "lock_step (?q2\<lparr>q_blocked := [(3, 1)]\<rparr>) ex_held"
    using lk_block [of 4 2 "?q2\<lparr>q_blocked := [(3, 1)]\<rparr>"] by (simp add: ev ex_held_def)
  ultimately show ?thesis
    by (meson lk_init lk_next)
qed

theorem lock_server_exclusion_witness: "lock_reachable ex_held \<and> distinct (map snd (q_holds ex_held))"
  using lock_server_exclusion [OF ex_held_reachable] ex_held_reachable by blast

text \<open>
  All locks share one condition variable and a release signals only one sleeper: a state is
  reachable in which a lock is free, a request for it is asleep, and nobody is awake to wake it.
\<close>

theorem lock_server_lost_wakeup:
  "\<exists>q. lock_reachable q \<and> q_woken q = [] \<and> threadStatusMap (q_srv q) (lid_int 2) = Some 0
     \<and> (4, 2) \<in> set (q_blocked q)"
proof -
  let ?s = "\<lparr>ls_nacquire = 0, threadStatusMap = [1 \<mapsto> 1, 2 \<mapsto> 0]\<rparr>"
  let ?q1 = "ex_held\<lparr>q_srv := ?s, q_holds := [(1, 1)], q_blocked := [(4, 2)], q_woken := [(3, 1)]\<rparr>"
  let ?q2 = "?q1\<lparr>q_woken := [], q_blocked := [(3, 1), (4, 2)]\<rparr>"
  have "lock_step ex_held ?q1"
    using lk_release_signal [of ex_held "[]" 2 2 "[(1, 1)]" lp_OK ?s "[(4, 2)]" "(3, 1)" "[]"]
    by (simp add: ex_held_def lock_server_release_def lid_int_def)
  moreover have "lock_step ?q1 ?q2"
    using lk_resleep [of ?q1 "[]" 3 1 "[]"] by (simp add: ex_held_def acquire_loop_def lid_int_def)
  ultimately have "lock_reachable ?q2"
    using ex_held_reachable by (meson lk_next)
  moreover have "q_woken ?q2 = [] \<and> threadStatusMap (q_srv ?q2) (lid_int 2) = Some 0 \<and> (4, 2) \<in> set (q_blocked ?q2)"
    by (simp add: lid_int_def)
  ultimately show ?thesis
    by blast
qed

lemma ucast_mod_eq:
  fixes a b :: u64
  assumes "a mod 2 ^ 32 = b mod 2 ^ 32"
  shows "(ucast a :: u32) = ucast b"
proof -
  have "take_bit 32 a = take_bit 32 b"
    using assms by (simp add: take_bit_eq_mod)
  then have "bit a n = bit b n" if "n < 32" for n
    using that by (metis bit_take_bit_iff)
  then show ?thesis
    by (intro bit_word_eqI) (auto simp: bit_ucast_iff)
qed

text \<open>
  Lock identifiers that agree in their low 32 bits are one lock to the server: while one is
  held, a request for the other waits.
\<close>

theorem lock_ids_conflated:
  assumes "lock_server_acquire clt lid s = Some (r, s')" "lid mod 2 ^ 32 = lid' mod 2 ^ 32"
  shows "lock_server_acquire clt' lid' s' = None"
proof -
  have "lid_int lid = lid_int lid'"
    unfolding lid_int_def using assms(2) by (rule ucast_mod_eq)
  then show ?thesis
    using lock_server_acquire_SomeD [OF assms(1)]
    by (auto simp: lock_server_acquire_def acquire_loop_def)
qed

theorem lock_ids_conflated_witness:
  "lock_server_acquire 8 0x100000005 \<lparr>ls_nacquire = 0, threadStatusMap = [5 \<mapsto> 1]\<rparr> = None"
proof -
  have "lock_server_acquire 7 5 lock_server_new = Some (lp_OK, \<lparr>ls_nacquire = 0, threadStatusMap = [5 \<mapsto> 1]\<rparr>)"
    by (simp add: lock_server_acquire_def lock_server_new_def lid_int_def)
  then show ?thesis
    by (rule lock_ids_conflated) code_simp
qed

end
