(* ===== verification/Lock_Server_Cache.thy ===== *)
theory Lock_Server_Cache
  imports Lock_Server
begin

text \<open>
  The caching lock server (\<^verbatim>\<open>lock_server_cache.cc\<close>): who owns each lock, who waits for it, and the
  queues of revoke and retry messages that its two threads send to the clients. An operation
  returns its result together with the state it leaves, because a thread that blocks for ever
  (\<open>Inl Deadlock\<close>) can leave \<^verbatim>\<open>statusMutex\<close> locked behind it.
\<close>

section \<open>State\<close>

datatype srv_status = OPEN | SLOCKED

record srv_lock =
  sl_status :: srv_status
  waiting_client :: "string list"
  lock_client :: string
  revoke_map :: "string \<rightharpoonup> bool"

record lock_server_cache =
  sc_nacquire :: "i32 option"
  sc_statusMutex :: bool
  lock_status_map :: "lockid_t \<rightharpoonup> srv_lock"
  sc_retry_list :: "(string \<times> lockid_t) list"
  sc_revoke_list :: "(string \<times> lockid_t) list"
  client_map :: "string set"

text \<open>The constructor leaves \<^verbatim>\<open>nacquire\<close> unset.\<close>

definition lock_server_cache_new :: lock_server_cache where
  "lock_server_cache_new =
     \<lparr>sc_nacquire = None, sc_statusMutex = False, lock_status_map = Map.empty, sc_retry_list = [],
      sc_revoke_list = [], client_map = {}\<rparr>"

section \<open>Operations\<close>

definition set_lock :: "lockid_t \<Rightarrow> srv_lock \<Rightarrow> lock_server_cache \<Rightarrow> lock_server_cache" where
  "set_lock lid l s = s\<lparr>lock_status_map := (lock_status_map s)(lid \<mapsto> l)\<rparr>"

definition push_revoke :: "string \<Rightarrow> lockid_t \<Rightarrow> lock_server_cache \<Rightarrow> lock_server_cache" where
  "push_revoke cid lid s = s\<lparr>sc_revoke_list := sc_revoke_list s @ [(cid, lid)]\<rparr>"

definition lsc_acquire :: "lockid_t \<Rightarrow> string \<Rightarrow> lock_server_cache \<Rightarrow> status res \<times> lock_server_cache" where
  "lsc_acquire lid cid s =
     (if sc_statusMutex s then (Inl Deadlock, s)
      else case lock_status_map s lid of
        Some l \<Rightarrow>
          if sl_status l = OPEN then
            let l = l\<lparr>sl_status := SLOCKED, lock_client := cid\<rparr> in
            if waiting_client l \<noteq> []
            then (Inr lp_OK, push_revoke cid lid (set_lock lid (l\<lparr>revoke_map := (revoke_map l)(cid \<mapsto> True)\<rparr>) s))
            else (Inr lp_OK, set_lock lid (l\<lparr>revoke_map := (revoke_map l)(cid \<mapsto> False)\<rparr>) s)
          else
            let own = lock_client l;
                (l, s) = (if revoke_map l own \<noteq> Some True
                          then (l\<lparr>revoke_map := (revoke_map l)(own \<mapsto> True)\<rparr>, push_revoke own lid s)
                          else (l, s)) in
            (Inr lp_RETRY, set_lock lid (l\<lparr>waiting_client := waiting_client l @ [cid]\<rparr>) s)
      | None \<Rightarrow>
          (Inr lp_OK, set_lock lid \<lparr>sl_status = SLOCKED, waiting_client = [], lock_client = cid,
              revoke_map = [cid \<mapsto> False]\<rparr> s))"

text \<open>
  \<^verbatim>\<open>release\<close> looks at the map and chooses its branch before it takes the mutex; the branch for a
  lock nobody waits for never gives the mutex back; when the lock is not taken the return value
  is never set.
\<close>

datatype release_path = Skip | NoWaiters | Waiters

definition release_test :: "lockid_t \<Rightarrow> lock_server_cache \<Rightarrow> release_path" where
  "release_test lid s =
     (case lock_status_map s lid of
        None \<Rightarrow> Skip
      | Some l \<Rightarrow> if sl_status l = SLOCKED then if waiting_client l = [] then NoWaiters else Waiters else Skip)"

definition release_body ::
  "release_path \<Rightarrow> lockid_t \<Rightarrow> string \<Rightarrow> lock_server_cache \<Rightarrow> status res \<times> lock_server_cache" where
  "release_body path lid cid s =
     (case path of
        Skip \<Rightarrow> (Inl UninitRead, s)
      | NoWaiters \<Rightarrow>
          if sc_statusMutex s then (Inl Deadlock, s)
          else (case lock_status_map s lid of None \<Rightarrow> (Inl NullDeref, s\<lparr>sc_statusMutex := True\<rparr>)
            | Some l \<Rightarrow>
                (Inr lp_OK,
                 (set_lock lid (l\<lparr>sl_status := OPEN, lock_client := [], revoke_map := (revoke_map l)(cid \<mapsto> False)\<rparr>) s)
                   \<lparr>sc_statusMutex := True\<rparr>))
      | Waiters \<Rightarrow>
          if sc_statusMutex s then (Inl Deadlock, s)
          else (case lock_status_map s lid of None \<Rightarrow> (Inl NullDeref, s\<lparr>sc_statusMutex := True\<rparr>)
            | Some l \<Rightarrow>
                (case waiting_client l of [] \<Rightarrow> (Inl OutOfBounds, s\<lparr>sc_statusMutex := True\<rparr>)
                 | waiting_clnt # rest \<Rightarrow>
                     (Inr lp_OK,
                      (set_lock lid (l\<lparr>sl_status := OPEN, lock_client := [],
                          revoke_map := (revoke_map l)(cid \<mapsto> False), waiting_client := rest\<rparr>) s)
                        \<lparr>sc_retry_list := sc_retry_list s @ [(waiting_clnt, lid)]\<rparr>))))"

definition lsc_release :: "lockid_t \<Rightarrow> string \<Rightarrow> lock_server_cache \<Rightarrow> status res \<times> lock_server_cache" where
  "lsc_release lid cid s = release_body (release_test lid s) lid cid s"

definition lsc_stat :: "lockid_t \<Rightarrow> lock_server_cache \<Rightarrow> i32 res" where
  "lsc_stat lid s = (case sc_nacquire s of None \<Rightarrow> Inl UninitRead | Some r \<Rightarrow> Inr r)"

definition lsc_attach :: "string \<Rightarrow> lock_server_cache \<Rightarrow> status res \<times> lock_server_cache" where
  "lsc_attach cid s =
     (if sc_statusMutex s then (Inl Deadlock, s)
      else (Inr lp_OK, s\<lparr>client_map := insert cid (client_map s)\<rparr>))"

text \<open>\<^verbatim>\<open>unattach\<close> locks the mutex a second time where it means to unlock it.\<close>

definition lsc_unattach :: "string \<Rightarrow> lock_server_cache \<Rightarrow> status res \<times> lock_server_cache" where
  "lsc_unattach cid s =
     (if sc_statusMutex s then (Inl Deadlock, s)
      else (Inl Deadlock, s\<lparr>client_map := client_map s - {cid}, sc_statusMutex := True\<rparr>))"

text \<open>
  One round of the threads \<^verbatim>\<open>retryer\<close> and \<^verbatim>\<open>revoker\<close>: the message at the front of the queue and
  the state once it was delivered; \<open>None\<close> while the queue is empty.
\<close>

definition retryer :: "lock_server_cache \<Rightarrow> ((string \<times> lockid_t) \<times> lock_server_cache) option" where
  "retryer s = (case sc_retry_list s of [] \<Rightarrow> None | m # ms \<Rightarrow> Some (m, s\<lparr>sc_retry_list := ms\<rparr>))"

definition revoker :: "lock_server_cache \<Rightarrow> ((string \<times> lockid_t) \<times> lock_server_cache) option" where
  "revoker s = (case sc_revoke_list s of [] \<Rightarrow> None | m # ms \<Rightarrow> Some (m, s\<lparr>sc_revoke_list := ms\<rparr>))"

section \<open>Ownership\<close>

definition owner :: "lock_server_cache \<Rightarrow> lockid_t \<Rightarrow> string option" where
  "owner s lid =
     (case lock_status_map s lid of
        Some l \<Rightarrow> if sl_status l = SLOCKED then Some (lock_client l) else None
      | None \<Rightarrow> None)"

lemma owner_frame [simp]:
  "owner (push_revoke i lid s) = owner s"
  "owner (s\<lparr>sc_statusMutex := b\<rparr>) = owner s"
  "owner (s\<lparr>sc_retry_list := rl\<rparr>) = owner s"
  "owner (s\<lparr>sc_revoke_list := vl\<rparr>) = owner s"
  by (auto simp: owner_def push_revoke_def)

lemma owner_set_lock [simp]:
  "owner (set_lock lid l s) = (owner s)(lid := (if sl_status l = SLOCKED then Some (lock_client l) else None))"
  by (auto simp: owner_def set_lock_def)

lemma not_OPEN [simp]: "x \<noteq> OPEN \<longleftrightarrow> x = SLOCKED"
  by (cases x) simp_all

lemma codes_distinct [simp]: "lp_OK \<noteq> lp_RETRY" "lp_RETRY \<noteq> lp_OK"
  by (simp_all add: lp_OK_def lp_RETRY_def)

text \<open>
  Unless the server's mutex is lost, an acquire grants a lock exactly when nobody owns it, then
  makes the client its owner, and otherwise leaves the owner alone and queues the client as a
  waiter; other locks keep their owners.
\<close>

theorem lsc_acquire_owner:
  assumes "\<not> sc_statusMutex s"
  shows "\<exists>s'. (lsc_acquire lid cid s = (Inr lp_OK, s') \<and> owner s lid = None \<and> owner s' = (owner s)(lid \<mapsto> cid)
         \<or> lsc_acquire lid cid s = (Inr lp_RETRY, s') \<and> owner s lid \<noteq> None \<and> owner s' = owner s
           \<and> (\<exists>l. lock_status_map s' lid = Some l \<and> cid \<in> set (waiting_client l)))
       \<and> \<not> sc_statusMutex s'"
  using assms
  by (auto simp: lsc_acquire_def Let_def owner_def set_lock_def push_revoke_def
      split: option.splits srv_status.splits)

theorem lsc_acquire_owner_witness:
  "\<exists>s'. lsc_acquire 5 ''a'' lock_server_cache_new = (Inr lp_OK, s') \<and> owner s' = [5 \<mapsto> ''a'']"
proof -
  have "\<not> sc_statusMutex lock_server_cache_new" "owner lock_server_cache_new = Map.empty"
    by (auto simp: lock_server_cache_new_def owner_def)
  then show ?thesis
    using lsc_acquire_owner [of lock_server_cache_new 5 "''a''"] by auto
qed

text \<open>
  A release of a taken lock that nobody waits for leaves the server's mutex locked: it returns OK,
  and from then on every acquire, release, attach and unattach blocks.
\<close>

theorem lsc_release_loses_mutex:
  assumes "lock_status_map s lid = Some l" "sl_status l = SLOCKED" "waiting_client l = []"
    and "\<not> sc_statusMutex s" "lsc_release lid cid s = (r, s')"
  shows "r = Inr lp_OK \<and> sc_statusMutex s'
    \<and> fst (lsc_acquire lid' cid' s') = Inl Deadlock \<and> fst (lsc_attach cid' s') = Inl Deadlock
    \<and> fst (lsc_unattach cid' s') = Inl Deadlock"
  using assms
  by (auto simp: lsc_release_def release_test_def release_body_def lsc_acquire_def lsc_attach_def lsc_unattach_def)

theorem lsc_release_loses_mutex_witness:
  "\<exists>s'. lsc_release 5 ''a'' (snd (lsc_acquire 5 ''a'' lock_server_cache_new)) = (Inr lp_OK, s')
     \<and> fst (lsc_acquire 6 ''b'' s') = Inl Deadlock"
proof -
  let ?s = "snd (lsc_acquire 5 ''a'' lock_server_cache_new)"
  let ?l = "\<lparr>sl_status = SLOCKED, waiting_client = [], lock_client = ''a'', revoke_map = [''a'' \<mapsto> False]\<rparr>"
  have "lock_status_map ?s 5 = Some ?l" "\<not> sc_statusMutex ?s"
    by (simp_all add: lsc_acquire_def lock_server_cache_new_def set_lock_def)
  moreover obtain r s' where "lsc_release 5 ''a'' ?s = (r, s')"
    by (cases "lsc_release 5 ''a'' ?s")
  ultimately show ?thesis
    using lsc_release_loses_mutex [of ?s 5 ?l "''a''" r s' 6 "''b''"] by auto
qed

text \<open>
  \<^verbatim>\<open>unattach\<close> never returns, and it leaves the mutex locked.
\<close>

theorem lsc_unattach_blocks:
  "fst (lsc_unattach cid s) = Inl Deadlock \<and> sc_statusMutex (snd (lsc_unattach cid s))"
  by (simp add: lsc_unattach_def)

end
