(* ===== verification/Lock_Client_Cache.thy ===== *)
theory Lock_Client_Cache
  imports Lock_Server_Cache
begin

text \<open>
  The caching lock client (\<^verbatim>\<open>lock_client_cache.cc\<close>). Every operation runs with the mutex \<^verbatim>\<open>lockMap\<close>
  held from one wait to the next, also across its calls to the server, so an operation is a
  function of the client's state and of the state \<open>'w\<close> behind the server calls. A call is a
  function \<open>lid cid w\<close> to the status the RPC returns, which is negative when the RPC fails.
\<close>

section \<open>State\<close>

datatype lock_st = NONE | FREE | LOCKED | ACQUIRING | RELEASING

record lock_client_cache =
  lc_id :: string
  lock_map :: "lockid_t \<rightharpoonup> lock_st"
  retry_map :: "lockid_t \<rightharpoonup> bool"
  lc_revoke_list :: "lockid_t list"
  revokerThreadStatus :: bool
  lc_lu :: bool

text \<open>\<open>lc_lu\<close> tells whether the client was given a \<^verbatim>\<open>lock_release_user\<close>; the default is none.\<close>

definition lock_client_cache_new :: "string \<Rightarrow> bool \<Rightarrow> lock_client_cache" where
  "lock_client_cache_new cid lu =
     \<lparr>lc_id = cid, lock_map = Map.empty, retry_map = Map.empty, lc_revoke_list = [],
      revokerThreadStatus = False, lc_lu = lu\<rparr>"

type_synonym 'w lock_call = "lockid_t \<Rightarrow> string \<Rightarrow> 'w \<Rightarrow> status \<times> 'w"

definition set_st :: "lockid_t \<Rightarrow> lock_st \<Rightarrow> lock_client_cache \<Rightarrow> lock_client_cache" where
  "set_st lid st c = c\<lparr>lock_map := (lock_map c)(lid \<mapsto> st)\<rparr>"

definition set_retry :: "lockid_t \<Rightarrow> bool \<Rightarrow> lock_client_cache \<Rightarrow> lock_client_cache" where
  "set_retry lid b c = c\<lparr>retry_map := (retry_map c)(lid \<mapsto> b)\<rparr>"

section \<open>Acquiring\<close>

text \<open>
  The thread returns a status, or waits for a retry message, or for a change of the lock, or
  enters the loop that waits for retries.
\<close>

datatype acq_result = Got status | WaitRetry | WaitLock | EnterLoop

definition acquire_prepare :: "lockid_t \<Rightarrow> lock_client_cache \<Rightarrow> lock_client_cache" where
  "acquire_prepare lid c =
     (if lock_map c lid = None then set_retry lid False (set_st lid NONE c) else c)"

text \<open>
  The loop that runs while the server says RETRY, from its head to its next wait or its end. A
  status that is neither OK nor RETRY ends it, and the caller gets OK.
\<close>

definition acquire_retry ::
  "'w lock_call \<Rightarrow> lockid_t \<Rightarrow> lock_client_cache \<Rightarrow> 'w \<Rightarrow> acq_result \<times> lock_client_cache \<times> 'w" where
  "acquire_retry call lid c w =
     (let c = set_st lid ACQUIRING c in
      if retry_map c lid \<noteq> Some True then (WaitRetry, c, w)
      else
        let (st, w) = call lid (lc_id c) w in
        if st = lp_OK then (Got lp_OK, set_retry lid False (set_st lid LOCKED c), w)
        else if st = lp_RETRY then (WaitRetry, set_retry lid False c, w)
        else (Got lp_OK, set_retry lid False c, w))"

definition acquire_switch ::
  "'w lock_call \<Rightarrow> lockid_t \<Rightarrow> lock_client_cache \<Rightarrow> 'w \<Rightarrow> (acq_result \<times> lock_client_cache \<times> 'w) res" where
  "acquire_switch call lid c w =
     (case lock_map c lid of
        None \<Rightarrow> Inl NullDeref
      | Some NONE \<Rightarrow>
          Inr (let (st, w) = call lid (lc_id c) w in
               if st = lp_OK then (Got lp_OK, set_st lid LOCKED c, w)
               else if st = lp_RETRY then (EnterLoop, set_st lid ACQUIRING c, w)
               else (Got lp_OK, c, w))
      | Some FREE \<Rightarrow> Inr (Got lp_OK, set_st lid LOCKED c, w)
      | Some _ \<Rightarrow> Inr (WaitLock, c, w))"

definition lcc_acquire ::
  "'w lock_call \<Rightarrow> lockid_t \<Rightarrow> lock_client_cache \<Rightarrow> 'w \<Rightarrow> (acq_result \<times> lock_client_cache \<times> 'w) res" where
  "lcc_acquire call lid c w =
     bindR (acquire_switch call lid (acquire_prepare lid c) w) (\<lambda>(r, c, w).
       Inr (if r = EnterLoop then acquire_retry call lid c w else (r, c, w)))"

section \<open>Releasing\<close>

definition lcc_release :: "lockid_t \<Rightarrow> lock_client_cache \<Rightarrow> (status \<times> lock_client_cache) res" where
  "lcc_release lid c =
     (if lock_map c lid = None then Inl NullDeref
      else if lid \<in> set (lc_revoke_list c)
      then Inr (lp_OK, (set_st lid RELEASING c)\<lparr>revokerThreadStatus := True\<rparr>)
      else Inr (lp_OK, set_st lid FREE c))"

definition revoke_handler :: "lockid_t \<Rightarrow> lock_client_cache \<Rightarrow> (status \<times> lock_client_cache) res" where
  "revoke_handler lid c =
     (case lock_map c lid of
        None \<Rightarrow> Inl NullDeref
      | Some st \<Rightarrow>
          let c = c\<lparr>lc_revoke_list := lc_revoke_list c @ [lid]\<rparr> in
          Inr (rlp_OK, if st = FREE then (set_st lid RELEASING c)\<lparr>revokerThreadStatus := True\<rparr> else c))"

definition retry_handler :: "lockid_t \<Rightarrow> lock_client_cache \<Rightarrow> status \<times> lock_client_cache" where
  "retry_handler lid c = (rlp_OK, set_retry lid True c)"

text \<open>
  The thread \<^verbatim>\<open>releaser\<close>, from its wake-up to its next wait: it looks for the first lock of the
  revoke list that is being released, calls the server for it and stops there.
\<close>

fun releaser_scan ::
  "(lockid_t \<rightharpoonup> lock_st) \<Rightarrow> lockid_t list \<Rightarrow> (lockid_t list \<times> lockid_t \<times> lockid_t list) option res" where
  "releaser_scan m [] = Inr None"
| "releaser_scan m (lid # ls) =
     (case m lid of
        None \<Rightarrow> Inl NullDeref
      | Some st \<Rightarrow>
          if st = RELEASING then Inr (Some ([], lid, ls))
          else bindR (releaser_scan m ls) (\<lambda>r. Inr (map_option (\<lambda>(p, x, q). (lid # p, x, q)) r)))"

definition releaser_begin :: "lock_client_cache \<Rightarrow> (lockid_t option \<times> lock_client_cache) res" where
  "releaser_begin c =
     bindR (releaser_scan (lock_map c) (lc_revoke_list c)) (\<lambda>r.
       case r of
         None \<Rightarrow> Inr (None, c\<lparr>revokerThreadStatus := False\<rparr>)
       | Some (p, lid, q) \<Rightarrow>
           Inr (Some lid, (set_st lid NONE c)\<lparr>lc_revoke_list := p @ q, revokerThreadStatus := False\<rparr>))"

definition releaser ::
  "(lockid_t \<Rightarrow> 'w \<Rightarrow> 'w) \<Rightarrow> 'w lock_call \<Rightarrow> lock_client_cache \<Rightarrow> 'w \<Rightarrow> (lock_client_cache \<times> 'w) res" where
  "releaser dorelease call_release c w =
     bindR (releaser_begin c) (\<lambda>(x, c).
       case x of None \<Rightarrow> Inr (c, w)
       | Some lid \<Rightarrow>
           if \<not> lc_lu c then Inl NullDeref
           else Inr (c, snd (call_release lid (lc_id c) (dorelease lid w))))"

section \<open>Destructor\<close>

text \<open>\<open>lids\<close> are the keys of \<^verbatim>\<open>lock_map\<close> in order.\<close>

fun destroy_locks :: "'w lock_call \<Rightarrow> lockid_t list \<Rightarrow> lock_client_cache \<Rightarrow> 'w \<Rightarrow> lock_client_cache \<times> 'w" where
  "destroy_locks call_release [] c w = (c, w)"
| "destroy_locks call_release (lid # lids) c w =
     destroy_locks call_release lids (set_st lid NONE c)
       (if lock_map c lid \<noteq> Some NONE then snd (call_release lid (lc_id c) w) else w)"

definition lcc_destroy ::
  "'w lock_call \<Rightarrow> (string \<Rightarrow> 'w \<Rightarrow> status \<times> 'w) \<Rightarrow> lockid_t list \<Rightarrow> lock_client_cache \<Rightarrow> 'w
     \<Rightarrow> (lock_client_cache \<times> 'w) res" where
  "lcc_destroy call_release call_unattach lids c w =
     (let (c, w) = destroy_locks call_release lids c w;
          (st, w) = call_unattach (lc_id c) w in
      if st = lp_OK then Inr (c, w) else Inl VerifyFailed)"

section \<open>Calls to the caching server\<close>

text \<open>A call to an operation that never returns times out.\<close>

definition served :: "status res \<times> 'w \<Rightarrow> status \<times> 'w" where
  "served r = (case fst r of Inr st \<Rightarrow> st | Inl _ \<Rightarrow> timeout_failure, snd r)"

definition call_acquire :: "lock_server_cache lock_call" where
  "call_acquire lid cid s = served (lsc_acquire lid cid s)"

definition call_release :: "lock_server_cache lock_call" where
  "call_release lid cid s = served (lsc_release lid cid s)"

definition call_unattach :: "string \<Rightarrow> lock_server_cache \<Rightarrow> status \<times> lock_server_cache" where
  "call_unattach cid s = served (lsc_unattach cid s)"

section \<open>Local properties\<close>

lemma set_st_simps [simp]:
  "lc_id (set_st lid st c) = lc_id c" "lock_map (set_st lid st c) = (lock_map c)(lid \<mapsto> st)"
  "retry_map (set_st lid st c) = retry_map c" "lc_revoke_list (set_st lid st c) = lc_revoke_list c"
  "lc_lu (set_st lid st c) = lc_lu c"
  by (simp_all add: set_st_def)

lemma set_retry_simps [simp]:
  "lc_id (set_retry lid b c) = lc_id c" "lock_map (set_retry lid b c) = lock_map c"
  "retry_map (set_retry lid b c) = (retry_map c)(lid \<mapsto> b)" "lc_revoke_list (set_retry lid b c) = lc_revoke_list c"
  "lc_lu (set_retry lid b c) = lc_lu c"
  by (simp_all add: set_retry_def)

lemma releaser_scan_split:
  "releaser_scan m ls = Inr (Some (p, lid, q)) \<Longrightarrow>
   ls = p @ lid # q \<and> m lid = Some RELEASING \<and> (\<forall>x \<in> set p. m x \<noteq> Some RELEASING)"
  by (induction ls arbitrary: p) (auto simp: returns split: option.splits if_splits)

lemma releaser_scan_total:
  "\<forall>x \<in> set ls. m x \<noteq> None \<Longrightarrow> \<exists>r. releaser_scan m ls = Inr r \<and>
     (r = None \<longleftrightarrow> (\<forall>x \<in> set ls. m x \<noteq> Some RELEASING))"
proof (induction ls)
  case (Cons a ls)
  then obtain r where "releaser_scan m ls = Inr r" "r = None \<longleftrightarrow> (\<forall>x \<in> set ls. m x \<noteq> Some RELEASING)"
    by auto
  moreover obtain st where "m a = Some st"
    using Cons.prems by auto
  ultimately show ?case
    by (cases "st = RELEASING"; cases r) simp_all
qed simp

text \<open>
  When the RPC to the server fails, \<^verbatim>\<open>acquire\<close> of a lock the client does not have returns OK, and
  the lock stays in state NONE: the caller enters its critical section without the lock.
\<close>

theorem lcc_acquire_rpc_failure:
  assumes "lock_map c lid = None \<or> lock_map c lid = Some NONE"
    and "call lid (lc_id c) w = (st, w')" "st <s 0"
  shows "\<exists>c'. lcc_acquire call lid c w = Inr (Got lp_OK, c', w') \<and> lock_map c' lid = Some NONE"
proof -
  have "st \<noteq> lp_OK" "st \<noteq> lp_RETRY"
    using assms(3) by (auto simp: lp_OK_def lp_RETRY_def word_sless_alt)
  then show ?thesis
    using assms(1,2) by (auto simp: lcc_acquire_def acquire_prepare_def acquire_switch_def)
qed

theorem lcc_acquire_rpc_failure_witness:
  "\<exists>c'. lcc_acquire call_acquire 5 (lock_client_cache_new ''a'' True) (lock_server_cache_new\<lparr>sc_statusMutex := True\<rparr>)
      = Inr (Got lp_OK, c', lock_server_cache_new\<lparr>sc_statusMutex := True\<rparr>) \<and> lock_map c' 5 = Some NONE"
proof (rule lcc_acquire_rpc_failure)
  show "call_acquire 5 (lc_id (lock_client_cache_new ''a'' True)) (lock_server_cache_new\<lparr>sc_statusMutex := True\<rparr>)
      = (timeout_failure, lock_server_cache_new\<lparr>sc_statusMutex := True\<rparr>)"
    by (simp add: call_acquire_def served_def lsc_acquire_def)
  show "timeout_failure <s 0"
    by (simp add: timeout_failure_def)
qed (simp add: lock_client_cache_new_def)

text \<open>
  A round of the releaser thread gives back at most one lock: when two revoked locks are waiting
  to be released, the second stays in RELEASING and the thread goes back to sleep.
\<close>

theorem releaser_one_lock:
  assumes "lc_revoke_list c = p @ lid # q" "lock_map c lid = Some RELEASING"
    and "\<forall>x \<in> set (p @ q). lock_map c x \<noteq> None" "\<forall>x \<in> set p. lock_map c x \<noteq> Some RELEASING"
    and "lid' \<in> set q" "lid' \<noteq> lid" "lock_map c lid' = Some RELEASING"
  shows "\<exists>c'. releaser_begin c = Inr (Some lid, c') \<and> lock_map c' lid = Some NONE
      \<and> lock_map c' lid' = Some RELEASING \<and> \<not> revokerThreadStatus c'"
proof -
  have "releaser_scan (lock_map c) (p' @ lid # q) = Inr (Some (p', lid, q))"
    if "set p' \<subseteq> set p" for p'
    using that assms(2-4) by (induction p') (force split: option.splits)+
  from this [of p] show ?thesis
    using assms by (auto simp: releaser_begin_def)
qed

theorem releaser_one_lock_witness:
  "\<exists>c'. releaser_begin \<lparr>lc_id = ''a'', lock_map = [1 \<mapsto> RELEASING, 2 \<mapsto> RELEASING], retry_map = Map.empty,
       lc_revoke_list = [1, 2], revokerThreadStatus = True, lc_lu = True\<rparr> = Inr (Some 1, c')
     \<and> lock_map c' 2 = Some RELEASING \<and> \<not> revokerThreadStatus c'"
  using releaser_one_lock [of "\<lparr>lc_id = ''a'', lock_map = [1 \<mapsto> RELEASING, 2 \<mapsto> RELEASING],
       retry_map = Map.empty, lc_revoke_list = [1, 2], revokerThreadStatus = True, lc_lu = True\<rparr>" "[]" 1 "[2]" 2]
  by auto

text \<open>
  A client made without a \<^verbatim>\<open>lock_release_user\<close>, the constructor's default, dereferences a null
  pointer as soon as its releaser thread has a lock to give back.
\<close>

theorem releaser_without_user:
  assumes "\<not> lc_lu c" "\<forall>x \<in> set (lc_revoke_list c). lock_map c x \<noteq> None"
    and "lid \<in> set (lc_revoke_list c)" "lock_map c lid = Some RELEASING"
  shows "releaser dorelease call c w = Inl NullDeref"
proof -
  obtain p x q where "releaser_scan (lock_map c) (lc_revoke_list c) = Inr (Some (p, x, q))"
    using releaser_scan_total [OF assms(2)] assms(3,4) by fastforce
  then show ?thesis
    using assms(1) by (simp add: releaser_def releaser_begin_def)
qed

theorem releaser_without_user_witness:
  "releaser (\<lambda>_ w. w) call_release \<lparr>lc_id = ''a'', lock_map = [1 \<mapsto> RELEASING], retry_map = Map.empty,
     lc_revoke_list = [1], revokerThreadStatus = True, lc_lu = False\<rparr> lock_server_cache_new = Inl NullDeref"
  by (rule releaser_without_user [where lid = 1]) simp_all

text \<open>
  The destructor never ends well: \<^verbatim>\<open>unattach\<close> does not return, the call times out and the
  assertion on its status fails.
\<close>

theorem lcc_destroy_asserts:
  "lcc_destroy call_release call_unattach lids c s = Inl VerifyFailed"
  by (cases "destroy_locks call_release lids c s")
     (simp add: lcc_destroy_def call_unattach_def served_def lsc_unattach_def timeout_failure_def lp_OK_def)

end
