(* ===== verification/Lock_System.thy ===== *)
theory Lock_System
  imports Lock_Client_Cache
begin

text \<open>
  The caching lock server together with any number of clients and their threads. A step is what
  one thread does between two points where another can run: a client keeps its mutex across an
  acquire call, which the server handles in one critical section, while a release call
  first looks at the server's map and takes the server's mutex later, so it is two steps.
  RPCs are delivered once, and clients are not destroyed.
\<close>

section \<open>The system\<close>

text \<open>
  \<open>k_busy i\<close> is the release call client \<open>i\<close> is in the middle of, \<open>k_wait\<close> the threads in the
  retry loop, and \<open>k_holds\<close> the threads to which \<^verbatim>\<open>acquire\<close> returned and that have not released.
\<close>

record lock_sys =
  k_srv :: lock_server_cache
  k_cl :: "string \<Rightarrow> lock_client_cache"
  k_busy :: "string \<Rightarrow> (lockid_t \<times> release_path) option"
  k_wait :: "(string \<times> nat \<times> lockid_t) list"
  k_holds :: "(string \<times> nat \<times> lockid_t) list"

definition lock_sys_new :: lock_sys where
  "lock_sys_new = \<lparr>k_srv = lock_server_cache_new, k_cl = (\<lambda>i. lock_client_cache_new i True),
     k_busy = (\<lambda>_. None), k_wait = [], k_holds = []\<rparr>"

inductive lsys_step :: "lock_sys \<Rightarrow> lock_sys \<Rightarrow> bool" where
  ls_acquire: "k_busy k i = None
    \<Longrightarrow> acquire_switch call_acquire lid (acquire_prepare lid (k_cl k i)) (k_srv k) = Inr (r, c, s)
    \<Longrightarrow> lsys_step k (k\<lparr>k_srv := s, k_cl := (k_cl k)(i := c),
          k_wait := (if r = EnterLoop then (i, t, lid) # k_wait k else k_wait k),
          k_holds := (if r = Got lp_OK then (i, t, lid) # k_holds k else k_holds k)\<rparr>)"
| ls_retry: "k_busy k i = None \<Longrightarrow> k_wait k = us @ (i, t, lid) # vs
    \<Longrightarrow> acquire_retry call_acquire lid (k_cl k i) (k_srv k) = (r, c, s)
    \<Longrightarrow> lsys_step k (k\<lparr>k_srv := s, k_cl := (k_cl k)(i := c),
          k_wait := (if r = Got lp_OK then us @ vs else k_wait k),
          k_holds := (if r = Got lp_OK then (i, t, lid) # k_holds k else k_holds k)\<rparr>)"
| ls_release: "k_busy k i = None \<Longrightarrow> k_holds k = us @ (i, t, lid) # vs
    \<Longrightarrow> lcc_release lid (k_cl k i) = Inr (r, c)
    \<Longrightarrow> lsys_step k (k\<lparr>k_cl := (k_cl k)(i := c), k_holds := us @ vs\<rparr>)"
| ls_releaser_idle: "k_busy k i = None \<Longrightarrow> releaser_begin (k_cl k i) = Inr (None, c)
    \<Longrightarrow> lsys_step k (k\<lparr>k_cl := (k_cl k)(i := c)\<rparr>)"
| ls_releaser: "k_busy k i = None \<Longrightarrow> releaser_begin (k_cl k i) = Inr (Some lid, c)
    \<Longrightarrow> lsys_step k (k\<lparr>k_cl := (k_cl k)(i := c),
          k_busy := (k_busy k)(i \<mapsto> (lid, release_test lid (k_srv k)))\<rparr>)"
| ls_released: "k_busy k i = Some (lid, path)
    \<Longrightarrow> release_body path lid (lc_id (k_cl k i)) (k_srv k) = (r, s)
    \<Longrightarrow> lsys_step k (k\<lparr>k_srv := s, k_busy := (k_busy k)(i := None)\<rparr>)"
| ls_revoke: "k_busy k i = None \<Longrightarrow> revoker (k_srv k) = Some ((i, lid), s)
    \<Longrightarrow> revoke_handler lid (k_cl k i) = Inr (r, c)
    \<Longrightarrow> lsys_step k (k\<lparr>k_srv := s, k_cl := (k_cl k)(i := c)\<rparr>)"
| ls_send_retry: "k_busy k i = None \<Longrightarrow> retryer (k_srv k) = Some ((i, lid), s)
    \<Longrightarrow> retry_handler lid (k_cl k i) = (r, c)
    \<Longrightarrow> lsys_step k (k\<lparr>k_srv := s, k_cl := (k_cl k)(i := c)\<rparr>)"
| ls_attach: "lsc_attach i (k_srv k) = (r, s) \<Longrightarrow> lsys_step k (k\<lparr>k_srv := s\<rparr>)"

inductive lsys_reachable :: "lock_sys \<Rightarrow> bool" where
  lsys_init: "lsys_reachable lock_sys_new"
| lsys_next: "lsys_reachable k \<Longrightarrow> lsys_step k k' \<Longrightarrow> lsys_reachable k'"

section \<open>The server's side\<close>

text \<open>Somebody waits for the lock and its owner has been asked to give it back.\<close>

definition contended :: "lock_server_cache \<Rightarrow> lockid_t \<Rightarrow> string \<Rightarrow> bool" where
  "contended s lid i \<longleftrightarrow>
     (\<exists>l. lock_status_map s lid = Some l \<and> waiting_client l \<noteq> [] \<and> revoke_map l i = Some True)"

abbreviation pending :: "lock_server_cache \<Rightarrow> lockid_t \<Rightarrow> string \<Rightarrow> nat" where
  "pending s lid i \<equiv> count_list (sc_revoke_list s) (i, lid)"

lemma contended_frame [simp]:
  "contended (push_revoke i lid s) = contended s"
  "contended (s\<lparr>sc_retry_list := rl\<rparr>) = contended s"
  "contended (s\<lparr>sc_revoke_list := vl\<rparr>) = contended s"
  "contended (s\<lparr>client_map := m\<rparr>) = contended s"
  "owner (s\<lparr>client_map := m\<rparr>) = owner s"
  by (auto simp: contended_def push_revoke_def owner_def fun_eq_iff)

lemma contended_set_lock [simp]:
  "contended (set_lock lid l s) lid' i =
     (if lid' = lid then waiting_client l \<noteq> [] \<and> revoke_map l i = Some True else contended s lid' i)"
  by (auto simp: contended_def set_lock_def)

lemma set_lock_frame [simp]:
  "sc_statusMutex (set_lock lid l s) = sc_statusMutex s"
  "sc_revoke_list (set_lock lid l s) = sc_revoke_list s"
  "sc_statusMutex (push_revoke i lid s) = sc_statusMutex s"
  "sc_revoke_list (push_revoke i lid s) = sc_revoke_list s @ [(i, lid)]"
  by (simp_all add: set_lock_def push_revoke_def)

lemma lsc_acquire_cases:
  assumes "\<not> sc_statusMutex s"
  obtains
    (grant) s' b where "lsc_acquire lid i s = (Inr lp_OK, s')" "\<not> sc_statusMutex s'"
      "owner s lid = None" "owner s' = (owner s)(lid \<mapsto> i)"
      "sc_revoke_list s' = sc_revoke_list s @ (if b then [(i, lid)] else [])" "b \<longrightarrow> contended s' lid i"
      "\<forall>lid' j. lid' \<noteq> lid \<longrightarrow> contended s' lid' j = contended s lid' j"
  | (retry) s' b j where "lsc_acquire lid i s = (Inr lp_RETRY, s')" "\<not> sc_statusMutex s'"
      "owner s lid = Some j" "owner s' = owner s"
      "sc_revoke_list s' = sc_revoke_list s @ (if b then [(j, lid)] else [])" "b \<longrightarrow> \<not> contended s lid j"
      "contended s' lid j" "\<forall>lid' j'. contended s lid' j' \<longrightarrow> contended s' lid' j'"
proof (cases "lock_status_map s lid")
  case None
  then show thesis
    using assms by (intro grant [where s' = "snd (lsc_acquire lid i s)" and b = False]) (auto simp: lsc_acquire_def owner_def)
next
  case (Some l)
  show thesis
  proof (cases "sl_status l")
    case OPEN
    then show thesis
      using assms Some
      by (intro grant [where s' = "snd (lsc_acquire lid i s)" and b = "waiting_client l \<noteq> []"]) (auto simp: lsc_acquire_def Let_def owner_def)
  next
    case SLOCKED
    let ?j = "lock_client l"
    have old: "contended s lid j' \<longleftrightarrow> waiting_client l \<noteq> [] \<and> revoke_map l j' = Some True" for j'
      using Some by (simp add: contended_def)
    have own: "owner s lid = Some ?j"
      using Some SLOCKED by (simp add: owner_def)
    show thesis
    proof (cases "revoke_map l ?j = Some True")
      case True
      then show thesis
        using assms Some SLOCKED own old
        by (intro retry [where s' = "snd (lsc_acquire lid i s)" and b = False and j = ?j]) (auto simp: lsc_acquire_def Let_def)
    next
      case False
      then show thesis
        using assms Some SLOCKED own old
        by (intro retry [where s' = "snd (lsc_acquire lid i s)" and b = True and j = ?j]) (auto simp: lsc_acquire_def Let_def)
    qed
  qed
qed

section \<open>Invariant\<close>

text \<open>
  What must hold for one client and one lock: the client's state \<open>st\<close> of the lock, the release
  call it is in the middle of, whether the server takes it for the owner, whether the lock is
  contended, and the number of revoke messages on their way (\<open>n\<close>) and arrived (\<open>m\<close>).
\<close>

definition local_ok :: "lock_st option \<Rightarrow> release_path option \<Rightarrow> bool \<Rightarrow> bool \<Rightarrow> nat \<Rightarrow> nat \<Rightarrow> bool" where
  "local_ok st b own cont n m \<longleftrightarrow>
     (own \<longleftrightarrow> st \<in> {Some FREE, Some LOCKED, Some RELEASING} \<or> b \<noteq> None)
     \<and> (b \<noteq> None \<longrightarrow> b = Some Waiters \<and> st = Some NONE \<and> n + m = 0 \<and> cont)
     \<and> n + m \<le> 1 \<and> (n + m = 1 \<longrightarrow> own \<and> cont) \<and> (st = Some RELEASING \<longrightarrow> m = 1)"

definition busy_on :: "(lockid_t \<times> release_path) option \<Rightarrow> lockid_t \<Rightarrow> release_path option" where
  "busy_on b lid = (case b of Some (l, p) \<Rightarrow> if l = lid then Some p else None | None \<Rightarrow> None)"

definition pair_ok :: "lock_sys \<Rightarrow> string \<Rightarrow> lockid_t \<Rightarrow> bool" where
  "pair_ok k i lid \<longleftrightarrow>
     local_ok (lock_map (k_cl k i) lid) (busy_on (k_busy k i) lid) (owner (k_srv k) lid = Some i)
       (contended (k_srv k) lid i) (pending (k_srv k) lid i) (count_list (lc_revoke_list (k_cl k i)) lid)"

definition slot :: "string \<times> nat \<times> lockid_t \<Rightarrow> string \<times> lockid_t" where
  "slot x = (fst x, snd (snd x))"

text \<open>The threads in a list are the only ones for their client and lock, whose state is \<open>st\<close>.\<close>

definition threads_ok :: "lock_st \<Rightarrow> (string \<Rightarrow> lock_client_cache) \<Rightarrow> (string \<times> nat \<times> lockid_t) list \<Rightarrow> bool" where
  "threads_ok st cl ts \<longleftrightarrow>
     distinct (map slot ts) \<and> (\<forall>x \<in> set ts. lock_map (cl (fst (slot x))) (snd (slot x)) = Some st)"

definition lsys_inv :: "lock_sys \<Rightarrow> bool" where
  "lsys_inv k \<longleftrightarrow>
     \<not> sc_statusMutex (k_srv k) \<and> (\<forall>i. lc_id (k_cl k i) = i) \<and> (\<forall>i lid. pair_ok k i lid)
     \<and> threads_ok ACQUIRING (k_cl k) (k_wait k) \<and> threads_ok LOCKED (k_cl k) (k_holds k)"

lemma lsys_invD:
  assumes "lsys_inv k"
  shows "\<not> sc_statusMutex (k_srv k)" "lc_id (k_cl k i) = i" "pair_ok k i lid"
    "threads_ok ACQUIRING (k_cl k) (k_wait k)" "threads_ok LOCKED (k_cl k) (k_holds k)"
  using assms by (auto simp: lsys_inv_def)

lemma busy_on_None [simp]: "busy_on None lid = None"
  by (simp add: busy_on_def)

lemma busy_on_Some [simp]: "busy_on (Some (l, p)) lid = (if l = lid then Some p else None)"
  by (simp add: busy_on_def)

text \<open>Changing the lock state of one client and one lock, for which no thread of the list stands.\<close>

lemma threads_ok_frame:
  assumes "threads_ok st cl ts" "\<And>j l. (j, l) \<noteq> (i, lid) \<Longrightarrow> lock_map (cl' j) l = lock_map (cl j) l"
    and "lock_map (cl i) lid \<noteq> Some st \<or> lock_map (cl' i) lid = lock_map (cl i) lid"
  shows "threads_ok st cl' ts"
  unfolding threads_ok_def
proof (intro conjI ballI)
  fix x
  assume "x \<in> set ts"
  then have "lock_map (cl (fst (slot x))) (snd (slot x)) = Some st"
    using assms(1) by (simp add: threads_ok_def)
  then show "lock_map (cl' (fst (slot x))) (snd (slot x)) = Some st"
    using assms(2) [of "fst (slot x)" "snd (slot x)"] assms(3) by (cases "slot x = (i, lid)") auto
qed (use assms(1) in \<open>simp add: threads_ok_def\<close>)

lemma threads_ok_slot:
  assumes "threads_ok st cl ts" "(i, lid) \<in> slot ` set ts"
  shows "lock_map (cl i) lid = Some st"
proof -
  obtain x where "x \<in> set ts" "slot x = (i, lid)"
    using assms(2) by (metis imageE)
  then show ?thesis
    using assms(1) unfolding threads_ok_def by (metis fst_conv snd_conv)
qed

lemma threads_ok_Cons:
  assumes "threads_ok st cl ts" "lock_map (cl i) lid \<noteq> Some st"
    and "\<And>j l. (j, l) \<noteq> (i, lid) \<Longrightarrow> lock_map (cl' j) l = lock_map (cl j) l" "lock_map (cl' i) lid = Some st"
  shows "threads_ok st cl' ((i, t, lid) # ts)"
proof -
  have "(i, lid) \<notin> slot ` set ts"
    using threads_ok_slot [OF assms(1)] assms(2) by blast
  moreover have "threads_ok st cl' ts"
    using assms by (intro threads_ok_frame [OF assms(1), of i lid]) auto
  ultimately show ?thesis
    using assms(4) by (auto simp: threads_ok_def slot_def)
qed

lemma threads_ok_remove:
  assumes "threads_ok st cl (us @ (i, t, lid) # vs)"
    and "\<And>j l. (j, l) \<noteq> (i, lid) \<Longrightarrow> lock_map (cl' j) l = lock_map (cl j) l"
  shows "threads_ok st cl' (us @ vs)"
proof -
  have "(i, lid) \<notin> slot ` set (us @ vs)"
    using assms(1) by (auto simp: threads_ok_def slot_def)
  then have "slot x \<noteq> (i, lid)" if "x \<in> set (us @ vs)" for x
    using that by (metis imageI)
  then have "lock_map (cl' (fst (slot x))) (snd (slot x)) = Some st" if "x \<in> set (us @ vs)" for x
    using that assms(1) assms(2) [of "fst (slot x)" "snd (slot x)"] by (auto simp: threads_ok_def)
  then show ?thesis
    using assms(1) by (auto simp: threads_ok_def)
qed

lemma threads_ok_in:
  "threads_ok st cl (us @ (i, t, lid) # vs) \<Longrightarrow> lock_map (cl i) lid = Some st"
  by (auto simp: threads_ok_def slot_def)

section \<open>Every step keeps the invariant\<close>

lemma local_ok_unowned: "local_ok st b False cont n m \<Longrightarrow> local_ok st b False cont' n m"
  by (auto simp: local_ok_def)

lemma local_ok_mono:
  assumes "local_ok st b own cont n m" "cont \<longrightarrow> cont'"
    and "st' = st \<or> {st, st'} \<subseteq> {None, Some NONE, Some ACQUIRING} \<and> b = None"
  shows "local_ok st' b own cont' n m"
  using assms unfolding local_ok_def by auto

lemma local_ok_revoke:
  assumes "local_ok st b True cont n m" "\<not> cont"
  shows "local_ok st b True True (Suc n) m"
  using assms unfolding local_ok_def by auto

lemma pair_ok_cong:
  assumes "pair_ok k j l"
    and "lock_map (k_cl k' j) l = lock_map (k_cl k j) l" "busy_on (k_busy k' j) l = busy_on (k_busy k j) l"
    and "count_list (lc_revoke_list (k_cl k' j)) l = count_list (lc_revoke_list (k_cl k j)) l"
    and "owner (k_srv k') l = owner (k_srv k) l" "contended (k_srv k') l j = contended (k_srv k) l j"
    and "pending (k_srv k') l j = pending (k_srv k) l j"
  shows "pair_ok k' j l"
  using assms by (simp add: pair_ok_def)

lemma pair_ok_grant:
  assumes "pair_ok k j l" "(j, l) \<noteq> (i, lid)"
    and "owner (k_srv k) lid = None" "owner (k_srv k') = (owner (k_srv k))(lid \<mapsto> i)"
    and "sc_revoke_list (k_srv k') = sc_revoke_list (k_srv k) @ (if b then [(i, lid)] else [])"
    and "\<forall>lid' j. lid' \<noteq> lid \<longrightarrow> contended (k_srv k') lid' j = contended (k_srv k) lid' j"
    and same: "lock_map (k_cl k' j) l = lock_map (k_cl k j) l" "busy_on (k_busy k' j) l = busy_on (k_busy k j) l"
      "count_list (lc_revoke_list (k_cl k' j)) l = count_list (lc_revoke_list (k_cl k j)) l"
  shows "pair_ok k' j l"
proof -
  have pend: "pending (k_srv k') l j = pending (k_srv k) l j"
    using assms(2,5) by auto
  show ?thesis
  proof (cases "l = lid")
    case True
    then show ?thesis
      using assms(1-4) pend same unfolding pair_ok_def by (auto intro: local_ok_unowned)
  next
    case False
    then show ?thesis
      using assms(4,6) pend same by (intro pair_ok_cong [OF assms(1)]) auto
  qed
qed

lemma pair_ok_retry:
  assumes "pair_ok k j l" "owner (k_srv k) lid = Some i" "owner (k_srv k') = owner (k_srv k)"
    and "sc_revoke_list (k_srv k') = sc_revoke_list (k_srv k) @ (if b then [(i, lid)] else [])"
    and "b \<longrightarrow> \<not> contended (k_srv k) lid i" "contended (k_srv k') lid i"
    and "\<forall>lid' j'. contended (k_srv k) lid' j' \<longrightarrow> contended (k_srv k') lid' j'"
    and st: "lock_map (k_cl k' j) l = lock_map (k_cl k j) l
      \<or> {lock_map (k_cl k j) l, lock_map (k_cl k' j) l} \<subseteq> {None, Some NONE, Some ACQUIRING} \<and> busy_on (k_busy k j) l = None"
    and same: "busy_on (k_busy k' j) l = busy_on (k_busy k j) l"
      "count_list (lc_revoke_list (k_cl k' j)) l = count_list (lc_revoke_list (k_cl k j)) l"
  shows "pair_ok k' j l"
proof (cases "b \<and> (j, l) = (i, lid)")
  case True
  then have pend: "pending (k_srv k') l j = Suc (pending (k_srv k) l j)"
    using assms(4) by simp
  have "local_ok (lock_map (k_cl k j) l) (busy_on (k_busy k j) l) True True (pending (k_srv k') l j)
      (count_list (lc_revoke_list (k_cl k j)) l)"
    using assms(1,2,5) True unfolding pend pair_ok_def by (intro local_ok_revoke) auto
  from local_ok_mono [OF this _ st, of True] show ?thesis
    using assms(2,3,6) True same unfolding pair_ok_def by simp
next
  case False
  then have pend: "pending (k_srv k') l j = pending (k_srv k) l j"
    using assms(4) by auto
  show ?thesis
    using local_ok_mono [OF assms(1) [unfolded pair_ok_def] _ st] assms(3,7) same pend
    unfolding pair_ok_def by simp
qed

text \<open>A client that is no owner asks the server, and gets the lock or becomes a waiter.\<close>

lemma ask_server:
  assumes inv: "lsys_inv k" and st: "lock_map (k_cl k i) lid \<in> {None, Some NONE, Some ACQUIRING}"
    and busy: "k_busy k i = None"
    and ask: "call_acquire lid (lc_id (k_cl k i)) (k_srv k) = (r, s)"
    and cl: "\<And>j l. (j, l) \<noteq> (i, lid) \<Longrightarrow> lock_map (cl' j) l = lock_map (k_cl k j) l"
      "\<And>j. lc_revoke_list (cl' j) = lc_revoke_list (k_cl k j)"
    and k': "k_srv k' = s" "k_cl k' = cl'" "k_busy k' = k_busy k"
    and new: "r = lp_OK \<Longrightarrow> lock_map (cl' i) lid = Some LOCKED"
      "r = lp_RETRY \<Longrightarrow> lock_map (cl' i) lid \<in> {None, Some NONE, Some ACQUIRING}"
  shows "(r = lp_OK \<or> r = lp_RETRY) \<and> \<not> sc_statusMutex s \<and> (\<forall>j l. pair_ok k' j l)"
proof -
  have mutex: "\<not> sc_statusMutex (k_srv k)" and id: "lc_id (k_cl k i) = i"
    using inv by (auto dest: lsys_invD)
  have unowned: "owner (k_srv k) lid \<noteq> Some i"
    "pending (k_srv k) lid i = 0" "count_list (lc_revoke_list (k_cl k i)) lid = 0"
    using lsys_invD(3) [OF inv, of i lid] st busy by (auto simp: pair_ok_def local_ok_def)
  from mutex show ?thesis
  proof (cases rule: lsc_acquire_cases [of "k_srv k" lid i])
    case (grant s' b)
    then have r: "r = lp_OK" "s = s'"
      using ask id by (auto simp: call_acquire_def served_def)
    have "pair_ok k' i lid"
      using grant r unowned busy k' cl(2) new(1) by (auto simp: pair_ok_def local_ok_def)
    moreover have "pair_ok k' j l" if "(j, l) \<noteq> (i, lid)" for j l
      by (rule pair_ok_grant [OF lsys_invD(3) [OF inv] that, where b = b]) (use grant r k' cl that in auto)
    ultimately show ?thesis
      using r grant by (metis prod.inject)
  next
    case (retry s' b j0)
    then have r: "r = lp_RETRY" "s = s'"
      using ask id by (auto simp: call_acquire_def served_def)
    have stable: "lock_map (k_cl k' j) l = lock_map (k_cl k j) l
      \<or> {lock_map (k_cl k j) l, lock_map (k_cl k' j) l} \<subseteq> {None, Some NONE, Some ACQUIRING} \<and> busy_on (k_busy k j) l = None"
      for j l
      using st new(2) [OF r(1)] busy cl(1) [of j l] k'(2) by (cases "(j, l) = (i, lid)") simp_all
    have "pair_ok k' j l" for j l
      by (rule pair_ok_retry [OF lsys_invD(3) [OF inv] retry(3) _ _ _ _ _ stable, where b = b])
         (use retry r k' cl(2) in simp_all)
    then show ?thesis
      using r retry by blast
  qed
qed

lemma lsys_inv_new: "lsys_inv lock_sys_new"
  by (simp add: lsys_inv_def lock_sys_new_def lock_server_cache_new_def lock_client_cache_new_def
      pair_ok_def local_ok_def owner_def threads_ok_def)

lemma acquire_prepare_simps [simp]:
  "lc_id (acquire_prepare lid c) = lc_id c" "lc_revoke_list (acquire_prepare lid c) = lc_revoke_list c"
  "l \<noteq> lid \<Longrightarrow> lock_map (acquire_prepare lid c) l = lock_map c l"
  "lock_map (acquire_prepare lid c) lid = (if lock_map c lid = None then Some NONE else lock_map c lid)"
  by (simp_all add: acquire_prepare_def)

text \<open>A step of client \<open>i\<close> on lock \<open>lid\<close> that does not touch the server.\<close>

lemma lsys_inv_client:
  assumes inv: "lsys_inv k"
    and k': "k_srv k' = k_srv k" "k_cl k' = (k_cl k)(i := c)" "k_busy k' = k_busy k"
    and c: "lc_id c = i" "\<And>l. l \<noteq> lid \<Longrightarrow> lock_map c l = lock_map (k_cl k i) l"
      "\<And>l. l \<noteq> lid \<Longrightarrow> count_list (lc_revoke_list c) l = count_list (lc_revoke_list (k_cl k i)) l"
    and new: "pair_ok k' i lid"
    and th: "threads_ok ACQUIRING (k_cl k') (k_wait k')" "threads_ok LOCKED (k_cl k') (k_holds k')"
  shows "lsys_inv k'"
proof -
  have "pair_ok k' j l" for j l
  proof (cases "(j, l) = (i, lid)")
    case False
    then show ?thesis
      using k' c by (intro pair_ok_cong [OF lsys_invD(3) [OF inv]]) auto
  qed (use new in simp)
  then show ?thesis
    using inv k' c(1) th unfolding lsys_inv_def by auto
qed

lemma lsys_inv_acquire:
  assumes inv: "lsys_inv k" and busy: "k_busy k i = None"
    and sw: "acquire_switch call_acquire lid (acquire_prepare lid (k_cl k i)) (k_srv k) = Inr (r, c, s)"
  shows "lsys_inv (k\<lparr>k_srv := s, k_cl := (k_cl k)(i := c),
          k_wait := (if r = EnterLoop then (i, t, lid) # k_wait k else k_wait k),
          k_holds := (if r = Got lp_OK then (i, t, lid) # k_holds k else k_holds k)\<rparr>)"
    (is "lsys_inv ?k")
proof -
  let ?c = "acquire_prepare lid (k_cl k i)"
  have id: "lc_id (k_cl k i) = i"
    using inv by (rule lsys_invD)
  note wait = lsys_invD(4) [OF inv] and holds = lsys_invD(5) [OF inv]
  obtain st where st: "lock_map ?c lid = Some st"
    using sw by (auto simp: acquire_switch_def split: option.splits)
  consider (none) "st = NONE" | (free) "st = FREE" | (other) "st \<in> {LOCKED, ACQUIRING, RELEASING}"
    by (cases st) auto
  then show ?thesis
  proof cases
    case none
    then have old: "lock_map (k_cl k i) lid \<in> {None, Some NONE}"
      using st by (auto split: if_splits)
    obtain a s' where a: "call_acquire lid (lc_id (k_cl k i)) (k_srv k) = (a, s')"
      by (cases "call_acquire lid (lc_id (k_cl k i)) (k_srv k)")
    have c: "(r, c, s) = (if a = lp_OK then (Got lp_OK, set_st lid LOCKED ?c, s')
        else if a = lp_RETRY then (EnterLoop, set_st lid ACQUIRING ?c, s') else (Got lp_OK, ?c, s'))"
      using sw st none a by (simp add: acquire_switch_def del: acquire_prepare_simps(4))
    have ok: "(a = lp_OK \<or> a = lp_RETRY) \<and> \<not> sc_statusMutex s' \<and> (\<forall>j l. pair_ok ?k j l)"
      by (rule ask_server [OF inv _ busy a, where cl' = "(k_cl k)(i := c)"])
         (use old c in \<open>auto split: if_splits\<close>)
    have frame: "lock_map (((k_cl k)(i := c)) j) l = lock_map (k_cl k j) l" if "(j, l) \<noteq> (i, lid)" for j l
      using that c by (auto split: if_splits)
    show ?thesis
    proof (cases "a = lp_OK")
      case True
      have "threads_ok LOCKED ((k_cl k)(i := c)) ((i, t, lid) # k_holds k)"
        by (rule threads_ok_Cons [OF holds _ frame]) (use old c True in auto)
      moreover have "threads_ok ACQUIRING ((k_cl k)(i := c)) (k_wait k)"
        by (rule threads_ok_frame [OF wait frame]) (use old in auto)
      ultimately show ?thesis
        using ok c True id inv unfolding lsys_inv_def by auto
    next
      case False
      then have "a = lp_RETRY"
        using ok by simp
      then have r: "r = EnterLoop" "c = set_st lid ACQUIRING ?c" "s = s'"
        using c by auto
      have "threads_ok ACQUIRING ((k_cl k)(i := c)) ((i, t, lid) # k_wait k)"
        by (rule threads_ok_Cons [OF wait _ frame]) (use old r in auto)
      moreover have "threads_ok LOCKED ((k_cl k)(i := c)) (k_holds k)"
        by (rule threads_ok_frame [OF holds frame]) (use old in auto)
      ultimately show ?thesis
        using ok r id inv unfolding lsys_inv_def by auto
    qed
  next
    case free
    then have old: "lock_map (k_cl k i) lid = Some FREE" "?c = k_cl k i"
      using st by (auto simp: acquire_prepare_def split: if_splits)
    then have r: "r = Got lp_OK" "c = set_st lid LOCKED (k_cl k i)" "s = k_srv k"
      using sw free by (auto simp: acquire_switch_def)
    have "pair_ok ?k i lid"
      using lsys_invD(3) [OF inv, of i lid] old r by (auto simp: pair_ok_def local_ok_def)
    moreover have "threads_ok LOCKED ((k_cl k)(i := c)) ((i, t, lid) # k_holds k)"
      by (rule threads_ok_Cons [OF holds]) (use old r in auto)
    moreover have "threads_ok ACQUIRING ((k_cl k)(i := c)) (k_wait k)"
      by (rule threads_ok_frame [OF wait, of i lid]) (use old r in auto)
    ultimately show ?thesis
      using r id by (intro lsys_inv_client [OF inv, where i = i and lid = lid and c = c]) auto
  next
    case other
    then have "?c = k_cl k i"
      using st by (auto simp: acquire_prepare_def split: if_splits)
    then have "r = WaitLock" "c = k_cl k i" "s = k_srv k"
      using sw st other by (auto simp: acquire_switch_def split: lock_st.splits)
    then have "?k = k"
      by simp
    then show ?thesis
      using inv by simp
  qed
qed

lemma lsys_inv_retry:
  assumes inv: "lsys_inv k" and busy: "k_busy k i = None" and w: "k_wait k = us @ (i, t, lid) # vs"
    and re: "acquire_retry call_acquire lid (k_cl k i) (k_srv k) = (r, c, s)"
  shows "lsys_inv (k\<lparr>k_srv := s, k_cl := (k_cl k)(i := c),
          k_wait := (if r = Got lp_OK then us @ vs else k_wait k),
          k_holds := (if r = Got lp_OK then (i, t, lid) # k_holds k else k_holds k)\<rparr>)"
    (is "lsys_inv ?k")
proof -
  let ?c = "set_st lid ACQUIRING (k_cl k i)"
  have id: "lc_id (k_cl k i) = i"
    using inv by (rule lsys_invD)
  note wait = lsys_invD(4) [OF inv] and holds = lsys_invD(5) [OF inv]
  have old: "lock_map (k_cl k i) lid = Some ACQUIRING"
    using wait unfolding w by (rule threads_ok_in)
  then have same: "?c = k_cl k i"
    by (simp add: set_st_def fun_upd_idem)
  show ?thesis
  proof (cases "retry_map (k_cl k i) lid = Some True")
    case False
    then have "r = WaitRetry" "c = k_cl k i" "s = k_srv k"
      using re same by (auto simp: acquire_retry_def)
    then have "?k = k"
      by simp
    then show ?thesis
      using inv by simp
  next
    case True
    obtain a s' where a: "call_acquire lid (lc_id (k_cl k i)) (k_srv k) = (a, s')"
      by (cases "call_acquire lid (lc_id (k_cl k i)) (k_srv k)")
    have c: "(r, c, s) = (if a = lp_OK then (Got lp_OK, set_retry lid False (set_st lid LOCKED ?c), s')
        else if a = lp_RETRY then (WaitRetry, set_retry lid False ?c, s') else (Got lp_OK, set_retry lid False ?c, s'))"
      using re True a by (auto simp: acquire_retry_def Let_def same split: if_splits)
    have ok: "(a = lp_OK \<or> a = lp_RETRY) \<and> \<not> sc_statusMutex s' \<and> (\<forall>j l. pair_ok ?k j l)"
      by (rule ask_server [OF inv _ busy a, where cl' = "(k_cl k)(i := c)"])
         (use old c in \<open>auto split: if_splits\<close>)
    have frame: "lock_map (((k_cl k)(i := c)) j) l = lock_map (k_cl k j) l" if "(j, l) \<noteq> (i, lid)" for j l
      using that c by (auto split: if_splits)
    show ?thesis
    proof (cases "a = lp_OK")
      case True
      have "threads_ok LOCKED ((k_cl k)(i := c)) ((i, t, lid) # k_holds k)"
        by (rule threads_ok_Cons [OF holds _ frame]) (use old c True in auto)
      moreover have "threads_ok ACQUIRING ((k_cl k)(i := c)) (us @ vs)"
        using wait frame unfolding w by (rule threads_ok_remove)
      ultimately show ?thesis
        using ok c True id inv unfolding lsys_inv_def by auto
    next
      case False
      then have r: "r = WaitRetry" "c = set_retry lid False ?c" "s = s'"
        using ok c by auto
      have "threads_ok ACQUIRING ((k_cl k)(i := c)) (k_wait k)"
        by (rule threads_ok_frame [OF wait frame]) (use old r in auto)
      moreover have "threads_ok LOCKED ((k_cl k)(i := c)) (k_holds k)"
        by (rule threads_ok_frame [OF holds frame]) (use old in auto)
      ultimately show ?thesis
        using ok r id inv unfolding lsys_inv_def by auto
    qed
  qed
qed

lemma lsys_inv_release:
  assumes inv: "lsys_inv k" and h: "k_holds k = us @ (i, t, lid) # vs"
    and rel: "lcc_release lid (k_cl k i) = Inr (r, c)"
  shows "lsys_inv (k\<lparr>k_cl := (k_cl k)(i := c), k_holds := us @ vs\<rparr>)" (is "lsys_inv ?k")
proof -
  have id: "lc_id (k_cl k i) = i"
    using inv by (rule lsys_invD)
  note wait = lsys_invD(4) [OF inv] and holds = lsys_invD(5) [OF inv]
  have old: "lock_map (k_cl k i) lid = Some LOCKED"
    using holds unfolding h by (rule threads_ok_in)
  have c: "lc_id c = i" "lc_revoke_list c = lc_revoke_list (k_cl k i)"
    "\<And>l. l \<noteq> lid \<Longrightarrow> lock_map c l = lock_map (k_cl k i) l"
    "lock_map c lid = Some (if lid \<in> set (lc_revoke_list (k_cl k i)) then RELEASING else FREE)"
    using rel id by (auto simp: lcc_release_def split: if_splits)
  have "pair_ok ?k i lid"
    using lsys_invD(3) [OF inv, of i lid] old c(2,4) count_list_0_iff [of "lc_revoke_list (k_cl k i)" lid]
    by (cases "lid \<in> set (lc_revoke_list (k_cl k i))") (auto simp: pair_ok_def local_ok_def)
  moreover have "threads_ok ACQUIRING ((k_cl k)(i := c)) (k_wait k)"
    by (rule threads_ok_frame [OF wait, of i lid]) (use old c in auto)
  moreover have "threads_ok LOCKED ((k_cl k)(i := c)) (us @ vs)"
    using holds unfolding h by (rule threads_ok_remove) (use c(3) in auto)
  ultimately show ?thesis
    using c by (intro lsys_inv_client [OF inv, where i = i and lid = lid and c = c]) auto
qed

lemma lsys_inv_frame:
  assumes "lsys_inv k" "k_busy k' = k_busy k" "k_wait k' = k_wait k" "k_holds k' = k_holds k"
    and "\<And>j. lc_id (k_cl k' j) = lc_id (k_cl k j)" "\<And>j. lock_map (k_cl k' j) = lock_map (k_cl k j)"
      "\<And>j. lc_revoke_list (k_cl k' j) = lc_revoke_list (k_cl k j)"
    and "sc_statusMutex (k_srv k') = sc_statusMutex (k_srv k)" "owner (k_srv k') = owner (k_srv k)"
      "contended (k_srv k') = contended (k_srv k)" "sc_revoke_list (k_srv k') = sc_revoke_list (k_srv k)"
  shows "lsys_inv k'"
  using assms unfolding lsys_inv_def pair_ok_def threads_ok_def by simp

lemma contended_release_test:
  assumes "owner s lid = Some i" "contended s lid i"
  shows "release_test lid s = Waiters"
  using assms by (auto simp: owner_def contended_def release_test_def split: option.splits if_splits)

lemma lsys_inv_releaser:
  assumes inv: "lsys_inv k" and busy: "k_busy k i = None"
    and rel: "releaser_begin (k_cl k i) = Inr (Some lid, c)"
  shows "lsys_inv (k\<lparr>k_cl := (k_cl k)(i := c),
          k_busy := (k_busy k)(i \<mapsto> (lid, release_test lid (k_srv k)))\<rparr>)" (is "lsys_inv ?k")
proof -
  have id: "lc_id (k_cl k i) = i"
    using inv by (rule lsys_invD)
  note wait = lsys_invD(4) [OF inv] and holds = lsys_invD(5) [OF inv]
  obtain p q where scan: "releaser_scan (lock_map (k_cl k i)) (lc_revoke_list (k_cl k i)) = Inr (Some (p, lid, q))"
    and c: "c = (set_st lid NONE (k_cl k i))\<lparr>lc_revoke_list := p @ q, revokerThreadStatus := False\<rparr>"
    using rel by (auto simp: releaser_begin_def returns split: option.splits)
  then have list: "lc_revoke_list (k_cl k i) = p @ lid # q" and old: "lock_map (k_cl k i) lid = Some RELEASING"
    using releaser_scan_split by blast+
  have local: "owner (k_srv k) lid = Some i" "contended (k_srv k) lid i" "pending (k_srv k) lid i = 0"
    "count_list (p @ q) lid = 0"
    using lsys_invD(3) [OF inv, of i lid] old busy by (auto simp: pair_ok_def local_ok_def list)
  have test: "release_test lid (k_srv k) = Waiters"
    using local(1,2) by (rule contended_release_test)
  have pairs: "pair_ok ?k j l" for j l
  proof (cases "(j, l) = (i, lid)")
    case True
    then show ?thesis
      using local test by (auto simp: pair_ok_def local_ok_def c)
  next
    case False
    then show ?thesis
      using busy list by (intro pair_ok_cong [OF lsys_invD(3) [OF inv]]) (auto simp: c)
  qed
  have frame: "lock_map (((k_cl k)(i := c)) j) l = lock_map (k_cl k j) l" if "(j, l) \<noteq> (i, lid)" for j l
    using that by (auto simp: c)
  have "threads_ok ACQUIRING ((k_cl k)(i := c)) (k_wait k)"
    by (rule threads_ok_frame [OF wait frame]) (use old in auto)
  moreover have "threads_ok LOCKED ((k_cl k)(i := c)) (k_holds k)"
    by (rule threads_ok_frame [OF holds frame]) (use old in auto)
  ultimately show ?thesis
    using inv pairs id unfolding lsys_inv_def by (auto simp: c)
qed

lemma release_body_Waiters:
  assumes "\<not> sc_statusMutex s" "contended s lid i"
  obtains s' where "release_body Waiters lid i s = (Inr lp_OK, s')" "\<not> sc_statusMutex s'"
    "owner s' = (owner s)(lid := None)" "sc_revoke_list s' = sc_revoke_list s"
    "\<And>l j. l \<noteq> lid \<Longrightarrow> contended s' l j = contended s l j"
proof -
  obtain l w ws where l: "lock_status_map s lid = Some l" "waiting_client l = w # ws"
    using assms(2) by (auto simp: contended_def neq_Nil_conv)
  show ?thesis
    by (rule that [of "snd (release_body Waiters lid i s)"]) (use assms(1) l in \<open>simp_all add: release_body_def\<close>)
qed

lemma lsys_inv_released:
  assumes inv: "lsys_inv k" and busy: "k_busy k i = Some (lid, path)"
    and rel: "release_body path lid (lc_id (k_cl k i)) (k_srv k) = (r, s)"
  shows "lsys_inv (k\<lparr>k_srv := s, k_busy := (k_busy k)(i := None)\<rparr>)" (is "lsys_inv ?k")
proof -
  have id: "lc_id (k_cl k i) = i"
    using inv by (rule lsys_invD)
  have local: "path = Waiters" "lock_map (k_cl k i) lid = Some NONE" "contended (k_srv k) lid i"
    "pending (k_srv k) lid i = 0" "count_list (lc_revoke_list (k_cl k i)) lid = 0" "owner (k_srv k) lid = Some i"
    using lsys_invD(3) [OF inv, of i lid] busy by (auto simp: pair_ok_def local_ok_def)
  obtain s' where "release_body Waiters lid i (k_srv k) = (Inr lp_OK, s')" and s': "\<not> sc_statusMutex s'"
    "owner s' = (owner (k_srv k))(lid := None)" "sc_revoke_list s' = sc_revoke_list (k_srv k)"
    "\<And>l j. l \<noteq> lid \<Longrightarrow> contended s' l j = contended (k_srv k) l j"
    using release_body_Waiters [OF lsys_invD(1) [OF inv] local(3)] by blast
  then have s: "s = s'"
    using rel id local(1) by simp
  have "pair_ok ?k j l" for j l
  proof (cases "l = lid")
    case True
    show ?thesis
    proof (cases "j = i")
      case True
      then show ?thesis
        using local s' \<open>l = lid\<close> by (simp add: pair_ok_def local_ok_def s)
    next
      case False
      then show ?thesis
        using lsys_invD(3) [OF inv, of j l] local(6) s' True
        by (auto simp: pair_ok_def s intro: local_ok_unowned)
    qed
  next
    case False
    then show ?thesis
      using s' busy by (intro pair_ok_cong [OF lsys_invD(3) [OF inv]]) (auto simp: s)
  qed
  then show ?thesis
    using inv s'(1) unfolding lsys_inv_def by (auto simp: s)
qed

lemma lsys_inv_revoke:
  assumes inv: "lsys_inv k" and rev: "revoker (k_srv k) = Some ((i, lid), s)"
    and h: "revoke_handler lid (k_cl k i) = Inr (r, c)"
  shows "lsys_inv (k\<lparr>k_srv := s, k_cl := (k_cl k)(i := c)\<rparr>)" (is "lsys_inv ?k")
proof -
  have id: "lc_id (k_cl k i) = i"
    using inv by (rule lsys_invD)
  note wait = lsys_invD(4) [OF inv] and holds = lsys_invD(5) [OF inv]
  obtain ms where ms: "sc_revoke_list (k_srv k) = (i, lid) # ms" "s = (k_srv k)\<lparr>sc_revoke_list := ms\<rparr>"
    using rev by (auto simp: revoker_def split: list.splits)
  have local: "owner (k_srv k) lid = Some i" "contended (k_srv k) lid i" "count_list ms (i, lid) = 0"
    "count_list (lc_revoke_list (k_cl k i)) lid = 0" "busy_on (k_busy k i) lid = None"
    "lock_map (k_cl k i) lid \<in> {Some FREE, Some LOCKED}"
    using lsys_invD(3) [OF inv, of i lid] by (auto simp: pair_ok_def local_ok_def ms(1))
  have c: "lc_id c = i" "lc_revoke_list c = lc_revoke_list (k_cl k i) @ [lid]"
    "\<And>l. l \<noteq> lid \<Longrightarrow> lock_map c l = lock_map (k_cl k i) l"
    "lock_map c lid = (if lock_map (k_cl k i) lid = Some FREE then Some RELEASING else Some LOCKED)"
    using h id local(6) by (auto simp: revoke_handler_def Let_def split: if_splits)
  have pairs: "pair_ok ?k j l" for j l
  proof (cases "(j, l) = (i, lid)")
    case True
    then show ?thesis
      using local c(2,4) by (simp add: pair_ok_def local_ok_def ms(2))
  next
    case False
    then show ?thesis
      using ms c by (intro pair_ok_cong [OF lsys_invD(3) [OF inv]]) auto
  qed
  have frame: "lock_map (((k_cl k)(i := c)) j) l = lock_map (k_cl k j) l" if "(j, l) \<noteq> (i, lid)" for j l
    using that c(3) by auto
  have "threads_ok ACQUIRING ((k_cl k)(i := c)) (k_wait k)"
    by (rule threads_ok_frame [OF wait frame]) (use local(6) in auto)
  moreover have "threads_ok LOCKED ((k_cl k)(i := c)) (k_holds k)"
    by (rule threads_ok_frame [OF holds frame]) (use local(6) c(4) in auto)
  ultimately show ?thesis
    using inv pairs id c(1) unfolding lsys_inv_def by (auto simp: ms(2))
qed

lemma lsys_step_inv: "lsys_step k k' \<Longrightarrow> lsys_inv k \<Longrightarrow> lsys_inv k'"
proof (induction rule: lsys_step.induct)
  case (ls_releaser_idle k i c)
  show ?case
    by (rule lsys_inv_frame [of k]) (insert ls_releaser_idle, auto simp: releaser_begin_def returns split: option.splits)
next
  case (ls_send_retry k i lid s r c)
  show ?case
    by (rule lsys_inv_frame [of k]) (insert ls_send_retry, auto simp: retryer_def retry_handler_def split: list.splits)
next
  case (ls_attach i k r s)
  show ?case
    by (rule lsys_inv_frame [of k]) (insert ls_attach, auto simp: lsc_attach_def split: if_splits)
next
  case ls_acquire
  from ls_acquire.prems ls_acquire.hyps show ?case by (rule lsys_inv_acquire)
next
  case ls_retry
  from ls_retry.prems ls_retry.hyps show ?case by (rule lsys_inv_retry)
next
  case ls_release
  from ls_release.prems ls_release.hyps(2,3) show ?case by (rule lsys_inv_release)
next
  case ls_releaser
  from ls_releaser.prems ls_releaser.hyps show ?case by (rule lsys_inv_releaser)
next
  case ls_released
  from ls_released.prems ls_released.hyps show ?case by (rule lsys_inv_released)
next
  case ls_revoke
  from ls_revoke.prems ls_revoke.hyps(2,3) show ?case by (rule lsys_inv_revoke)
qed

lemma lsys_reachable_inv: "lsys_reachable k \<Longrightarrow> lsys_inv k"
  by (induction rule: lsys_reachable.induct) (auto intro: lsys_inv_new lsys_step_inv)

section \<open>Properties of the system\<close>

lemma holders_distinct:
  assumes "lsys_inv k"
  shows "distinct (map (\<lambda>x. snd (slot x)) (k_holds k))"
proof -
  have th: "threads_ok LOCKED (k_cl k) (k_holds k)"
    using assms by (rule lsys_invD)
  have "inj_on snd (set (map slot (k_holds k)))"
  proof (rule inj_onI)
    fix x y
    assume "x \<in> set (map slot (k_holds k))" "y \<in> set (map slot (k_holds k))" and eq: "snd x = snd y"
    then have "lock_map (k_cl k (fst x)) (snd x) = Some LOCKED" "lock_map (k_cl k (fst y)) (snd y) = Some LOCKED"
      using threads_ok_slot [OF th] by (metis list.set_map prod.collapse)+
    then have "owner (k_srv k) (snd x) = Some (fst x)" "owner (k_srv k) (snd y) = Some (fst y)"
      using lsys_invD(3) [OF assms] by (simp_all add: pair_ok_def local_ok_def)
    then show "x = y"
      using eq by (simp add: prod_eq_iff)
  qed
  moreover have "distinct (map slot (k_holds k))"
    using th by (simp add: threads_ok_def)
  ultimately have "distinct (map snd (map slot (k_holds k)))"
    by (subst distinct_map) simp
  then show ?thesis
    by (simp add: comp_def)
qed

text \<open>
  C1: Mutual exclusion of the cached locks: in every reachable state of a server with any number of
  clients and threads, no two threads, of the same or of different clients, hold the same lock,
  and the server records the holder's client as the owner.
\<close>

theorem lock_cache_exclusion:
  assumes "lsys_reachable k"
  shows "distinct (map (\<lambda>(i, t, lid). lid) (k_holds k))
    \<and> (\<forall>(i, t, lid) \<in> set (k_holds k). owner (k_srv k) lid = Some i)"
proof -
  have inv: "lsys_inv k"
    using assms by (rule lsys_reachable_inv)
  have "owner (k_srv k) lid = Some i" if "(i, t, lid) \<in> set (k_holds k)" for i t lid
  proof -
    have "(i, lid) \<in> slot ` set (k_holds k)"
      using that by (force simp: slot_def)
    then have "lock_map (k_cl k i) lid = Some LOCKED"
      by (rule threads_ok_slot [OF lsys_invD(5) [OF inv]])
    then show ?thesis
      using lsys_invD(3) [OF inv, of i lid] by (simp add: pair_ok_def local_ok_def)
  qed
  moreover have "distinct (map (\<lambda>(i, t, lid). lid) (k_holds k))"
    using holders_distinct [OF inv] by (simp add: slot_def case_prod_beta')
  ultimately show ?thesis
    by auto
qed

text \<open>Client a takes lock 5.\<close>

definition ex_lsys :: lock_sys where
  "ex_lsys = lock_sys_new\<lparr>
     k_srv := snd (lsc_acquire 5 ''a'' lock_server_cache_new),
     k_cl := (k_cl lock_sys_new)(''a'' := set_st 5 LOCKED (acquire_prepare 5 (lock_client_cache_new ''a'' True))),
     k_holds := [(''a'', 1, 5)]\<rparr>"

lemma ex_lsys_step: "lsys_step lock_sys_new ex_lsys"
proof -
  have "acquire_switch call_acquire 5 (acquire_prepare 5 (k_cl lock_sys_new ''a'')) (k_srv lock_sys_new)
     = Inr (Got lp_OK, set_st 5 LOCKED (acquire_prepare 5 (lock_client_cache_new ''a'' True)),
         snd (lsc_acquire 5 ''a'' lock_server_cache_new))"
    by (simp add: acquire_switch_def call_acquire_def served_def lock_sys_new_def lock_client_cache_new_def
        lock_server_cache_new_def lsc_acquire_def)
  from ls_acquire [OF _ this, of 1] show ?thesis
    by (simp add: ex_lsys_def lock_sys_new_def)
qed

lemma ex_lsys_reachable: "lsys_reachable ex_lsys"
  by (rule lsys_next [OF lsys_init ex_lsys_step])

theorem lock_cache_exclusion_witness: "owner (k_srv ex_lsys) 5 = Some ''a''"
  using lock_cache_exclusion [OF ex_lsys_reachable] by (auto simp: ex_lsys_def)



section \<open>Refinement of an abstract lock service\<close>

text \<open>The specification: a lock has at most one holder, which takes it when it is free.\<close>

inductive lock_spec :: "(lockid_t \<rightharpoonup> string \<times> nat) \<Rightarrow> (lockid_t \<rightharpoonup> string \<times> nat) \<Rightarrow> bool" where
  spec_stutter: "lock_spec h h"
| spec_take: "h lid = None \<Longrightarrow> lock_spec h (h(lid \<mapsto> x))"
| spec_drop: "h lid = Some x \<Longrightarrow> lock_spec h (h(lid := None))"

definition holder :: "lock_sys \<Rightarrow> lockid_t \<rightharpoonup> string \<times> nat" where
  "holder k = map_of (map (\<lambda>(i, t, lid). (lid, (i, t))) (k_holds k))"

lemma holds_step:
  assumes "lsys_step k k'"
  obtains "k_holds k' = k_holds k"
  | i t lid where "k_holds k' = (i, t, lid) # k_holds k"
  | us i t lid vs where "k_holds k = us @ (i, t, lid) # vs" "k_holds k' = us @ vs"
  using assms by cases (auto split: if_splits)

lemma map_of_remove:
  assumes "distinct (map fst (us @ (x, v) # vs))"
  shows "map_of (us @ vs) = (map_of (us @ (x, v) # vs))(x := None)"
proof
  fix y
  have "map_of us x = None" "map_of vs x = None"
    using assms by (auto simp: map_of_eq_None_iff)
  then show "map_of (us @ vs) y = ((map_of (us @ (x, v) # vs))(x := None)) y"
    by (simp add: map_add_def split: option.splits)
qed



text \<open>
  The destructor of a client that is waiting for a lock gives back a lock it does not have: the
  server forgets the owner, another client is granted the lock, and two clients hold it.
\<close>

theorem destroy_steals_lock:
  assumes "owner s lid = Some i" "lock_map c lid = Some ACQUIRING" "\<not> sc_statusMutex s" "contended s lid i"
    and "destroy_locks call_release [lid] c s = (c', s')"
  shows "owner s' lid = None \<and> (\<exists>s''. lsc_acquire lid j s' = (Inr lp_OK, s''))"
proof -
  obtain l w ws where l: "lock_status_map s lid = Some l" "waiting_client l = w # ws" "sl_status l = SLOCKED"
    using assms(1,4) by (auto simp: contended_def owner_def neq_Nil_conv split: if_splits)
  then have s': "owner s' lid = None" "\<not> sc_statusMutex s'"
    using assms by (auto simp: call_release_def served_def lsc_release_def release_test_def release_body_def)
  from s'(2) have "\<exists>s''. lsc_acquire lid j s' = (Inr lp_OK, s'')"
    by (cases rule: lsc_acquire_cases [of s' lid j]) (use s'(1) in auto)
  with s'(1) show ?thesis by simp
qed

definition ex_contended :: lock_server_cache where
  "ex_contended = snd (lsc_acquire 5 ''b'' (snd (lsc_acquire 5 ''a'' lock_server_cache_new)))"

theorem destroy_steals_lock_witness:
  "\<exists>s''. lsc_acquire 5 ''c'' (snd (destroy_locks call_release [5]
      (set_st 5 ACQUIRING (lock_client_cache_new ''b'' True)) ex_contended)) = (Inr lp_OK, s'')"
proof -
  let ?c = "set_st 5 ACQUIRING (lock_client_cache_new ''b'' True)"
  obtain c' s' where d: "destroy_locks call_release [5] ?c ex_contended = (c', s')"
    by (cases "destroy_locks call_release [5] ?c ex_contended")
  have "owner ex_contended 5 = Some ''a''" "\<not> sc_statusMutex ex_contended" "contended ex_contended 5 ''a''"
    by (simp_all add: ex_contended_def lsc_acquire_def lock_server_cache_new_def Let_def set_lock_def
        push_revoke_def owner_def contended_def)
  then show ?thesis
    using destroy_steals_lock [of ex_contended 5 "''a''" ?c c' s' "''c''"] d by simp
qed

end
