(* ===== verification/Rpc_Client.thy ===== *)
theory Rpc_Client
  imports Rpc_Stub "HOL-Library.Signed_Division"
begin

text \<open>
  The client endpoint \<^verbatim>\<open>rpcc\<close> of \<^verbatim>\<open>rpc/rpc.cc\<close>: its table of outstanding calls, the window of
  acknowledged transaction identifiers, and the parts of \<^verbatim>\<open>call1\<close> that run under the mutex \<^verbatim>\<open>m_\<close>:
  starting a call, transmitting it, taking a reply in, ending the call, cancelling. Threads
  interleave these parts; the step relation \<open>rpcc_step\<close> has one rule for each of them.
\<close>

section \<open>Time\<close>

record timespec =
  tv_sec :: int
  tv_nsec :: int

definition cmp_timespec :: "timespec \<Rightarrow> timespec \<Rightarrow> int" where
  "cmp_timespec a b =
     (if tv_sec a > tv_sec b then 1
      else if tv_sec a < tv_sec b then - 1
      else if tv_nsec a > tv_nsec b then 1
      else if tv_nsec a < tv_nsec b then - 1
      else 0)"

function carry_nsec :: "timespec \<Rightarrow> timespec" where
  "carry_nsec t =
     (if tv_nsec t > 1000000000
      then carry_nsec (t\<lparr>tv_sec := tv_sec t + 1, tv_nsec := tv_nsec t - 1000000000\<rparr>)
      else t)"
  by pat_completeness auto
termination
  by (relation "measure (\<lambda>t. nat (tv_nsec t))") auto

declare carry_nsec.simps [simp del]

definition add_timespec :: "timespec \<Rightarrow> int \<Rightarrow> timespec res" where
  "add_timespec a b =
     (let r = \<lparr>tv_sec = tv_sec a + b sdiv 1000, tv_nsec = tv_nsec a + (b smod 1000) * 1000000\<rparr> in
      if tv_nsec r \<ge> 0 then Inr (carry_nsec r) else Inl VerifyFailed)"

definition diff_timespec :: "timespec \<Rightarrow> timespec \<Rightarrow> int res" where
  "diff_timespec end_t start =
     (let diff = (if tv_sec end_t > tv_sec start then (tv_sec end_t - tv_sec start) * 1000 else 0) in
      if diff \<noteq> 0 \<or> tv_sec end_t = tv_sec start
      then Inr (if tv_nsec end_t > tv_nsec start
                then diff + (tv_nsec end_t - tv_nsec start) sdiv 1000000
                else diff - (tv_nsec start - tv_nsec end_t) sdiv 1000000)
      else Inl VerifyFailed)"

section \<open>The window of acknowledged calls\<close>

text \<open>
  \<open>xid_rep_window_\<close> is an ordered list: its front stands for every identifier up to it.
  The loop of \<^verbatim>\<open>update_xid_rep\<close> after label \<^verbatim>\<open>compress\<close> keeps an iterator into the list and pops
  from the front: \<open>pre\<close> is what is left before the iterator.
\<close>

fun xid_insert :: "u32 \<Rightarrow> u32 list \<Rightarrow> u32 list" where
  "xid_insert xid [] = [xid]"
| "xid_insert xid (y # ys) = (if y > xid then xid # y # ys else y # xid_insert xid ys)"

fun pop_front_while :: "u32 \<Rightarrow> u32 list \<Rightarrow> u32 list" where
  "pop_front_while t [] = []"
| "pop_front_while t (p # ps) = (if p + 1 = t then pop_front_while t ps else p # ps)"

fun compress :: "u32 list \<Rightarrow> u32 list \<Rightarrow> u32 list" where
  "compress pre [] = pre"
| "compress pre (t # ts) = compress (pop_front_while t pre @ [t]) ts"

definition update_xid_rep :: "u32 \<Rightarrow> u32 list \<Rightarrow> u32 list res" where
  "update_xid_rep xid w =
     (case w of [] \<Rightarrow> Inl OutOfBounds
      | front # _ \<Rightarrow>
          if xid \<le> front then Inr w
          else case xid_insert xid w of
                 [] \<Rightarrow> Inr []
               | f # ts \<Rightarrow> Inr (compress [f] ts))"

section \<open>State\<close>

record caller =
  ca_xid :: u32
  ca_un :: unmarshall
  ca_intret :: "i32 option"
  ca_done :: bool

definition caller_new :: "u32 \<Rightarrow> unmarshall \<Rightarrow> caller" where
  "caller_new xxid xun = \<lparr>ca_xid = xxid, ca_un = xun, ca_intret = None, ca_done = False\<rparr>"

record request =
  dr_buf :: "u8 option list"
  dr_xid :: i32

definition request_clear :: request where
  "request_clear = \<lparr>dr_buf = [], dr_xid = - 1\<rparr>"

definition request_isvalid :: "request \<Rightarrow> bool" where
  "request_isvalid r \<longleftrightarrow> dr_xid r \<noteq> - 1"

record rpcc =
  c_clt_nonce :: u32
  c_srv_nonce :: u32
  c_bind_done :: bool
  c_xid :: u32
  c_lossytest :: i32
  c_retrans :: bool
  c_reachable :: bool
  c_destroy_wait :: bool
  c_calls :: "u32 \<rightharpoonup> caller"
  c_xid_rep_window :: "u32 list"
  c_dup_req :: request
  c_xid_rep_done :: i32

text \<open>\<open>rnd\<close> is what \<^verbatim>\<open>random()\<close> returns and \<open>loss\<close> the value of \<^verbatim>\<open>RPC_LOSSY\<close>.\<close>

definition rpcc_new :: "u32 \<Rightarrow> i32 \<Rightarrow> bool \<Rightarrow> rpcc" where
  "rpcc_new rnd loss retrans =
     \<lparr>c_clt_nonce = (if retrans then rnd else 0), c_srv_nonce = 0, c_bind_done = False, c_xid = 1,
      c_lossytest = loss, c_retrans = retrans, c_reachable = True, c_destroy_wait = False,
      c_calls = Map.empty, c_xid_rep_window = [0], c_dup_req = request_clear, c_xid_rep_done = - 1\<rparr>"

section \<open>Operations\<close>

text \<open>The first block of \<^verbatim>\<open>call1\<close>: refuse the call, or enter it into the table and pack its header.\<close>

definition call1_begin ::
  "u32 \<Rightarrow> marshall \<Rightarrow> unmarshall \<Rightarrow> rpcc \<Rightarrow> ((i32 + u32 \<times> u32 \<times> marshall) \<times> rpcc) res" where
  "call1_begin proc req rep c =
     (if (proc \<noteq> rpc_bind \<and> \<not> c_bind_done c) \<or> (proc = rpc_bind \<and> c_bind_done c)
      then Inr (Inl bind_failure, c)
      else if c_destroy_wait c then Inr (Inl cancel_failure, c)
      else
        let xid = c_xid c;
            c = c\<lparr>c_xid := xid + 1, c_calls := (c_calls c)(xid \<mapsto> caller_new xid rep)\<rparr> in
        case c_xid_rep_window c of [] \<Rightarrow> Inl OutOfBounds
        | front # _ \<Rightarrow>
            bindR (pack_req_header \<lparr>rq_xid = xid, rq_proc = proc, rq_clt_nonce = c_clt_nonce c,
                      rq_srv_nonce = c_srv_nonce c, rq_xid_rep = front\<rparr> req)
              (\<lambda>req. Inr (Inr (xid, front, req), c)))"

text \<open>
  One transmission of \<^verbatim>\<open>call1\<close> on a live channel: the blocks handed to \<^verbatim>\<open>connection::send\<close>. In the
  lossy test mode an old request is sent again once its reply was acknowledged.
\<close>

definition call1_transmit :: "marshall \<Rightarrow> rpcc \<Rightarrow> u8 option list list \<times> rpcc" where
  "call1_transmit req c =
     (if \<not> c_reachable c then ([], c)
      else
        let (forgot, c) =
          (if request_isvalid (c_dup_req c) \<and> dr_xid (c_dup_req c) <s c_xid_rep_done c
           then (c_dup_req c, c\<lparr>c_dup_req := request_clear\<rparr>)
           else (request_clear, c)) in
        ((if request_isvalid forgot then [dr_buf forgot] else []) @ [take (m_ind req) (m_buf req)], c))"

definition rpcc_got_pdu :: "u8 option list \<Rightarrow> nat \<Rightarrow> rpcc \<Rightarrow> rpcc res" where
  "rpcc_got_pdu b sz c =
     bindR (unpack_reply_header (unmarshall_of_buf b sz)) (\<lambda>(h, rep).
       if \<not> u_ok rep then Inr c
       else
         bindR (update_xid_rep (rp_xid h) (c_xid_rep_window c)) (\<lambda>w.
           let c = c\<lparr>c_xid_rep_window := w\<rparr> in
           case c_calls c (rp_xid h) of
             None \<Rightarrow> Inr c
           | Some ca \<Rightarrow>
               if ca_done ca then Inr c
               else Inr (c\<lparr>c_calls := (c_calls c)(rp_xid h \<mapsto>
                      ca\<lparr>ca_un := fst (take_in (ca_un ca) rep), ca_intret := Some (rp_ret h),
                         ca_done := True\<rparr>)\<rparr>)))"

text \<open>
  The end of \<^verbatim>\<open>call1\<close>, after a reply or the final deadline: the block that takes the call out of
  the table (\<open>ca\<close> is the caller object on the thread's stack, which the table points to), the
  block of the lossy test mode, and the value returned.
\<close>

definition call1_end :: "u32 \<Rightarrow> rpcc \<Rightarrow> (caller \<times> rpcc) res" where
  "call1_end xid c =
     (case c_calls c xid of None \<Rightarrow> Inl NullDeref
      | Some ca \<Rightarrow>
         bindR (update_xid_rep xid (c_xid_rep_window c)) (\<lambda>w.
           Inr (ca, c\<lparr>c_calls := (c_calls c)(xid := None), c_xid_rep_window := w\<rparr>)))"

definition call1_remember :: "caller \<Rightarrow> i32 \<Rightarrow> marshall \<Rightarrow> rpcc \<Rightarrow> rpcc" where
  "call1_remember ca xid_rep req c =
     (if ca_done ca \<and> c_lossytest c \<noteq> 0
      then let c = (if \<not> request_isvalid (c_dup_req c)
                    then c\<lparr>c_dup_req := \<lparr>dr_buf = take (m_ind req) (m_buf req), dr_xid = ca_xid ca\<rparr>\<rparr>
                    else c)
           in if c_xid_rep_done c <s xid_rep then c\<lparr>c_xid_rep_done := xid_rep\<rparr> else c
      else c)"

definition call1_ret :: "caller \<Rightarrow> i32 res" where
  "call1_ret ca =
     (if ca_done ca
      then case ca_intret ca of None \<Rightarrow> Inl UninitRead | Some r \<Rightarrow> Inr r
      else Inr timeout_failure)"

text \<open>
  The \<^verbatim>\<open>while (1)\<close> loop of \<^verbatim>\<open>call1\<close>. One \<open>call_obs\<close> is what one iteration sees of its surroundings:
  whether \<^verbatim>\<open>get_refconn\<close> has a channel, the clock, whether the reply has come when the wait starts
  and when it ends, and whether the channel is dead after it. A deadline that is no valid
  timespec makes \<^verbatim>\<open>pthread_cond_timedwait\<close> fail at once, with the mutex of the call held: the
  inner loop then spins, and the reply can never be delivered. The result counts the requests
  sent and is None when the observations end before the loop does.
\<close>

record call_obs =
  ob_chan :: bool
  ob_now :: timespec
  ob_ready :: bool
  ob_done :: bool
  ob_dead :: bool

definition to_max :: int where "to_max = 120000"

definition to_min :: int where "to_min = 1000"

fun call1_loop ::
  "bool \<Rightarrow> bool \<Rightarrow> int \<Rightarrow> bool \<Rightarrow> bool \<Rightarrow> timespec \<Rightarrow> nat \<Rightarrow> call_obs list \<Rightarrow> (bool \<times> nat) option res" where
  "call1_loop retrans reachable curr_to transmit ch finaldeadline sent [] = Inr None"
| "call1_loop retrans reachable curr_to transmit ch finaldeadline sent (ob # obs) =
     (let ch = (if transmit then ch \<or> ob_chan ob else ch);
          sent = (if transmit \<and> ch \<and> reachable then sent + 1 else sent) in
      if tv_sec finaldeadline = 0 then Inr (Some (False, sent))
      else
        bindR (add_timespec (ob_now ob) curr_to) (\<lambda>nextdeadline.
          let (nextdeadline, finaldeadline) =
                (if cmp_timespec nextdeadline finaldeadline > 0
                 then (finaldeadline, finaldeadline\<lparr>tv_sec := 0\<rparr>) else (nextdeadline, finaldeadline)) in
          if ob_ready ob then Inr (Some (True, sent))
          else if tv_nsec nextdeadline \<ge> 1000000000 then Inl Deadlock
          else if ob_done ob then Inr (Some (True, sent))
          else call1_loop retrans reachable (2 * curr_to)
                 (retrans \<and> (\<not> ch \<or> ob_dead ob)) ch finaldeadline sent obs))"

definition call1_wait :: "bool \<Rightarrow> bool \<Rightarrow> int \<Rightarrow> timespec \<Rightarrow> call_obs list \<Rightarrow> (bool \<times> nat) option res" where
  "call1_wait retrans reachable to now obs =
     bindR (add_timespec now to) (\<lambda>finaldeadline.
       call1_loop retrans reachable to_min True False finaldeadline 0 obs)"

text \<open>
  \<^verbatim>\<open>cancel\<close> fails every caller in the table and then waits, with \<^verbatim>\<open>destroy_wait_\<close> set, until the
  table is empty.
\<close>

definition rpcc_cancel :: "rpcc \<Rightarrow> rpcc" where
  "rpcc_cancel c =
     (let c' = c\<lparr>c_calls := (\<lambda>x. map_option (\<lambda>ca. ca\<lparr>ca_done := True, ca_intret := Some cancel_failure\<rparr>) (c_calls c x))\<rparr>
      in if c_calls c = Map.empty then c' else c'\<lparr>c_destroy_wait := True\<rparr>)"

text \<open>\<^verbatim>\<open>bind\<close> after its call returned \<open>ret\<close> with result \<open>r\<close>.\<close>

definition rpcc_bind :: "i32 \<Rightarrow> u32 \<Rightarrow> rpcc \<Rightarrow> i32 \<times> rpcc" where
  "rpcc_bind ret r c =
     (if ret = 0 then (ret, c\<lparr>c_bind_done := True, c_srv_nonce := r\<rparr>) else (ret, c))"

definition rpcc_set_reachable :: "bool \<Rightarrow> rpcc \<Rightarrow> rpcc" where
  "rpcc_set_reachable r c = c\<lparr>c_reachable := r\<rparr>"

section \<open>Interleaving of the operations\<close>

text \<open>
  Replies name a call the client has made, and the client makes fewer than \<open>2^32 - 1\<close> calls.
\<close>

inductive rpcc_step :: "rpcc \<Rightarrow> rpcc \<Rightarrow> bool" where
  step_begin: "call1_begin proc req rep c = Inr (r, c') \<Longrightarrow> c_xid c < - 1 \<Longrightarrow> rpcc_step c c'"
| step_transmit: "rpcc_step c (snd (call1_transmit req c))"
| step_pdu: "unpack_reply_header (unmarshall_of_buf b sz) = Inr (h, u) \<Longrightarrow> rp_xid h < c_xid c
    \<Longrightarrow> rpcc_got_pdu b sz c = Inr c' \<Longrightarrow> rpcc_step c c'"
| step_end: "call1_end xid c = Inr (ca, c') \<Longrightarrow> rpcc_step c c'"
| step_remember: "rpcc_step c (call1_remember ca xid_rep req c)"
| step_cancel: "rpcc_step c (rpcc_cancel c)"
| step_bind: "rpcc_step c (snd (rpcc_bind ret r c))"
| step_reachable: "rpcc_step c (rpcc_set_reachable r c)"

inductive rpcc_reachable :: "rpcc \<Rightarrow> bool" where
  reach_init: "rpcc_reachable (rpcc_new rnd loss retrans)"
| reach_step: "rpcc_reachable c \<Longrightarrow> rpcc_step c c' \<Longrightarrow> rpcc_reachable c'"

inductive_cases rpcc_stepE: "rpcc_step c c'"

section \<open>Time arithmetic\<close>

definition ts_ns :: "timespec \<Rightarrow> int" where
  "ts_ns t = tv_sec t * 1000000000 + tv_nsec t"

lemma carry_nsec_ns [simp]: "ts_ns (carry_nsec t) = ts_ns t"
  by (induction t rule: carry_nsec.induct)
     (subst carry_nsec.simps, auto simp: ts_ns_def algebra_simps)

lemma carry_nsec_range:
  "0 \<le> tv_nsec t \<Longrightarrow> 0 \<le> tv_nsec (carry_nsec t) \<and> tv_nsec (carry_nsec t) \<le> 1000000000"
  by (induction t rule: carry_nsec.induct) (subst (1 2) carry_nsec.simps, auto)

lemma carry_nsec_pos: "0 \<le> tv_nsec t \<Longrightarrow> 0 < tv_nsec (carry_nsec t) \<longleftrightarrow> 0 < tv_nsec t"
  by (induction t rule: carry_nsec.induct) (subst carry_nsec.simps, auto)

lemma sdiv_smod_nonneg:
  fixes b :: int
  assumes "0 \<le> b"
  shows "b sdiv 1000 = b div 1000" "b smod 1000 = b mod 1000"
  using assms by (auto simp: signed_divide_int_def signed_modulo_int_def sgn_if minus_div_mult_eq_mod)

lemma ms_split: "b div 1000 * 1000000000 + b mod 1000 * 1000000 = b * (1000000 :: int)"
  by presburger

lemma add_timespec_later:
  assumes "0 \<le> tv_nsec a" "0 \<le> b"
  obtains r where "add_timespec a b = Inr r" "ts_ns r = ts_ns a + b * 1000000"
    "0 \<le> tv_nsec r" "tv_nsec r \<le> 1000000000"
    "0 < tv_nsec r \<longleftrightarrow> 0 < tv_nsec a + (b mod 1000) * 1000000"
    "b mod 1000 = 0 \<and> tv_nsec a < 1000000000 \<longrightarrow> tv_nsec r < 1000000000"
proof
  let ?t = "\<lparr>tv_sec = tv_sec a + b div 1000, tv_nsec = tv_nsec a + (b mod 1000) * 1000000\<rparr>"
  let ?r = "carry_nsec ?t"
  have n: "0 \<le> tv_nsec ?t"
    using assms by simp
  show "add_timespec a b = Inr ?r"
    using n assms by (simp add: add_timespec_def Let_def sdiv_smod_nonneg)
  show "ts_ns ?r = ts_ns a + b * 1000000"
    using ms_split [of b] unfolding carry_nsec_ns by (simp add: ts_ns_def)
  show "0 \<le> tv_nsec ?r" "tv_nsec ?r \<le> 1000000000"
    using carry_nsec_range [OF n] by auto
  show "0 < tv_nsec ?r \<longleftrightarrow> 0 < tv_nsec a + (b mod 1000) * 1000000"
    using carry_nsec_pos [OF n] by simp
  show "b mod 1000 = 0 \<and> tv_nsec a < 1000000000 \<longrightarrow> tv_nsec ?r < 1000000000"
    by (simp add: carry_nsec.simps)
qed

text \<open>
  Adding a timeout in milliseconds to a point in time gives exactly that later instant, with a
  nanosecond part between 0 and 10^9; it is 10^9 itself, which is no valid nanosecond part for
  \<^verbatim>\<open>pthread_cond_timedwait\<close>, exactly when the nanoseconds add up to a positive multiple of 10^9.
\<close>

theorem add_timespec_exact:
  assumes "0 \<le> tv_nsec a" "0 \<le> b"
  shows "\<exists>r. add_timespec a b = Inr r \<and> ts_ns r = ts_ns a + b * 1000000
           \<and> 0 \<le> tv_nsec r \<and> tv_nsec r \<le> 1000000000
           \<and> (tv_nsec r = 1000000000 \<longleftrightarrow>
                0 < tv_nsec a + (b mod 1000) * 1000000
                \<and> (tv_nsec a + (b mod 1000) * 1000000) mod 1000000000 = 0)"
proof -
  obtain r where r: "add_timespec a b = Inr r" "ts_ns r = ts_ns a + b * 1000000"
    "0 \<le> tv_nsec r" "tv_nsec r \<le> 1000000000"
    "0 < tv_nsec r \<longleftrightarrow> 0 < tv_nsec a + (b mod 1000) * 1000000"
    using assms by (rule add_timespec_later)
  have "tv_nsec r = 1000000000 \<longleftrightarrow> 0 < tv_nsec r \<and> tv_nsec r mod 1000000000 = 0"
    using r(3,4) by (auto simp: mod_eq_0_iff_dvd dest: zdvd_imp_le)
  moreover have "tv_nsec r = tv_nsec a + (b mod 1000) * 1000000
      + (tv_sec a + b div 1000 - tv_sec r) * 1000000000"
    using r(2) ms_split [of b] unfolding ts_ns_def by (simp add: algebra_simps)
  then have "tv_nsec r mod 1000000000 = (tv_nsec a + (b mod 1000) * 1000000) mod 1000000000"
    by (metis mod_mult_self1)
  ultimately show ?thesis
    using r by auto
qed

theorem add_timespec_exact_witness:
  "\<exists>r. add_timespec \<lparr>tv_sec = 7, tv_nsec = 500000000\<rparr> 500 = Inr r \<and> tv_nsec r = 1000000000"
  using add_timespec_exact [of "\<lparr>tv_sec = 7, tv_nsec = 500000000\<rparr>" 500] by auto

section \<open>The wait loop of a call\<close>

lemma cmp_timespec_later:
  assumes "ts_ns b + 1000000000 < ts_ns a" "tv_nsec a \<le> 1000000000" "0 \<le> tv_nsec b"
  shows "cmp_timespec a b = 1"
proof -
  have "tv_sec b < tv_sec a"
    using assms unfolding ts_ns_def by linarith
  then show ?thesis by (simp add: cmp_timespec_def)
qed

lemma call1_loop_final:
  assumes "tv_sec final = 0" "obs \<noteq> []"
  shows "\<exists>r k. k \<le> Suc sent \<and>
    call1_loop retrans reachable cto transmit ch final sent obs = Inr (Some (r, k))"
proof -
  obtain ob obs' where "obs = ob # obs'"
    using assms(2) by (cases obs) auto
  then show ?thesis
    using assms(1) by (auto simp: Let_def)
qed

lemma call1_loop_round:
  assumes nd: "add_timespec (ob_now ob) cto = Inr nd"
    and valid: "tv_nsec nd < 1000000000" "tv_nsec final < 1000000000"
    and IH: "\<And>t c s. s \<le> Suc sent \<Longrightarrow> \<exists>r k. k \<le> n + s \<and>
      call1_loop retrans reachable (2 * cto) t c
        (if cmp_timespec nd final > 0 then final\<lparr>tv_sec := 0\<rparr> else final) s obs = Inr (Some (r, k))"
  shows "\<exists>r k. k \<le> Suc (n + sent) \<and>
    call1_loop retrans reachable cto transmit ch final sent (ob # obs) = Inr (Some (r, k))"
proof -
  let ?ch = "if transmit then ch \<or> ob_chan ob else ch"
  let ?s = "if transmit \<and> ?ch \<and> reachable then sent + 1 else sent"
  have s: "?s \<le> Suc sent"
    by simp
  obtain r k where rk: "k \<le> n + ?s" "call1_loop retrans reachable (2 * cto)
      (retrans \<and> (\<not> ?ch \<or> ob_dead ob)) ?ch
        (if cmp_timespec nd final > 0 then final\<lparr>tv_sec := 0\<rparr> else final) ?s obs = Inr (Some (r, k))"
    using IH [OF s] by blast
  have le: "k \<le> Suc (n + sent)" "?s \<le> Suc (n + sent)"
    using rk(1) s by linarith+
  consider "tv_sec final = 0" | "tv_sec final \<noteq> 0" "ob_ready ob \<or> ob_done ob"
    | "tv_sec final \<noteq> 0" "\<not> ob_ready ob" "\<not> ob_done ob"
    by blast
  then show ?thesis
  proof cases
    case 1
    then show ?thesis using le(2) by (simp only: call1_loop.simps Let_def) auto
  next
    case 2
    then show ?thesis using le(2) valid by (simp only: call1_loop.simps Let_def nd bindR.simps) auto
  next
    case 3
    then have "call1_loop retrans reachable cto transmit ch final sent (ob # obs) = Inr (Some (r, k))"
      using rk(2) valid by (cases "cmp_timespec nd final > 0") (simp_all only: call1_loop.simps Let_def nd bindR.simps if_False if_True split prod.case, simp_all)
    then show ?thesis
      using le(1) by blast
  qed
qed

text \<open>
  When doubling the current timeout \<open>d\<close> times passes the final deadline by a second, the loop ends
  within \<open>d + 2\<close> rounds, each of which sends at most one request.
\<close>

lemma call1_loop_ends:
  assumes "\<forall>ob \<in> set obs. 0 \<le> tv_nsec (ob_now ob) \<and> tv_nsec (ob_now ob) < 1000000000 \<and> start \<le> ts_ns (ob_now ob)"
    and "ts_ns final \<le> start + to * 1000000" "0 \<le> tv_nsec final" "tv_nsec final < 1000000000"
    and "to + 1000 < cto * 2 ^ d" "0 \<le> cto" "cto mod 1000 = 0" "d + 2 \<le> length obs"
  shows "\<exists>r k. k \<le> d + 2 + sent \<and>
    call1_loop retrans reachable cto transmit ch final sent obs = Inr (Some (r, k))"
  using assms
proof (induction d arbitrary: obs cto transmit ch final sent)
  case 0
  obtain ob obs' where obs: "obs = ob # obs'" "obs' \<noteq> []"
    using 0(8) by (cases obs) (auto simp: Suc_le_eq)
  then have clock: "0 \<le> tv_nsec (ob_now ob)" "tv_nsec (ob_now ob) < 1000000000"
    and later: "start \<le> ts_ns (ob_now ob)"
    using 0(1) by auto
  obtain nd where nd: "add_timespec (ob_now ob) cto = Inr nd"
      "ts_ns nd = ts_ns (ob_now ob) + cto * 1000000" "tv_nsec nd \<le> 1000000000"
      "cto mod 1000 = 0 \<and> tv_nsec (ob_now ob) < 1000000000 \<longrightarrow> tv_nsec nd < 1000000000"
    using clock(1) \<open>0 \<le> cto\<close> by (rule add_timespec_later)
  have valid: "tv_nsec nd < 1000000000"
    using nd(4) 0(7) clock(2) by simp
  have "cmp_timespec nd final = 1"
    using nd(2,3) 0(2,3,5) later by (intro cmp_timespec_later) auto
  then have "\<exists>r k. k \<le> Suc (1 + sent) \<and>
    call1_loop retrans reachable cto transmit ch final sent (ob # obs') = Inr (Some (r, k))"
    using obs(2) by (intro call1_loop_round [OF nd(1) valid 0(4)]) (simp add: call1_loop_final)
  then show ?case
    unfolding obs by simp
next
  case (Suc d)
  obtain ob obs' where obs: "obs = ob # obs'" "d + 2 \<le> length obs'"
    using Suc.prems(8) by (cases obs) auto
  then have clock: "0 \<le> tv_nsec (ob_now ob)" "tv_nsec (ob_now ob) < 1000000000"
    using Suc.prems(1) by auto
  obtain nd where nd: "add_timespec (ob_now ob) cto = Inr nd"
      "cto mod 1000 = 0 \<and> tv_nsec (ob_now ob) < 1000000000 \<longrightarrow> tv_nsec nd < 1000000000"
    using clock(1) \<open>0 \<le> cto\<close> by (rule add_timespec_later)
  have valid: "tv_nsec nd < 1000000000"
    using nd(2) Suc.prems(7) clock(2) by simp
  have "\<exists>r k. k \<le> Suc (d + 2 + sent) \<and>
    call1_loop retrans reachable cto transmit ch final sent (ob # obs') = Inr (Some (r, k))"
  proof (rule call1_loop_round [OF nd(1) valid Suc.prems(4)])
    fix t c s
    show "\<exists>r k. k \<le> d + 2 + s \<and> call1_loop retrans reachable (2 * cto) t c
        (if cmp_timespec nd final > 0 then final\<lparr>tv_sec := 0\<rparr> else final) s obs' = Inr (Some (r, k))"
    proof (cases "cmp_timespec nd final > 0")
      case True
      then obtain r k where "k \<le> Suc s" "call1_loop retrans reachable (2 * cto) t c
          (if cmp_timespec nd final > 0 then final\<lparr>tv_sec := 0\<rparr> else final) s obs' = Inr (Some (r, k))"
        using call1_loop_final [of "final\<lparr>tv_sec := 0\<rparr>" obs' s retrans reachable "2 * cto" t c] obs(2)
        by fastforce
      then show ?thesis
        by (intro exI [of _ r] exI [of _ k]) simp
    next
      case False
      have "to + 1000 < 2 * cto * 2 ^ d"
        using Suc.prems(5) by (simp add: ac_simps)
      moreover have "2 * cto mod 1000 = 0"
        using Suc.prems(7) by (simp only: mod_eq_0_iff_dvd dvd_mult)
      ultimately show ?thesis
        using False Suc.prems obs Suc.IH [of obs' final "2 * cto" s t c] by simp
    qed
  qed
  then show ?case
    unfolding obs by simp
qed



text \<open>
  With a timeout below a second whose nanoseconds add up with those of the clock to 10^9, a
  call that has no reply when it starts to wait for its final deadline never returns.
\<close>

theorem call1_wait_spins:
  assumes "0 \<le> tv_nsec now" "0 < to" "to < 1000" "tv_nsec now + to * 1000000 = 1000000000"
    and "0 < tv_sec now" "ob_now ob = now" "\<not> ob_ready ob"
  shows "call1_wait retrans reachable to now (ob # obs) = Inl Deadlock"
proof -
  let ?final = "\<lparr>tv_sec = tv_sec now, tv_nsec = 1000000000\<rparr>"
  have f: "add_timespec now to = Inr ?final"
    using assms by (simp add: add_timespec_def sdiv_smod_nonneg carry_nsec.simps)
  have n: "add_timespec now 1000 = Inr \<lparr>tv_sec = tv_sec now + 1, tv_nsec = tv_nsec now\<rparr>"
    using assms by (simp add: add_timespec_def sdiv_smod_nonneg carry_nsec.simps)
  have "cmp_timespec \<lparr>tv_sec = tv_sec now + 1, tv_nsec = tv_nsec now\<rparr> ?final = 1"
    by (simp add: cmp_timespec_def)
  then show ?thesis
    using f n assms(5-7) by (simp add: call1_wait_def to_min_def)
qed

theorem call1_wait_spins_witness:
  "call1_wait True True 500 \<lparr>tv_sec = 7, tv_nsec = 500000000\<rparr>
     [\<lparr>ob_chan = True, ob_now = \<lparr>tv_sec = 7, tv_nsec = 500000000\<rparr>, ob_ready = False,
       ob_done = True, ob_dead = False\<rparr>] = Inl Deadlock"
  by (rule call1_wait_spins) simp_all

section \<open>The acknowledged calls\<close>

text \<open>
  \<open>acked w\<close> is what a window stands for. A window is well formed when it is sorted, not empty,
  and compressed: the identifier after its front is missing.
\<close>

definition acked :: "u32 list \<Rightarrow> u32 set" where
  "acked w = {x. x \<le> hd w} \<union> set w"

definition window_inv :: "u32 list \<Rightarrow> bool" where
  "window_inv w \<longleftrightarrow> w \<noteq> [] \<and> sorted w \<and> hd w + 1 \<notin> set w"

lemma u32_succ_le:
  fixes x y :: u32
  assumes "x < y"
  shows "x + 1 \<le> y" "x < x + 1"
proof -
  have "unat x + 1 < 2 ^ 32"
    using assms unsigned_less [of y, where 'a = nat] by (simp add: word_less_nat_alt)
  then have "unat (x + 1) = unat x + 1"
    by (simp add: unat_word_ariths)
  then show "x + 1 \<le> y" "x < x + 1"
    using assms by (simp_all add: word_less_nat_alt word_le_nat_alt)
qed

lemma set_xid_insert [simp]: "set (xid_insert x w) = insert x (set w)"
  by (induction w) auto

lemma xid_insert_sorted: "sorted w \<Longrightarrow> sorted (xid_insert x w)"
  by (induction w) (auto simp: not_less)

lemma xid_insert_hd: "w \<noteq> [] \<Longrightarrow> hd w < x \<Longrightarrow> \<exists>ts. xid_insert x w = hd w # ts"
  by (cases w) auto

lemma pop_front_all: "\<forall>p \<in> set pre. p + 1 = t \<Longrightarrow> pop_front_while t pre = []"
  by (induction pre) auto

lemma pop_front_none: "pre \<noteq> [] \<Longrightarrow> hd pre + 1 \<noteq> t \<Longrightarrow> pop_front_while t pre = pre"
  by (cases pre) auto

lemma compress_step:
  assumes "window_inv pre" "sorted (pre @ [t])"
  shows "window_inv (pop_front_while t pre @ [t])"
    and "acked (pop_front_while t pre @ [t]) = insert t (acked pre)"
    and "set (pop_front_while t pre) \<subseteq> set pre"
proof -
  have pre: "pre \<noteq> []" "sorted pre" "hd pre + 1 \<notin> set pre" and le: "\<forall>p \<in> set pre. p \<le> t"
    using assms by (auto simp: window_inv_def sorted_append)
  have *: "window_inv (pop_front_while t pre @ [t])
    \<and> acked (pop_front_while t pre @ [t]) = insert t (acked pre)
    \<and> set (pop_front_while t pre) \<subseteq> set pre"
  proof (cases "hd pre + 1 = t")
    case True
    have eq: "p = hd pre" if "p \<in> set pre" for p
    proof (rule ccontr)
      assume "p \<noteq> hd pre"
      moreover have "hd pre \<le> p"
        using pre that by (cases pre) auto
      ultimately have "hd pre < p"
        by simp
      then have "hd pre + 1 \<le> p"
        by (rule u32_succ_le)
      then show False
        using True le that pre(3) by (metis order.antisym)
    qed
    then have "pop_front_while t pre = []"
      using True by (intro pop_front_all) auto
    moreover have "acked pre = {x. x \<le> hd pre}"
      using eq by (auto simp: acked_def)
    moreover have "{x. x \<le> t} = insert t {x. x \<le> hd pre}"
    proof (intro set_eqI iffI)
      fix x assume "x \<in> {x. x \<le> t}"
      then show "x \<in> insert t {x. x \<le> hd pre}"
        using True u32_succ_le(1) [of "hd pre" x] by (auto simp: not_le intro: ccontr)
    next
      fix x assume "x \<in> insert t {x. x \<le> hd pre}"
      moreover have "hd pre \<le> t"
        using le pre(1) by simp
      ultimately show "x \<in> {x. x \<le> t}"
        by auto
    qed
    ultimately show ?thesis
      by (auto simp: window_inv_def acked_def)
  next
    case False
    then have "pop_front_while t pre = pre"
      using pre(1) by (rule pop_front_none [rotated])
    then show ?thesis
      using pre assms(2) False by (auto simp: window_inv_def acked_def)
  qed
  then show "window_inv (pop_front_while t pre @ [t])"
    "acked (pop_front_while t pre @ [t]) = insert t (acked pre)"
    "set (pop_front_while t pre) \<subseteq> set pre"
    by blast+
qed

lemma compress_window:
  assumes "window_inv pre" "sorted (pre @ ts)"
  shows "window_inv (compress pre ts) \<and> acked (compress pre ts) = acked pre \<union> set ts"
  using assms
proof (induction ts arbitrary: pre)
  case Nil
  then show ?case by simp
next
  case (Cons t ts)
  have s: "sorted (pre @ [t])"
    using Cons.prems(2) by (auto simp: sorted_append)
  note step = compress_step [OF Cons.prems(1) s]
  have "sorted ((pop_front_while t pre @ [t]) @ ts)"
    using Cons.prems(2) step(1,3) unfolding window_inv_def by (auto simp: sorted_append)
  from Cons.IH [OF step(1) this] show ?case
    using step(2) by auto
qed

lemma update_xid_rep_window:
  assumes "window_inv w"
  obtains w' where "update_xid_rep xid w = Inr w'" "window_inv w'" "acked w' = insert xid (acked w)"
proof (cases "xid \<le> hd w")
  case True
  then have "update_xid_rep xid w = Inr w" "acked w = insert xid (acked w)"
    using assms by (auto simp: update_xid_rep_def window_inv_def acked_def split: list.splits)
  then show ?thesis
    using that assms by blast
next
  case False
  have w: "w \<noteq> []" "sorted w"
    using assms by (auto simp: window_inv_def)
  obtain ts where ts: "xid_insert xid w = hd w # ts"
    using xid_insert_hd [of w xid] w(1) False by (auto simp: not_le)
  have upd: "update_xid_rep xid w = Inr (compress [hd w] ts)"
    using w(1) False ts by (auto simp: update_xid_rep_def split: list.splits)
  have "window_inv (compress [hd w] ts) \<and> acked (compress [hd w] ts) = acked [hd w] \<union> set ts"
    by (rule compress_window) (use xid_insert_sorted [OF w(2), of xid] in \<open>auto simp: window_inv_def ts\<close>)
  moreover have "acked [hd w] \<union> set ts = insert xid (acked w)"
    using set_xid_insert [of xid w] w(1) unfolding ts acked_def by auto
  ultimately show ?thesis
    using that upd by auto
qed

text \<open>The window after a sequence of acknowledgements.\<close>

fun update_xid_reps :: "u32 list \<Rightarrow> u32 list \<Rightarrow> u32 list res" where
  "update_xid_reps [] w = Inr w"
| "update_xid_reps (x # xs) w = bindR (update_xid_rep x w) (update_xid_reps xs)"

lemma update_xid_reps_window:
  "window_inv w \<Longrightarrow>
   \<exists>w'. update_xid_reps xs w = Inr w' \<and> window_inv w' \<and> acked w' = set xs \<union> acked w"
proof (induction xs arbitrary: w)
  case (Cons x xs)
  obtain w1 where w1: "update_xid_rep x w = Inr w1" "window_inv w1" "acked w1 = insert x (acked w)"
    using Cons.prems by (rule update_xid_rep_window)
  then show ?case
    using Cons.IH [OF w1(2)] by auto
qed simp

lemma acked_prefix:
  assumes "window_inv w"
  shows "x \<le> hd w \<longleftrightarrow> (\<forall>y \<le> x. y \<in> acked w)"
proof
  assume all: "\<forall>y \<le> x. y \<in> acked w"
  show "x \<le> hd w"
  proof (rule ccontr)
    assume "\<not> x \<le> hd w"
    then have "hd w + 1 \<le> x" "hd w < hd w + 1"
      using u32_succ_le [of "hd w" x] by auto
    with all have "hd w + 1 \<in> acked w" "\<not> hd w + 1 \<le> hd w"
      by auto
    then show False
      using assms by (simp add: acked_def window_inv_def)
  qed
qed (auto simp: acked_def)

text \<open>
  C11: After any sequence of acknowledgements, in any order and with repetitions, the front of the
  window (the \<^verbatim>\<open>xid_rep\<close> a request carries) is the greatest identifier up to which every call
  has been acknowledged: the client never tells the server to forget a reply it has not seen,
  and never withholds one it could give up.
\<close>

theorem xid_rep_window_front:
  "\<exists>w. update_xid_reps xs [0] = Inr w \<and> w \<noteq> []
     \<and> (\<forall>x. x \<le> hd w \<longleftrightarrow> (\<forall>y \<le> x. y = 0 \<or> y \<in> set xs))"
proof -
  have "window_inv [0]"
    by (simp add: window_inv_def)
  then obtain w where w: "update_xid_reps xs [0] = Inr w" "window_inv w" "acked w = set xs \<union> acked [0]"
    using update_xid_reps_window by blast
  have "acked [0 :: u32] = {0}"
    by (auto simp: acked_def)
  then show ?thesis
    using w acked_prefix [OF w(2)] by (auto simp: window_inv_def)
qed

theorem xid_rep_window_front_witness:
  "\<exists>w. update_xid_reps [3, 1, 2, 5, 3] [0] = Inr w \<and> hd w = 3"
proof -
  obtain w where w: "update_xid_reps [3, 1, 2, 5, 3] [0] = Inr w"
     "\<forall>x. x \<le> hd w \<longleftrightarrow> (\<forall>y \<le> x. y = 0 \<or> y \<in> set [3, 1, 2, 5, 3])"
    using xid_rep_window_front [of "[3, 1, 2, 5, 3]"] by blast
  moreover have "update_xid_reps [3, 1, 2, 5, 3] [0] = Inr [3, 5]"
    by code_simp
  ultimately show ?thesis
    by auto
qed

section \<open>Invariant of the client\<close>

text \<open>
  No pending call is acknowledged, every identifier in use is one the client has handed out,
  and a finished call has its return value.
\<close>

definition rpcc_inv :: "rpcc \<Rightarrow> bool" where
  "rpcc_inv c \<longleftrightarrow>
     window_inv (c_xid_rep_window c) \<and> 0 < c_xid c
     \<and> (\<forall>x \<in> acked (c_xid_rep_window c). x < c_xid c)
     \<and> (\<forall>x ca. c_calls c x = Some ca \<longrightarrow> x < c_xid c \<and> ca_xid ca = x
          \<and> (ca_done ca \<longrightarrow> ca_intret ca \<noteq> None)
          \<and> (\<not> ca_done ca \<longrightarrow> x \<notin> acked (c_xid_rep_window c)))"

lemma rpcc_inv_new: "rpcc_inv (rpcc_new rnd loss retrans)"
  by (auto simp: rpcc_inv_def rpcc_new_def window_inv_def acked_def)

lemma call1_begin_inv:
  assumes "rpcc_inv c" "call1_begin proc req rep c = Inr (r, c')" "c_xid c < - 1"
  shows "rpcc_inv c'"
proof -
  have lt: "c_xid c < c_xid c + 1"
    using u32_succ_le(2) [OF assms(3)] .
  then have less: "x < c_xid c + 1" if "x < c_xid c" for x
    using that by order
  have pos: "0 < c_xid c + 1"
    by (rule less) (use assms(1) in \<open>simp add: rpcc_inv_def\<close>)
  have fresh: "c_xid c \<notin> acked (c_xid_rep_window c)"
    using assms(1) by (auto simp: rpcc_inv_def)
  have "c' = c \<or> c' = c\<lparr>c_xid := c_xid c + 1,
      c_calls := (c_calls c)(c_xid c \<mapsto> caller_new (c_xid c) rep)\<rparr>"
    using assms(2) by (auto simp: call1_begin_def Let_def returns split: if_splits list.splits)
  then show ?thesis
    using assms(1) lt less pos fresh by (auto simp: rpcc_inv_def caller_new_def split: if_splits)
qed

lemma rpcc_got_pdu_cases:
  assumes "rpcc_inv c" "unpack_reply_header (unmarshall_of_buf b sz) = Inr (h, u)"
    and "rpcc_got_pdu b sz c = Inr c'"
  obtains "\<not> u_ok u" "c' = c"
  | w where "u_ok u" "update_xid_rep (rp_xid h) (c_xid_rep_window c) = Inr w"
      "c_xid_rep_window c' = w" "c_xid c' = c_xid c"
      "\<And>x. x \<noteq> rp_xid h \<Longrightarrow> c_calls c' x = c_calls c x"
      "\<And>ca. c_calls c (rp_xid h) = Some ca \<Longrightarrow> ca_done ca \<Longrightarrow> c_calls c' (rp_xid h) = Some ca"
      "\<And>ca. c_calls c (rp_xid h) = Some ca \<Longrightarrow> \<not> ca_done ca \<Longrightarrow> c_calls c' (rp_xid h) =
         Some (ca\<lparr>ca_un := fst (take_in (ca_un ca) u), ca_intret := Some (rp_ret h), ca_done := True\<rparr>)"
      "c_calls c (rp_xid h) = None \<Longrightarrow> c_calls c' (rp_xid h) = None"
proof (cases "u_ok u")
  case False
  then show ?thesis
    using that(1) assms by (simp add: rpcc_got_pdu_def)
next
  case True
  have "window_inv (c_xid_rep_window c)"
    using assms(1) by (simp add: rpcc_inv_def)
  then obtain w where "update_xid_rep (rp_xid h) (c_xid_rep_window c) = Inr w"
    by (rule update_xid_rep_window)
  then show ?thesis
    using that(2) [of w] True assms(2,3)
    by (auto simp: rpcc_got_pdu_def Let_def split: option.splits if_splits)
qed

lemma rpcc_got_pdu_inv:
  assumes "rpcc_inv c" "unpack_reply_header (unmarshall_of_buf b sz) = Inr (h, u)"
    and "rp_xid h < c_xid c" "rpcc_got_pdu b sz c = Inr c'"
  shows "rpcc_inv c'"
  using assms(1,2,4)
proof (cases rule: rpcc_got_pdu_cases)
  case 1
  then show ?thesis using assms(1) by simp
next
  case (2 w)
  have "window_inv (c_xid_rep_window c)"
    using assms(1) by (simp add: rpcc_inv_def)
  then have w: "window_inv w" "acked w = insert (rp_xid h) (acked (c_xid_rep_window c))"
    using update_xid_rep_window [of "c_xid_rep_window c" "rp_xid h"] 2(2) by auto
  have old: "x < c_xid c \<and> ca_xid ca = x \<and> (ca_done ca \<longrightarrow> ca_intret ca \<noteq> None)
      \<and> (\<not> ca_done ca \<longrightarrow> x \<notin> acked (c_xid_rep_window c))" if "c_calls c x = Some ca" for x ca
    using assms(1) that by (auto simp: rpcc_inv_def)
  have new: "x < c_xid c \<and> ca_xid ca = x \<and> (ca_done ca \<longrightarrow> ca_intret ca \<noteq> None)
      \<and> (\<not> ca_done ca \<longrightarrow> x \<notin> acked w)" if ca: "c_calls c' x = Some ca" for x ca
  proof (cases "x = rp_xid h")
    case True
    then show ?thesis
      using ca 2(6-8) old [of x]
      by (cases "c_calls c x"; cases "ca_done (the (c_calls c x))") auto
  next
    case False
    then show ?thesis
      using ca 2(5) old w(2) by auto
  qed
  show ?thesis
    unfolding rpcc_inv_def 2(3,4)
  proof (intro conjI allI impI ballI)
    show "x < c_xid c" if "x \<in> acked w" for x
      using that w(2) assms(1,3) by (auto simp: rpcc_inv_def)
  qed (use new w(1) assms(1) in \<open>simp_all add: rpcc_inv_def\<close>)
qed

lemma call1_end_inv:
  assumes "rpcc_inv c" "call1_end xid c = Inr (ca, c')"
  shows "rpcc_inv c'"
proof -
  have "window_inv (c_xid_rep_window c)"
    using assms(1) by (simp add: rpcc_inv_def)
  then obtain w where w: "update_xid_rep xid (c_xid_rep_window c) = Inr w" "window_inv w"
      "acked w = insert xid (acked (c_xid_rep_window c))"
    by (rule update_xid_rep_window)
  then have "c' = c\<lparr>c_calls := (c_calls c)(xid := None), c_xid_rep_window := w\<rparr>" "c_calls c xid = Some ca"
    using assms(2) by (auto simp: call1_end_def split: option.splits)
  then show ?thesis
    using w assms(1) by (auto simp: rpcc_inv_def split: if_splits)
qed

lemma rpcc_cancel_inv: "rpcc_inv c \<Longrightarrow> rpcc_inv (rpcc_cancel c)"
  by (auto simp: rpcc_inv_def rpcc_cancel_def Let_def)

lemma rpcc_step_inv: "rpcc_step c c' \<Longrightarrow> rpcc_inv c \<Longrightarrow> rpcc_inv c'"
proof (induction rule: rpcc_step.induct)
  case (step_transmit c req)
  then show ?case
    by (auto simp: call1_transmit_def Let_def rpcc_inv_def)
next
  case (step_remember c ca xid_rep req)
  then show ?case
    by (auto simp: call1_remember_def Let_def rpcc_inv_def)
next
  case (step_bind c ret r)
  then show ?case
    by (auto simp: rpcc_bind_def rpcc_inv_def)
next
  case (step_reachable c r)
  then show ?case
    by (auto simp: rpcc_set_reachable_def rpcc_inv_def)
qed (auto intro: call1_begin_inv rpcc_got_pdu_inv call1_end_inv rpcc_cancel_inv)

lemma rpcc_reachable_inv: "rpcc_reachable c \<Longrightarrow> rpcc_inv c"
  by (induction rule: rpcc_reachable.induct) (auto intro: rpcc_inv_new rpcc_step_inv)


text \<open>
  C32: Whatever the interleaving of calls, replies, timeouts and cancellation, a request the client
  sends carries an \<^verbatim>\<open>xid_rep\<close> that is below its own identifier and below that of every call still
  waiting for its reply, so the server keeps the reply of each of them; and ending a call that is
  in the table never reads an unset return value.
\<close>

theorem rpcc_pending_not_acked:
  assumes "rpcc_reachable c" "c_bind_done c" "\<not> c_destroy_wait c" "proc \<noteq> rpc_bind"
    and "call1_begin proc req rep c = Inr (r, c')"
  shows "\<exists>xid xid_rep req'. r = Inr (xid, xid_rep, req') \<and> xid_rep < xid
           \<and> (\<forall>x ca. c_calls c x = Some ca \<longrightarrow> x < xid \<and> (\<not> ca_done ca \<longrightarrow> xid_rep < x)
                \<and> (\<exists>v. call1_ret ca = Inr v))"
proof -
  have inv: "rpcc_inv c"
    using assms(1) by (rule rpcc_reachable_inv)
  then obtain front ts where w: "c_xid_rep_window c = front # ts"
    by (cases "c_xid_rep_window c") (auto simp: rpcc_inv_def window_inv_def)
  have "\<exists>req'. r = Inr (c_xid c, front, req')"
    using assms(2-5) w by (auto simp: call1_begin_def Let_def returns)
  moreover have "front < c_xid c"
    using inv by (simp add: rpcc_inv_def acked_def w)
  moreover have "x < c_xid c \<and> (\<not> ca_done ca \<longrightarrow> front < x) \<and> (\<exists>v. call1_ret ca = Inr v)"
    if "c_calls c x = Some ca" for x ca
    using inv that by (fastforce simp: rpcc_inv_def acked_def w call1_ret_def not_le)
  ultimately show ?thesis
    by blast
qed

definition rpcc_ex :: rpcc where
  "rpcc_ex = snd (rpcc_bind 0 77 (rpcc_new 5 0 True))"

lemma rpcc_ex_begin:
  "\<exists>r. call1_begin 2 marshall_new unmarshall_null rpcc_ex =
     Inr (r, rpcc_ex\<lparr>c_xid := 2, c_calls := [1 \<mapsto> caller_new 1 unmarshall_null]\<rparr>)"
proof -
  have "\<exists>m. pack_req_header h marshall_new = Inr m" for h
    using pack_req_header_poke [OF m_inv_new, of h] by (auto simp: marshall_new_def)
  then obtain m where "pack_req_header \<lparr>rq_xid = 1, rq_proc = 2, rq_clt_nonce = 5,
      rq_srv_nonce = 77, rq_xid_rep = 0\<rparr> marshall_new = Inr m"
    by blast
  then show ?thesis
    by (simp add: call1_begin_def rpcc_ex_def rpcc_bind_def rpcc_new_def rpc_bind_def Let_def)
qed

theorem rpcc_pending_not_acked_witness:
  "\<exists>r c'. call1_begin 2 marshall_new unmarshall_null rpcc_ex = Inr (r, c') \<and>
     (\<exists>xid xid_rep req'. r = Inr (xid, xid_rep, req') \<and> xid_rep < xid)"
proof -
  have reach: "rpcc_reachable rpcc_ex"
    unfolding rpcc_ex_def by (rule reach_step [OF reach_init step_bind])
  obtain r c' where r: "call1_begin 2 marshall_new unmarshall_null rpcc_ex = Inr (r, c')"
    using rpcc_ex_begin by blast
  moreover have "c_bind_done rpcc_ex" "\<not> c_destroy_wait rpcc_ex"
    by (simp_all add: rpcc_ex_def rpcc_bind_def rpcc_new_def)
  ultimately show ?thesis
    using rpcc_pending_not_acked [OF reach _ _ _ r] by (auto simp: rpc_bind_def)
qed

text \<open>
  A reply that arrives for a pending call is delivered to that call and to no other: it gets
  the return value of the reply header and the reply's unmarshaller, and is marked done; calls
  already done keep their result, so a duplicate reply changes nothing but the window.
\<close>

theorem rpcc_reply_delivered:
  assumes "rpcc_reachable c" "unpack_reply_header (unmarshall_of_buf b sz) = Inr (h, u)" "u_ok u"
    and "c_calls c (rp_xid h) = Some ca"
  shows "\<exists>c'. rpcc_got_pdu b sz c = Inr c'
     \<and> (\<forall>x. x \<noteq> rp_xid h \<longrightarrow> c_calls c' x = c_calls c x)
     \<and> (if ca_done ca then c_calls c' (rp_xid h) = Some ca
        else \<exists>ca'. c_calls c' (rp_xid h) = Some ca' \<and> ca_un ca' = fst (take_in (ca_un ca) u)
               \<and> call1_ret ca' = Inr (rp_ret h))"
proof -
  have inv: "rpcc_inv c"
    using assms(1) by (rule rpcc_reachable_inv)
  then have "window_inv (c_xid_rep_window c)"
    by (simp add: rpcc_inv_def)
  then obtain w where w: "update_xid_rep (rp_xid h) (c_xid_rep_window c) = Inr w"
    by (rule update_xid_rep_window)
  then show ?thesis
    using assms(2-4) by (auto simp: rpcc_got_pdu_def Let_def call1_ret_def)
qed

theorem rpcc_reply_delivered_witness:
  "\<exists>c'. rpcc_got_pdu (map Some [0, 0, 0, 12, 0, 0, 0, 1, 0, 0, 0, 9]) 12
       (rpcc_ex\<lparr>c_xid := 2, c_calls := [1 \<mapsto> caller_new 1 unmarshall_null]\<rparr>) = Inr c'
     \<and> (\<exists>ca'. c_calls c' 1 = Some ca' \<and> call1_ret ca' = Inr 9)"
proof -
  let ?c = "rpcc_ex\<lparr>c_xid := 2, c_calls := [1 \<mapsto> caller_new 1 unmarshall_null]\<rparr>"
  let ?b = "map Some [0, 0, 0, 12, 0, 0, 0, 1, 0, 0, 0, 9]"
  have lt: "c_xid rpcc_ex < - 1"
    by code_simp
  have reach: "rpcc_reachable rpcc_ex"
    unfolding rpcc_ex_def by (rule reach_step [OF reach_init step_bind])
  obtain r where "call1_begin 2 marshall_new unmarshall_null rpcc_ex = Inr (r, ?c)"
    using rpcc_ex_begin by blast
  then have reach': "rpcc_reachable ?c"
    using lt by (intro reach_step [OF reach step_begin])
  have ok: "case unpack_reply_header (unmarshall_of_buf ?b 12) of
      Inl e \<Rightarrow> False | Inr (h, u) \<Rightarrow> u_ok u \<and> h = \<lparr>rp_xid = 1, rp_ret = 9\<rparr>"
    by code_simp
  then obtain u where u: "unpack_reply_header (unmarshall_of_buf ?b 12) = Inr (\<lparr>rp_xid = 1, rp_ret = 9\<rparr>, u)"
      "u_ok u"
    by (auto split: sum.splits)
  show ?thesis
    using rpcc_reply_delivered [OF reach' u, of "caller_new 1 unmarshall_null"]
    by (auto simp: caller_new_def)
qed

end
