(* ===== verification/Rpc_Server.thy ===== *)
theory Rpc_Server
  imports Rpc_Client "HOL-Library.Multiset"
begin

text \<open>
  The server endpoint \<^verbatim>\<open>rpcs\<close> of \<^verbatim>\<open>rpc/rpc.cc\<close>: registration of handlers, the per-client window of
  replies that gives at-most-once execution, \<^verbatim>\<open>dispatch\<close>, and the statistics. \<^verbatim>\<open>dispatch\<close> is cut
  where other threads may run: the part up to the switch on the state of the request, the
  handler, and the part that saves and sends the reply. The relation \<open>rpc_step\<close> interleaves
  these parts for any number of requests and keeps a history of the handlers that ran.
\<close>

section \<open>State\<close>

datatype rpcstate_t = NEW | INPROGRESS | DONE | FORGOTTEN

record reply_t =
  r_xid :: u32
  r_cb_present :: bool
  r_buf :: "u8 option list option"
  r_sz :: nat

definition reply_new :: "u32 \<Rightarrow> reply_t" where
  "reply_new xid = \<lparr>r_xid = xid, r_cb_present = False, r_buf = None, r_sz = 0\<rparr>"

text \<open>
  A connection is known here by its address and the time it was made; reference counts are kept
  in the server's state. \<open>'s\<close> is the state of the objects whose methods are registered.
\<close>

record conn =
  cn_id :: nat
  cn_create_time :: timespec

type_synonym 's handler = "'s \<Rightarrow> unmarshall \<Rightarrow> marshall \<Rightarrow> (i32 \<times> marshall \<times> 's) res"

record 's rpcs =
  s_nonce :: u32
  s_reply_window :: "u32 \<rightharpoonup> reply_t list"
  s_conns :: "u32 \<rightharpoonup> conn"
  s_counting :: i32
  s_curr_counts :: i32
  s_counts :: "u32 \<rightharpoonup> i32"
  s_reachable :: bool
  s_procs :: "u32 \<rightharpoonup> 's handler"
  s_refs :: "nat \<Rightarrow> int"

definition sliding_window_size :: nat where "sliding_window_size = 100"

definition rpcs_new :: "u32 \<Rightarrow> i32 \<Rightarrow> 's handler \<Rightarrow> 's rpcs" where
  "rpcs_new rnd counts bind_handler =
     \<lparr>s_nonce = rnd, s_reply_window = Map.empty, s_conns = Map.empty, s_counting = counts,
      s_curr_counts = counts, s_counts = Map.empty, s_reachable = True,
      s_procs = [rpc_bind \<mapsto> bind_handler], s_refs = (\<lambda>_. 0)\<rparr>"

definition incref :: "conn \<Rightarrow> 's rpcs \<Rightarrow> 's rpcs" where
  "incref c s = s\<lparr>s_refs := (s_refs s)(cn_id c := s_refs s (cn_id c) + 1)\<rparr>"

definition decref :: "conn \<Rightarrow> 's rpcs \<Rightarrow> 's rpcs" where
  "decref c s = s\<lparr>s_refs := (s_refs s)(cn_id c := s_refs s (cn_id c) - 1)\<rparr>"

definition conn_compare :: "conn \<Rightarrow> conn \<Rightarrow> int" where
  "conn_compare a b = cmp_timespec (cn_create_time a) (cn_create_time b)"

section \<open>Registration and statistics\<close>

definition reg1 :: "u32 \<Rightarrow> 's handler \<Rightarrow> 's rpcs \<Rightarrow> 's rpcs res" where
  "reg1 proc h s =
     (if s_procs s proc \<noteq> None then Inl VerifyFailed else Inr (s\<lparr>s_procs := (s_procs s)(proc \<mapsto> h)\<rparr>))"

definition updatestat :: "u32 \<Rightarrow> 's rpcs \<Rightarrow> 's rpcs" where
  "updatestat proc s =
     (let n = (case s_counts s proc of None \<Rightarrow> 0 | Some n \<Rightarrow> n);
          cur = s_curr_counts s - 1 in
      s\<lparr>s_counts := (s_counts s)(proc \<mapsto> n + 1),
        s_curr_counts := (if cur = 0 then s_counting s else cur)\<rparr>)"

definition rpcbind :: "'s rpcs \<Rightarrow> i32 \<Rightarrow> i32 \<times> i32" where
  "rpcbind s a = (0, s_nonce s)"

section \<open>The window of replies\<close>

definition window_of :: "'s rpcs \<Rightarrow> u32 \<Rightarrow> reply_t list" where
  "window_of s clt_nonce = (case s_reply_window s clt_nonce of None \<Rightarrow> [] | Some w \<Rightarrow> w)"

text \<open>
  The loop over a client's window: \<open>found\<close> is the entry last seen with the request's \<open>xid\<close>
  (\<^verbatim>\<open>xid_found\<close>, \<^verbatim>\<open>*b\<close> and \<^verbatim>\<open>*sz\<close>), \<open>freed\<close> whether its buffer has been freed since, \<open>mn\<close> is
  \<^verbatim>\<open>min_xid_reply_value\<close> and \<open>n\<close> the present size of the list.
\<close>

fun check_scan ::
  "u32 \<Rightarrow> u32 \<Rightarrow> nat \<Rightarrow> reply_t option \<Rightarrow> bool \<Rightarrow> u32 \<Rightarrow> reply_t list
     \<Rightarrow> reply_t option \<times> bool \<times> u32 \<times> reply_t list" where
  "check_scan xid xid_rep n found freed mn [] = (found, freed, mn, [])"
| "check_scan xid xid_rep n found freed mn (r # rs) =
     (let gone = (n \<ge> sliding_window_size \<and> r_xid r \<le> xid_rep);
          found = (if r_xid r = xid then Some r else found);
          freed = (if r_xid r = xid then gone else freed);
          mn = (if r_xid r < mn then r_xid r else mn) in
      if gone then check_scan xid xid_rep (n - 1) found freed mn rs
      else let (found, freed, mn, rest) = check_scan xid xid_rep n found freed mn rs
           in (found, freed, mn, r # rest))"

fun window_insert :: "u32 \<Rightarrow> reply_t list \<Rightarrow> reply_t list" where
  "window_insert xid [] = [reply_new xid]"
| "window_insert xid (r # rs) =
     (if xid < r_xid r then reply_new xid # r # rs else r # window_insert xid rs)"

definition checkduplicate_and_update ::
  "u32 \<Rightarrow> u32 \<Rightarrow> u32 \<Rightarrow> 's rpcs \<Rightarrow> rpcstate_t \<times> reply_t option \<times> bool \<times> 's rpcs" where
  "checkduplicate_and_update clt_nonce xid xid_rep s =
     (case window_of s clt_nonce of
        [] \<Rightarrow> (NEW, None, False, s\<lparr>s_reply_window := (s_reply_window s)(clt_nonce \<mapsto> window_insert xid [])\<rparr>)
      | r # rs \<Rightarrow>
          let (found, freed, mn, rest) =
                check_scan xid xid_rep (length (r # rs)) None False (r_xid r) (r # rs);
              status = (case found of
                  None \<Rightarrow> if xid < mn then FORGOTTEN else NEW
                | Some e \<Rightarrow> if \<not> r_cb_present e then INPROGRESS else DONE);
              w = (if status = NEW then window_insert xid rest else rest) in
          (status, found, freed, s\<lparr>s_reply_window := (s_reply_window s)(clt_nonce \<mapsto> w)\<rparr>))"

definition add_reply :: "u32 \<Rightarrow> u32 \<Rightarrow> u8 option list \<Rightarrow> nat \<Rightarrow> 's rpcs \<Rightarrow> 's rpcs" where
  "add_reply clt_nonce xid b sz s =
     s\<lparr>s_reply_window := (s_reply_window s)(clt_nonce \<mapsto>
        map (\<lambda>r. if r_xid r = xid then r\<lparr>r_buf := Some b, r_sz := sz, r_cb_present := True\<rparr> else r)
          (window_of s clt_nonce))\<rparr>"

definition free_reply_window :: "'s rpcs \<Rightarrow> 's rpcs" where
  "free_reply_window s = s\<lparr>s_reply_window := Map.empty\<rparr>"

section \<open>Dispatch\<close>

text \<open>\<open>pool_ok\<close> is what \<^verbatim>\<open>addObjJob\<close> answers; the job is handed on when it accepts.\<close>

definition rpcs_got_pdu ::
  "conn \<Rightarrow> bool \<Rightarrow> 's rpcs \<Rightarrow> bool \<times> bool \<times> 's rpcs" where
  "rpcs_got_pdu c pool_ok s =
     (if \<not> s_reachable s then (True, False, s)
      else let s = incref c s in
           if \<not> pool_ok then (pool_ok, False, decref c s) else (pool_ok, True, s))"

datatype 's djob = Finished | Run req_header unmarshall "'s handler"

type_synonym sent = "(nat \<times> u8 option list) list"

definition content :: "marshall \<Rightarrow> u8 option list" where
  "content m = take (m_ind m) (m_buf m)"

definition dispatch_failure :: "conn \<Rightarrow> req_header \<Rightarrow> i32 \<Rightarrow> sent res" where
  "dispatch_failure c h ret =
     bindR (pack_reply_header \<lparr>rp_xid = rq_xid h, rp_ret = ret\<rparr> marshall_new) (\<lambda>rep.
       Inr [(cn_id c, content rep)])"

definition see_client :: "conn \<Rightarrow> u32 \<Rightarrow> 's rpcs \<Rightarrow> 's rpcs" where
  "see_client c n s =
     (let s = (if s_reply_window s n = None then s\<lparr>s_reply_window := (s_reply_window s)(n \<mapsto> [])\<rparr> else s) in
      case s_conns s n of
        None \<Rightarrow> (incref c s)\<lparr>s_conns := (s_conns s)(n \<mapsto> c)\<rparr>
      | Some c0 \<Rightarrow>
          if conn_compare c0 c < 0 then (incref c (decref c0 s))\<lparr>s_conns := (s_conns s)(n \<mapsto> c)\<rparr> else s)"

definition dispatch_begin ::
  "conn \<Rightarrow> u8 option list \<Rightarrow> nat \<Rightarrow> 's rpcs \<Rightarrow> ('s djob \<times> sent \<times> 's rpcs) res" where
  "dispatch_begin c b sz s =
     bindR (unpack_req_header (unmarshall_of_buf b sz)) (\<lambda>(h, req).
       if \<not> u_ok req then Inr (Finished, [], decref c s)
       else if rq_srv_nonce h \<noteq> 0 \<and> rq_srv_nonce h \<noteq> s_nonce s
       then bindR (dispatch_failure c h oldsrv_failure) (\<lambda>snt. Inr (Finished, snt, s))
       else case s_procs s (rq_proc h) of
         None \<Rightarrow> Inl VerifyFailed
       | Some f \<Rightarrow>
           let (status, found, freed, s) =
             (if rq_clt_nonce h \<noteq> 0
              then checkduplicate_and_update (rq_clt_nonce h) (rq_xid h) (rq_xid_rep h)
                     (see_client c (rq_clt_nonce h) s)
              else (NEW, None, False, s)) in
           case status of
             NEW \<Rightarrow> Inr (Run h req f, [], if s_counting s \<noteq> 0 then updatestat (rq_proc h) s else s)
           | INPROGRESS \<Rightarrow> Inr (Finished, [], decref c s)
           | DONE \<Rightarrow>
               if freed then Inl UseAfterFree
               else (case found of None \<Rightarrow> Inl UninitRead
                | Some e \<Rightarrow> (case r_buf e of None \<Rightarrow> Inl NullDeref
                   | Some b1 \<Rightarrow> Inr (Finished, [(cn_id c, take (r_sz e) b1)], decref c s)))
           | FORGOTTEN \<Rightarrow>
               bindR (dispatch_failure c h atmostonce_failure) (\<lambda>snt. Inr (Finished, snt, decref c s)))"

text \<open>
  The end of the case \<^verbatim>\<open>NEW\<close>, after the handler returned \<open>ret\<close> and wrote its result to \<open>rep\<close>.
  \<open>isdead\<close> tells which connections are dead by then.
\<close>

definition dispatch_finish ::
  "(nat \<Rightarrow> bool) \<Rightarrow> conn \<Rightarrow> req_header \<Rightarrow> i32 \<Rightarrow> marshall \<Rightarrow> 's rpcs \<Rightarrow> (sent \<times> 's rpcs) res" where
  "dispatch_finish isdead c h ret rep s =
     (if ret = unmarshal_args_failure then Inl VerifyFailed
      else if ret <s 0 then Inl VerifyFailed
      else bindR (pack_reply_header \<lparr>rp_xid = rq_xid h, rp_ret = ret\<rparr> rep) (\<lambda>rep.
        let (b1, sz1, rep) = marshall_take_buf rep;
            s = (if rq_clt_nonce h > 0 then add_reply (rq_clt_nonce h) (rq_xid h) b1 sz1 s else s) in
        if isdead (cn_id c) \<and> map_option cn_id (s_conns s (rq_clt_nonce h)) \<noteq> Some (cn_id c)
        then (case s_conns s (rq_clt_nonce h) of None \<Rightarrow> Inl NullDeref
              | Some c' \<Rightarrow> Inr ([(cn_id c', take sz1 b1)], decref c' (incref c' (decref c s))))
        else Inr ([(cn_id c, take sz1 b1)], decref c s)))"

text \<open>A request served by one thread alone.\<close>

definition dispatch ::
  "(nat \<Rightarrow> bool) \<Rightarrow> conn \<Rightarrow> u8 option list \<Rightarrow> nat \<Rightarrow> 's rpcs \<times> 's \<Rightarrow> (sent \<times> 's rpcs \<times> 's) res" where
  "dispatch isdead c b sz = (\<lambda>(s, app).
     bindR (dispatch_begin c b sz s) (\<lambda>(job, snt, s).
       case job of Finished \<Rightarrow> Inr (snt, s, app)
       | Run h req f \<Rightarrow>
           bindR (f app req marshall_new) (\<lambda>(ret, rep, app).
             bindR (dispatch_finish isdead c h ret rep s) (\<lambda>(snt, s). Inr (snt, s, app)))))"

section \<open>Interleaving of requests\<close>

text \<open>
  \<open>y_pend\<close> are requests whose handler is about to run, \<open>y_ran\<close> those whose handler has run and
  whose reply is not saved yet. \<open>y_exec\<close> is the history of handler runs and \<open>y_replies\<close> of the
  replies saved, by client nonce and \<open>xid\<close>. A request acknowledges only calls older than itself,
  which is what \<^verbatim>\<open>rpcc\<close> sends.
\<close>

record 's rpc_sys =
  y_srv :: "'s rpcs"
  y_app :: 's
  y_pend :: "(conn \<times> req_header \<times> unmarshall \<times> 's handler) list"
  y_ran :: "(conn \<times> req_header \<times> i32 \<times> marshall) list"
  y_exec :: "(u32 \<times> u32) list"
  y_replies :: "((u32 \<times> u32) \<times> u8 option list) list"

definition key :: "req_header \<Rightarrow> u32 \<times> u32" where
  "key h = (rq_clt_nonce h, rq_xid h)"

definition good_request :: "u8 option list \<Rightarrow> nat \<Rightarrow> bool" where
  "good_request b sz \<longleftrightarrow>
     (case unpack_req_header (unmarshall_of_buf b sz) of
        Inl _ \<Rightarrow> True | Inr (h, _) \<Rightarrow> rq_xid_rep h < rq_xid h)"

inductive rpc_step :: "'s rpc_sys \<Rightarrow> 's rpc_sys \<Rightarrow> bool" where
  rpc_begin: "good_request b sz \<Longrightarrow> dispatch_begin c b sz (y_srv y) = Inr (Run h req f, snt, s)
    \<Longrightarrow> rpc_step y (y\<lparr>y_srv := s, y_pend := (c, h, req, f) # y_pend y\<rparr>)"
| rpc_repeat: "good_request b sz \<Longrightarrow> dispatch_begin c b sz (y_srv y) = Inr (Finished, snt, s)
    \<Longrightarrow> rpc_step y (y\<lparr>y_srv := s\<rparr>)"
| rpc_run: "y_pend y = us @ (c, h, req, f) # vs \<Longrightarrow> f (y_app y) req marshall_new = Inr (ret, rep, app)
    \<Longrightarrow> rpc_step y (y\<lparr>y_app := app, y_pend := us @ vs, y_ran := (c, h, ret, rep) # y_ran y,
                      y_exec := key h # y_exec y\<rparr>)"
| rpc_finish: "y_ran y = us @ (c, h, ret, rep) # vs
    \<Longrightarrow> dispatch_finish isdead c h ret rep (y_srv y) = Inr ([(i, bs)], s)
    \<Longrightarrow> rpc_step y (y\<lparr>y_srv := s, y_ran := us @ vs, y_replies := (key h, bs) # y_replies y\<rparr>)"
| rpc_reg: "reg1 proc hdl (y_srv y) = Inr s \<Longrightarrow> rpc_step y (y\<lparr>y_srv := s\<rparr>)"

inductive rpc_reachable :: "'s rpc_sys \<Rightarrow> bool" where
  rpc_init: "rpc_reachable \<lparr>y_srv = rpcs_new rnd counts bh, y_app = app, y_pend = [], y_ran = [],
     y_exec = [], y_replies = []\<rparr>"
| rpc_next: "rpc_reachable y \<Longrightarrow> rpc_step y y' \<Longrightarrow> rpc_reachable y'"

section \<open>The window of replies: invariant and behaviour\<close>

text \<open>
  A window lists its calls in strictly increasing order. It \<open>covers\<close> the calls it lists and all
  those before its first entry, whose replies are forgotten.
\<close>

definition win_sorted :: "reply_t list \<Rightarrow> bool" where
  "win_sorted w \<longleftrightarrow> sorted_wrt (<) (map r_xid w)"

definition covers :: "reply_t list \<Rightarrow> u32 \<Rightarrow> bool" where
  "covers w x \<longleftrightarrow> x \<in> r_xid ` set w \<or> (w \<noteq> [] \<and> x < r_xid (hd w))"

definition entry :: "u32 \<Rightarrow> reply_t list \<Rightarrow> reply_t option" where
  "entry x w = find (\<lambda>r. r_xid r = x) w"

lemma entry_None_iff: "entry x w = None \<longleftrightarrow> x \<notin> r_xid ` set w"
  by (auto simp: entry_def find_None_iff)

lemma entry_SomeD: "entry x w = Some e \<Longrightarrow> e \<in> set w \<and> r_xid e = x"
  by (auto simp: entry_def find_Some_iff)

lemma win_sorted_Cons [simp]:
  "win_sorted (r # rs) \<longleftrightarrow> (\<forall>q \<in> set rs. r_xid r < r_xid q) \<and> win_sorted rs"
  by (auto simp: win_sorted_def)

lemma win_sorted_Nil [simp]: "win_sorted []"
  by (simp add: win_sorted_def)

lemma win_sorted_drop: "win_sorted w \<Longrightarrow> win_sorted (drop k w)"
  by (simp add: win_sorted_def drop_map [symmetric] sorted_wrt_drop)

lemma check_scan_keep:
  assumes "n < sliding_window_size \<or> (\<forall>r \<in> set rs. xid_rep < r_xid r)"
    and "win_sorted rs" "\<forall>r \<in> set rs. mn \<le> r_xid r"
  shows "check_scan xid xid_rep n found False mn rs =
    (case entry xid rs of None \<Rightarrow> found | Some e \<Rightarrow> Some e, False, mn, rs)"
  using assms
proof (induction rs arbitrary: found)
  case (Cons r rs)
  then have stay: "\<not> (sliding_window_size \<le> n \<and> r_xid r \<le> xid_rep)" "\<not> r_xid r < mn"
    by (auto simp: not_le)
  have rest: "entry xid rs = None" if "r_xid r = xid"
    using Cons.prems(2) that by (auto simp: entry_None_iff)
  show ?case
    using stay rest Cons by (auto simp: Let_def entry_def split: option.splits)
qed (simp add: entry_def)

lemma check_scan_spec:
  assumes "win_sorted rs" "\<forall>r \<in> set rs. mn \<le> r_xid r" "xid_rep < xid" "length rs \<le> n"
  shows "\<exists>k. check_scan xid xid_rep n found False mn rs =
      (case entry xid rs of None \<Rightarrow> found | Some e \<Rightarrow> Some e, False, mn, drop k rs)
    \<and> (\<forall>r \<in> set (take k rs). r_xid r \<le> xid_rep) \<and> (0 < k \<longrightarrow> sliding_window_size + k \<le> n + 1)"
  using assms
proof (induction rs arbitrary: n)
  case Nil
  then show ?case
    by (auto simp: entry_def intro: exI [of _ 0])
next
  case (Cons r rs)
  show ?case
  proof (cases "sliding_window_size \<le> n \<and> r_xid r \<le> xid_rep")
    case True
    then have ne: "r_xid r \<noteq> xid" "\<not> r_xid r < mn" "1 \<le> n"
      using Cons.prems by (auto simp: sliding_window_size_def)
    have len: "length rs \<le> n - 1"
      using Cons.prems(4) by simp
    obtain k where k: "check_scan xid xid_rep (n - 1) found False mn rs =
        (case entry xid rs of None \<Rightarrow> found | Some e \<Rightarrow> Some e, False, mn, drop k rs)"
      "\<forall>r \<in> set (take k rs). r_xid r \<le> xid_rep" "0 < k \<longrightarrow> sliding_window_size + k \<le> n - 1 + 1"
      using Cons.IH [OF _ _ Cons.prems(3) len] Cons.prems(1,2) ne(3) by auto
    have "check_scan xid xid_rep n found False mn (r # rs) =
        (case entry xid (r # rs) of None \<Rightarrow> found | Some e \<Rightarrow> Some e, False, mn, drop (Suc k) (r # rs))"
      using True ne k(1) by (simp add: Let_def entry_def)
    moreover have "\<forall>r \<in> set (take (Suc k) (r # rs)). r_xid r \<le> xid_rep"
      using True k(2) by simp
    moreover have "sliding_window_size + Suc k \<le> n + 1"
      using True k(3) ne(3) by (cases "k = 0") auto
    ultimately show ?thesis
      by blast
  next
    case False
    then have "n < sliding_window_size \<or> (\<forall>q \<in> set (r # rs). xid_rep < r_xid q)"
      using Cons.prems(1) by (auto simp: not_le intro: less_trans)
    then show ?thesis
      using check_scan_keep [of n "r # rs" xid_rep mn xid found] Cons.prems(1,2)
      by (intro exI [of _ 0]) simp
  qed
qed

lemma window_insert_set: "set (window_insert x w) = insert (reply_new x) (set w)"
  by (induction w) auto

lemma window_insert_sorted: "win_sorted w \<Longrightarrow> x \<notin> r_xid ` set w \<Longrightarrow> win_sorted (window_insert x w)"
  by (induction w) (auto simp: window_insert_set reply_new_def intro: less_trans)

lemma window_insert_hd:
  "w \<noteq> [] \<Longrightarrow> r_xid (hd w) < x \<Longrightarrow> hd (window_insert x w) = hd w \<and> window_insert x w \<noteq> []"
  by (cases w) auto

lemma window_of_upd [simp]:
  "window_of (s\<lparr>s_reply_window := (s_reply_window s)(n \<mapsto> w)\<rparr>) m = (if m = n then w else window_of s m)"
  by (simp add: window_of_def)

text \<open>The state of a request, by the window before it.\<close>

definition request_state :: "u32 \<Rightarrow> reply_t list \<Rightarrow> rpcstate_t" where
  "request_state xid w =
     (case entry xid w of
        Some e \<Rightarrow> if r_cb_present e then DONE else INPROGRESS
      | None \<Rightarrow> if covers w xid then FORGOTTEN else NEW)"

lemma checkduplicate_spec:
  assumes "win_sorted (window_of s n)" "xid_rep < xid"
  obtains k where "checkduplicate_and_update n xid xid_rep s =
      (request_state xid (window_of s n), entry xid (window_of s n), False,
       s\<lparr>s_reply_window := (s_reply_window s)(n \<mapsto>
          (if request_state xid (window_of s n) = NEW then window_insert xid (drop k (window_of s n))
           else drop k (window_of s n)))\<rparr>)"
    "\<forall>r \<in> set (take k (window_of s n)). r_xid r \<le> xid_rep"
    "k = 0 \<or> k < length (window_of s n)"
proof (cases "window_of s n")
  case Nil
  then show ?thesis
    using that [of 0]
    by (simp add: checkduplicate_and_update_def request_state_def covers_def entry_def)
next
  case (Cons r rs)
  have "\<forall>q \<in> set (r # rs). r_xid r \<le> r_xid q"
    using assms(1) Cons by (auto intro: less_imp_le)
  then obtain k where k: "check_scan xid xid_rep (length (r # rs)) None False (r_xid r) (r # rs) =
      (entry xid (r # rs), False, r_xid r, drop k (r # rs))"
    "\<forall>q \<in> set (take k (r # rs)). r_xid q \<le> xid_rep"
    "0 < k \<longrightarrow> sliding_window_size + k \<le> length (r # rs) + 1"
    using check_scan_spec [of "r # rs" "r_xid r" xid_rep xid "length (r # rs)" None] assms Cons
    by (auto split: option.splits)
  have st: "(case entry xid (r # rs) of None \<Rightarrow> if xid < r_xid r then FORGOTTEN else NEW
      | Some e \<Rightarrow> if \<not> r_cb_present e then INPROGRESS else DONE) = request_state xid (r # rs)"
    using entry_None_iff [of xid "r # rs"]
    by (auto simp: request_state_def covers_def split: option.splits)
  show ?thesis
  proof (rule that [of k])
    show "k = 0 \<or> k < length (window_of s n)"
      using k(3) Cons by (auto simp: sliding_window_size_def)
  qed (use k st Cons in \<open>simp_all add: checkduplicate_and_update_def Let_def del: check_scan.simps\<close>)
qed

lemma take_below_drop:
  assumes "win_sorted w" "k < length w" "r \<in> set (take k w)"
  shows "r_xid r < r_xid (hd (drop k w))"
proof -
  have "sorted_wrt (<) (map r_xid (take k w) @ map r_xid (drop k w))"
    using assms(1) by (simp add: win_sorted_def flip: map_append)
  moreover have "hd (drop k w) \<in> set (drop k w)"
    using assms(2) by simp
  ultimately show ?thesis
    using assms(3) by (auto simp: sorted_wrt_append)
qed

lemma covers_cases:
  assumes "covers w x"
  obtains "x \<in> r_xid ` set (drop k w)" | r where "r \<in> set (take k w)" "x \<le> r_xid r"
    | "k = 0" "w \<noteq> []" "x < r_xid (hd w)"
proof -
  have split: "set w = set (take k w) \<union> set (drop k w)"
    by (metis append_take_drop_id set_append)
  have hd: "hd w \<in> set (take k w)" if "w \<noteq> []" "0 < k"
    using that by (cases w; cases k) auto
  consider r where "r \<in> set w" "x = r_xid r" | "w \<noteq> []" "x < r_xid (hd w)"
    using assms unfolding covers_def by blast
  then show ?thesis
  proof cases
    case 1
    then show ?thesis using that(1,2) split by blast
  next
    case 2
    then show ?thesis using that(2) [OF hd] that(3) by (cases "k = 0") auto
  qed
qed

lemma covers_drop:
  assumes "win_sorted w" "k < length w" "covers w x"
  shows "covers (drop k w) x"
  using assms(3)
proof (cases rule: covers_cases [where k = k])
  case (2 r)
  then show ?thesis
    using take_below_drop [OF assms(1,2), of r] assms(2) by (auto simp: covers_def intro: le_less_trans)
qed (use assms in \<open>auto simp: covers_def\<close>)

lemma covers_insert_head:
  "x < xid \<Longrightarrow> w = [] \<or> x < r_xid (hd w) \<Longrightarrow> covers (window_insert xid w) x"
  by (cases w) (auto simp: covers_def reply_new_def)

lemma covers_insert_drop:
  assumes "win_sorted w" "k = 0 \<or> k < length w" "covers w x" "\<not> covers w xid"
    and "\<forall>r \<in> set (take k w). r_xid r < xid"
  shows "covers (window_insert xid (drop k w)) x"
  using assms(3)
proof (cases rule: covers_cases [where k = k])
  case 1
  then show ?thesis
    by (auto simp: covers_def window_insert_set)
next
  case (2 r)
  then have "k < length w"
    using assms(2) by auto
  then show ?thesis
    using 2 assms(5) take_below_drop [OF assms(1) _ 2(1)]
    by (intro covers_insert_head) (auto intro: le_less_trans)
next
  case 3
  then show ?thesis
    using assms(4) by (intro covers_insert_head) (auto simp: covers_def not_less intro: less_le_trans)
qed

lemma not_covers_drop:
  assumes "win_sorted w" "\<not> covers w x" "\<forall>r \<in> set (take k w). r_xid r < x"
  shows "x \<notin> r_xid ` set (drop k w)"
  using assms by (auto simp: covers_def dest: in_set_dropD)

lemma request_state_NEW: "request_state xid w = NEW \<longleftrightarrow> \<not> covers w xid"
  using entry_None_iff [of xid w] by (auto simp: request_state_def covers_def split: option.splits)

text \<open>What a check does to the window: the facts the invariants rest on.\<close>

definition check_effect :: "u32 \<Rightarrow> u32 \<Rightarrow> reply_t list \<Rightarrow> reply_t list \<Rightarrow> bool" where
  "check_effect xid xid_rep w w' \<longleftrightarrow>
     win_sorted w' \<and> covers w' xid \<and> (\<forall>x. covers w x \<longrightarrow> covers w' x)
     \<and> (\<forall>r \<in> set w'. r \<in> set w \<or> (r = reply_new xid \<and> \<not> covers w xid))
     \<and> (\<forall>r \<in> set w. xid_rep < r_xid r \<longrightarrow> r \<in> set w')"

lemma check_effect_drop:
  assumes "win_sorted w" "xid_rep < xid" "\<forall>r \<in> set (take k w). r_xid r \<le> xid_rep"
    and "k = 0 \<or> k < length w"
  shows "check_effect xid xid_rep w
    (if request_state xid w = NEW then window_insert xid (drop k w) else drop k w)"
proof -
  have split: "set w = set (take k w) \<union> set (drop k w)"
    by (metis append_take_drop_id set_append)
  have sorted: "win_sorted (drop k w)"
    using assms(1) by (rule win_sorted_drop)
  have keep: "covers (drop k w) x" if "covers w x" for x
    using covers_drop [OF assms(1) _ that, of k] assms(4) that by auto
  have stay: "\<forall>r \<in> set w. xid_rep < r_xid r \<longrightarrow> r \<in> set (drop k w)"
    using assms(3) split by (auto simp: not_le [symmetric])
  show ?thesis
  proof (cases "covers w xid")
    case True
    then show ?thesis
      using sorted keep stay split by (auto simp: request_state_NEW check_effect_def)
  next
    case False
    have below: "\<forall>r \<in> set (take k w). r_xid r < xid"
      using assms(2,3) by (auto intro: le_less_trans)
    then have fresh: "xid \<notin> r_xid ` set (drop k w)"
      using assms(1) False by (intro not_covers_drop)
    have "covers (window_insert xid (drop k w)) xid"
      by (auto simp: covers_def window_insert_set reply_new_def)
    then show ?thesis
      using False stay split window_insert_sorted [OF sorted fresh] covers_insert_drop [OF assms(1,4) _ False below]
      by (auto simp: request_state_NEW check_effect_def window_insert_set)
  qed
qed

lemma win_sorted_inj: "win_sorted w \<Longrightarrow> inj_on r_xid (set w)"
  using strict_sorted_iff [of "map r_xid w"] by (simp add: win_sorted_def distinct_map)

lemma checkduplicate_cases:
  assumes "win_sorted (window_of s n)" "xid_rep < xid"
  obtains w' where "checkduplicate_and_update n xid xid_rep s =
      (request_state xid (window_of s n), entry xid (window_of s n), False,
       s\<lparr>s_reply_window := (s_reply_window s)(n \<mapsto> w')\<rparr>)"
    "check_effect xid xid_rep (window_of s n) w'"
proof -
  obtain k where k: "checkduplicate_and_update n xid xid_rep s =
      (request_state xid (window_of s n), entry xid (window_of s n), False,
       s\<lparr>s_reply_window := (s_reply_window s)(n \<mapsto>
          (if request_state xid (window_of s n) = NEW then window_insert xid (drop k (window_of s n))
           else drop k (window_of s n)))\<rparr>)"
    "\<forall>r \<in> set (take k (window_of s n)). r_xid r \<le> xid_rep"
    "k = 0 \<or> k < length (window_of s n)"
    using assms by (rule checkduplicate_spec)
  show ?thesis
    by (rule that [OF k(1)]) (rule check_effect_drop [OF assms k(2,3)])
qed

text \<open>
  For a request that acknowledges only older calls, the duplicate check answers NEW exactly when
  the call is not in the client's window and not before its first entry, DONE with the saved
  reply, still allocated, when the window has one, INPROGRESS when the call is listed without a
  reply, and FORGOTTEN otherwise. It keeps the window sorted, remembers every call it remembered
  and the new one, drops no reply the client has not acknowledged, and leaves the windows of the
  other clients alone.
\<close>

theorem checkduplicate_correct:
  assumes "win_sorted (window_of s n)" "xid_rep < xid"
    and "checkduplicate_and_update n xid xid_rep s = (status, found, freed, s')"
  shows "(status = NEW \<longleftrightarrow> \<not> covers (window_of s n) xid)
     \<and> (status = DONE \<longleftrightarrow> (\<exists>r \<in> set (window_of s n). r_xid r = xid \<and> r_cb_present r))
     \<and> (status = INPROGRESS \<longleftrightarrow> (\<exists>r \<in> set (window_of s n). r_xid r = xid \<and> \<not> r_cb_present r))
     \<and> (status = DONE \<longrightarrow> \<not> freed \<and> (\<exists>e \<in> set (window_of s n). found = Some e \<and> r_xid e = xid))
     \<and> win_sorted (window_of s' n) \<and> covers (window_of s' n) xid
     \<and> (\<forall>x. covers (window_of s n) x \<longrightarrow> covers (window_of s' n) x)
     \<and> (\<forall>r \<in> set (window_of s n). xid_rep < r_xid r \<longrightarrow> r \<in> set (window_of s' n))
     \<and> (\<forall>m. m \<noteq> n \<longrightarrow> window_of s' m = window_of s m)"
proof -
  let ?w = "window_of s n"
  obtain w' where eq: "status = request_state xid ?w" "found = entry xid ?w" "\<not> freed"
      "s' = s\<lparr>s_reply_window := (s_reply_window s)(n \<mapsto> w')\<rparr>"
    and eff: "check_effect xid xid_rep ?w w'"
    using checkduplicate_cases [OF assms(1,2)] assms(3) by auto
  have uniq: "r = e" if "r \<in> set ?w" "e \<in> set ?w" "r_xid r = r_xid e" for r e
    using win_sorted_inj [OF assms(1)] that by (auto dest: inj_onD)
  have "status = DONE \<longleftrightarrow> (\<exists>r \<in> set ?w. r_xid r = xid \<and> r_cb_present r)"
    "status = INPROGRESS \<longleftrightarrow> (\<exists>r \<in> set ?w. r_xid r = xid \<and> \<not> r_cb_present r)"
    using entry_None_iff [of xid ?w] uniq unfolding eq(1) request_state_def
    by (auto split: option.splits dest!: entry_SomeD)
  moreover have "\<exists>e \<in> set ?w. found = Some e \<and> r_xid e = xid" if "status = DONE"
    using that eq(1,2) unfolding request_state_def by (auto split: option.splits if_splits dest!: entry_SomeD)
  ultimately show ?thesis
    using eq eff by (simp add: check_effect_def request_state_NEW)
qed

theorem checkduplicate_correct_witness:
  "let s = snd (snd (snd (checkduplicate_and_update 9 1 0 (rpcs_new 3 0 (\<lambda>(s :: unit) u m. Inr (0, m, s))))))
   in fst (checkduplicate_and_update 9 1 0 s) = INPROGRESS
     \<and> fst (checkduplicate_and_update 9 2 0 s) = NEW"
proof -
  define s :: "unit rpcs" where
    "s = snd (snd (snd (checkduplicate_and_update 9 1 0 (rpcs_new 3 0 (\<lambda>s u m. Inr (0, m, s))))))"
  have w: "window_of s 9 = [reply_new 1]"
    by (simp add: s_def checkduplicate_and_update_def rpcs_new_def window_of_def)
  have h: "win_sorted (window_of s 9)"
    by (simp add: w)
  obtain st f fr s' where a: "checkduplicate_and_update 9 1 0 s = (st, f, fr, s')"
    by (cases "checkduplicate_and_update 9 1 0 s") auto
  obtain st2 f2 fr2 s2 where b: "checkduplicate_and_update 9 2 0 s = (st2, f2, fr2, s2)"
    by (cases "checkduplicate_and_update 9 2 0 s") auto
  have "st = INPROGRESS"
    using checkduplicate_correct [OF h _ a] by (simp add: w reply_new_def)
  moreover have "st2 = NEW"
    using checkduplicate_correct [OF h _ b] by (simp add: w covers_def reply_new_def)
  ultimately show ?thesis
    using a b by (simp add: s_def Let_def)
qed

section \<open>At-most-once execution\<close>

lemma window_of_frame [simp]:
  "window_of (incref c s) n = window_of s n"
  "window_of (decref c s) n = window_of s n"
  "window_of (updatestat p s) n = window_of s n"
  "window_of (see_client c m s) n = window_of s n"
  "window_of (s\<lparr>s_procs := ps\<rparr>) n = window_of s n"
  by (auto simp: incref_def decref_def updatestat_def see_client_def window_of_def Let_def split: option.splits)

lemma dispatch_begin_effect:
  assumes sorted: "\<forall>n. win_sorted (window_of s n)" and good: "good_request b sz"
    and run: "dispatch_begin c b sz s = Inr (job, snt, s')"
  shows "\<forall>n. win_sorted (window_of s' n)"
    and "covers (window_of s n) x \<Longrightarrow> covers (window_of s' n) x"
    and "r \<in> set (window_of s' n) \<Longrightarrow> r \<in> set (window_of s n) \<or> (\<exists>x. r = reply_new x \<and> \<not> covers (window_of s n) x)"
    and "job = Run h req f \<Longrightarrow> rq_clt_nonce h \<noteq> 0 \<Longrightarrow>
      \<not> covers (window_of s (rq_clt_nonce h)) (rq_xid h) \<and> covers (window_of s' (rq_clt_nonce h)) (rq_xid h)"
proof -
  obtain h' u where hdr: "unpack_req_header (unmarshall_of_buf b sz) = Inr (h', u)"
    using run by (auto simp: dispatch_begin_def returns)
  then have lt: "rq_xid_rep h' < rq_xid h'"
    using good by (simp add: good_request_def)
  let ?n = "rq_clt_nonce h'" and ?x = "rq_xid h'"
  consider (same) "\<forall>n. window_of s' n = window_of s n"
      "\<And>h req f. job = Run h req f \<Longrightarrow> h = h' \<and> rq_clt_nonce h = 0"
    | (checked) w' where "?n \<noteq> 0" "\<forall>n. window_of s' n = (if n = ?n then w' else window_of s n)"
      "check_effect ?x (rq_xid_rep h') (window_of s ?n) w'"
      "\<And>h req f. job = Run h req f \<Longrightarrow> h = h' \<and> \<not> covers (window_of s ?n) ?x"
  proof (cases "u_ok u \<and> (rq_srv_nonce h' = 0 \<or> rq_srv_nonce h' = s_nonce s) \<and> ?n \<noteq> 0")
    case False
    then have "(\<forall>n. window_of s' n = window_of s n)
        \<and> (\<forall>h req f. job = Run h req f \<longrightarrow> h = h' \<and> rq_clt_nonce h = 0)"
      using run hdr by (auto simp: dispatch_begin_def returns split: if_splits option.splits)
    then show thesis
      using same by blast
  next
    case True
    have "win_sorted (window_of (see_client c ?n s) ?n)"
      using sorted by simp
    then obtain w' where w': "checkduplicate_and_update ?n ?x (rq_xid_rep h') (see_client c ?n s) =
        (request_state ?x (window_of s ?n), entry ?x (window_of s ?n), False,
         (see_client c ?n s)\<lparr>s_reply_window := (s_reply_window (see_client c ?n s))(?n \<mapsto> w')\<rparr>)"
      "check_effect ?x (rq_xid_rep h') (window_of s ?n) w'"
      using checkduplicate_cases [of "see_client c ?n s" ?n "rq_xid_rep h'" ?x] lt by auto
    have "(\<forall>n. window_of s' n = (if n = ?n then w' else window_of s n))
        \<and> (\<forall>h req f. job = Run h req f \<longrightarrow> h = h' \<and> \<not> covers (window_of s ?n) ?x)"
      using run hdr True w'(1)
      by (cases "request_state ?x (window_of s ?n)")
         (auto simp: dispatch_begin_def returns request_state_NEW split: if_splits option.splits)
    then show thesis
      using checked True w'(2) by blast
  qed
  note cases = this
  show "\<forall>n. win_sorted (window_of s' n)"
    using cases sorted by cases (auto simp: check_effect_def)
  show "covers (window_of s n) x \<Longrightarrow> covers (window_of s' n) x"
    using cases by cases (auto simp: check_effect_def)
  show "r \<in> set (window_of s' n) \<Longrightarrow> r \<in> set (window_of s n) \<or> (\<exists>x. r = reply_new x \<and> \<not> covers (window_of s n) x)"
    using cases by cases (auto simp: check_effect_def split: if_splits)
  show "job = Run h req f \<Longrightarrow> rq_clt_nonce h \<noteq> 0 \<Longrightarrow>
      \<not> covers (window_of s (rq_clt_nonce h)) (rq_xid h) \<and> covers (window_of s' (rq_clt_nonce h)) (rq_xid h)"
    using cases by cases (auto simp: check_effect_def)
qed

definition set_reply :: "u32 \<Rightarrow> u8 option list \<Rightarrow> nat \<Rightarrow> reply_t list \<Rightarrow> reply_t list" where
  "set_reply xid b sz w =
     map (\<lambda>r. if r_xid r = xid then r\<lparr>r_buf := Some b, r_sz := sz, r_cb_present := True\<rparr> else r) w"

lemma map_xid_set_reply [simp]: "map r_xid (set_reply x b sz w) = map r_xid w"
  by (simp add: set_reply_def)

lemma xid_image: "r_xid ` set w = set (map r_xid w)"
  by simp

lemma covers_xids: "covers w x \<longleftrightarrow> x \<in> set (map r_xid w) \<or> (map r_xid w \<noteq> [] \<and> x < hd (map r_xid w))"
  by (auto simp: covers_def hd_map)

lemma set_reply_frame [simp]:
  "win_sorted (set_reply x b sz w) = win_sorted w"
  "covers (set_reply x b sz w) y = covers w y"
  by (simp_all only: win_sorted_def covers_xids map_xid_set_reply)

lemma dispatch_finish_effect:
  assumes "dispatch_finish isdead c h ret rep s = Inr (snt, s')"
  obtains i b sz where "snt = [(i, take sz b)]"
    "\<And>n. window_of s' n =
       (if n = rq_clt_nonce h \<and> n \<noteq> 0 then set_reply (rq_xid h) b sz (window_of s n) else window_of s n)"
proof -
  obtain rep' where rep': "pack_reply_header \<lparr>rp_xid = rq_xid h, rp_ret = ret\<rparr> rep = Inr rep'"
    using assms by (auto simp: dispatch_finish_def returns split: if_splits)
  have w: "window_of (add_reply n x b sz s) m =
      (if m = n then set_reply x b sz (window_of s m) else window_of s m)" for n x b sz m
    by (simp add: add_reply_def set_reply_def)
  have "(\<exists>i. snt = [(i, take (m_ind rep') (m_buf rep'))]) \<and> (\<forall>n. window_of s' n =
       (if n = rq_clt_nonce h \<and> n \<noteq> 0 then set_reply (rq_xid h) (m_buf rep') (m_ind rep') (window_of s n)
        else window_of s n))"
    using assms rep'
    by (auto simp: dispatch_finish_def marshall_take_buf_def Let_def w word_gt_0 split: if_splits option.splits)
  then show ?thesis
    using that by blast
qed

definition issued :: "'s rpc_sys \<Rightarrow> (u32 \<times> u32) list" where
  "issued y = map (\<lambda>(c, h, req, f). key h) (y_pend y) @ y_exec y"

definition at_most_once :: "(u32 \<times> u32) list \<Rightarrow> bool" where
  "at_most_once ks \<longleftrightarrow> distinct (filter (\<lambda>k. fst k \<noteq> 0) ks)"

lemma at_most_once_mset: "mset ks = mset ks' \<Longrightarrow> at_most_once ks = at_most_once ks'"
  unfolding at_most_once_def by (rule mset_eq_imp_distinct_iff) simp

text \<open>
  Every request taken up is covered by its client's window and was taken up once; a reply in the
  window is one that was saved; the handlers that ran are those with a saved reply and those
  that are about to save it.
\<close>

definition rpc_inv :: "'s rpc_sys \<Rightarrow> bool" where
  "rpc_inv y \<longleftrightarrow>
     (\<forall>n. win_sorted (window_of (y_srv y) n))
     \<and> at_most_once (issued y)
     \<and> (\<forall>(n, x) \<in> set (issued y). n \<noteq> 0 \<longrightarrow> covers (window_of (y_srv y) n) x)
     \<and> (\<forall>n. \<forall>r \<in> set (window_of (y_srv y) n). r_cb_present r \<longrightarrow>
          (\<exists>b. r_buf r = Some b \<and> ((n, r_xid r), take (r_sz r) b) \<in> set (y_replies y)))
     \<and> (\<forall>((n, x), bs) \<in> set (y_replies y). n \<noteq> 0 \<longrightarrow>
          (\<forall>r \<in> set (window_of (y_srv y) n). r_xid r = x \<longrightarrow> r_cb_present r))
     \<and> mset (map (\<lambda>(c, h, ret, rep). key h) (y_ran y) @ map fst (y_replies y)) = mset (y_exec y)"

lemma rpc_inv_init:
  "rpc_inv \<lparr>y_srv = rpcs_new rnd cnt bh, y_app = app, y_pend = [], y_ran = [], y_exec = [], y_replies = []\<rparr>"
  by (simp add: rpc_inv_def issued_def at_most_once_def rpcs_new_def window_of_def)

lemma replied_issued:
  assumes "rpc_inv y" "(k, bs) \<in> set (y_replies y)"
  shows "k \<in> set (issued y)"
proof -
  have "set (map (\<lambda>(c, h, ret, rep). key h) (y_ran y) @ map fst (y_replies y)) = set (y_exec y)"
    using assms(1) unfolding rpc_inv_def by (intro mset_eq_setD) blast
  then show ?thesis
    using assms(2) by (force simp: issued_def)
qed

lemma rpc_inv_windows:
  assumes "rpc_inv y" "good_request b sz" "dispatch_begin c b sz (y_srv y) = Inr (job, snt, s)"
  shows "\<forall>n. \<forall>r \<in> set (window_of s n). r_cb_present r \<longrightarrow>
          (\<exists>b. r_buf r = Some b \<and> ((n, r_xid r), take (r_sz r) b) \<in> set (y_replies y))"
    and "\<forall>((n, x), bs) \<in> set (y_replies y). n \<noteq> 0 \<longrightarrow>
          (\<forall>r \<in> set (window_of s n). r_xid r = x \<longrightarrow> r_cb_present r)"
proof -
  have sorted: "\<forall>n. win_sorted (window_of (y_srv y) n)"
    using assms(1) by (simp add: rpc_inv_def)
  note eff = dispatch_begin_effect [OF sorted assms(2,3)]
  have old: "r_cb_present r \<longrightarrow> (\<exists>b. r_buf r = Some b \<and> ((n, r_xid r), take (r_sz r) b) \<in> set (y_replies y))"
    "((n, r_xid r), bs) \<in> set (y_replies y) \<Longrightarrow> n \<noteq> 0 \<Longrightarrow> r_cb_present r"
    if "r \<in> set (window_of (y_srv y) n)" for r n bs
    using assms(1) that unfolding rpc_inv_def by blast+
  have cov: "covers (window_of (y_srv y) n) x" if "((n, x), bs) \<in> set (y_replies y)" "n \<noteq> 0" for n x bs
    using assms(1) replied_issued [OF assms(1) that(1)] that(2) unfolding rpc_inv_def by blast
  show "\<forall>n. \<forall>r \<in> set (window_of s n). r_cb_present r \<longrightarrow>
          (\<exists>b. r_buf r = Some b \<and> ((n, r_xid r), take (r_sz r) b) \<in> set (y_replies y))"
    using eff(3) old(1) by (fastforce simp: reply_new_def)
  show "\<forall>((n, x), bs) \<in> set (y_replies y). n \<noteq> 0 \<longrightarrow>
          (\<forall>r \<in> set (window_of s n). r_xid r = x \<longrightarrow> r_cb_present r)"
    using eff(3) old(2) cov by (fastforce simp: reply_new_def)
qed

lemma rpc_inv_begin:
  assumes "rpc_inv y" "good_request b sz" "dispatch_begin c b sz (y_srv y) = Inr (Run h req f, snt, s)"
  shows "rpc_inv (y\<lparr>y_srv := s, y_pend := (c, h, req, f) # y_pend y\<rparr>)"
proof -
  let ?y = "y\<lparr>y_srv := s, y_pend := (c, h, req, f) # y_pend y\<rparr>"
  have sorted: "\<forall>n. win_sorted (window_of (y_srv y) n)"
    using assms(1) by (simp add: rpc_inv_def)
  note eff = dispatch_begin_effect [OF sorted assms(2,3)]
  have iss: "issued ?y = key h # issued y"
    by (simp add: issued_def)
  have "at_most_once (issued ?y)"
  proof (cases "rq_clt_nonce h = 0")
    case True
    then show ?thesis
      using assms(1) by (simp add: rpc_inv_def iss at_most_once_def key_def)
  next
    case False
    then have "key h \<notin> set (issued y)"
      using assms(1) eff(4) [OF refl] by (fastforce simp: rpc_inv_def key_def)
    then show ?thesis
      using assms(1) by (simp add: rpc_inv_def iss at_most_once_def)
  qed
  moreover have "\<forall>(n, x) \<in> set (issued ?y). n \<noteq> 0 \<longrightarrow> covers (window_of s n) x"
    using assms(1) eff(2) eff(4) [OF refl] unfolding iss rpc_inv_def by (auto simp: key_def)
  ultimately show ?thesis
    using assms(1) eff(1) rpc_inv_windows [OF assms] unfolding rpc_inv_def by simp
qed

lemma rpc_inv_repeat:
  assumes "rpc_inv y" "good_request b sz" "dispatch_begin c b sz (y_srv y) = Inr (Finished, snt, s)"
  shows "rpc_inv (y\<lparr>y_srv := s\<rparr>)"
proof -
  have sorted: "\<forall>n. win_sorted (window_of (y_srv y) n)"
    using assms(1) by (simp add: rpc_inv_def)
  note eff = dispatch_begin_effect [OF sorted assms(2,3)]
  have "issued (y\<lparr>y_srv := s\<rparr>) = issued y"
    by (simp add: issued_def)
  moreover have "\<forall>(n, x) \<in> set (issued y). n \<noteq> 0 \<longrightarrow> covers (window_of s n) x"
    using assms(1) eff(2) unfolding rpc_inv_def by blast
  ultimately show ?thesis
    using assms(1) eff(1) rpc_inv_windows [OF assms] unfolding rpc_inv_def by simp
qed

lemma rpc_inv_run:
  assumes "rpc_inv y" "y_pend y = us @ (c, h, req, f) # vs"
  shows "rpc_inv (y\<lparr>y_app := app, y_pend := us @ vs, y_ran := (c, h, ret, rep) # y_ran y,
                    y_exec := key h # y_exec y\<rparr>)" (is "rpc_inv ?y")
proof -
  have perm: "mset (issued ?y) = mset (issued y)"
    using assms(2) by (simp add: issued_def)
  then show ?thesis
    using assms(1) mset_eq_setD [OF perm] at_most_once_mset [OF perm] unfolding rpc_inv_def by simp
qed

lemma rpc_inv_finish:
  assumes "rpc_inv y" "y_ran y = us @ (c, h, ret, rep) # vs"
    and "dispatch_finish isdead c h ret rep (y_srv y) = Inr ([(i, bs)], s)"
  shows "rpc_inv (y\<lparr>y_srv := s, y_ran := us @ vs, y_replies := (key h, bs) # y_replies y\<rparr>)"
proof -
  obtain b sz where bs: "bs = take sz b" and w: "\<And>n. window_of s n =
       (if n = rq_clt_nonce h \<and> n \<noteq> 0 then set_reply (rq_xid h) b sz (window_of (y_srv y) n)
        else window_of (y_srv y) n)"
    using dispatch_finish_effect [OF assms(3)] by (metis list.inject prod.inject)
  have "\<exists>b. r_buf r = Some b \<and> ((n, r_xid r), take (r_sz r) b) \<in> set ((key h, bs) # y_replies y)"
    if "r \<in> set (window_of s n)" "r_cb_present r" for n r
    using that assms(1) unfolding w rpc_inv_def bs
    by (force simp: set_reply_def key_def split: if_splits)
  moreover have "\<forall>((n, x), bs) \<in> set ((key h, bs) # y_replies y). n \<noteq> 0 \<longrightarrow>
      (\<forall>r \<in> set (window_of s n). r_xid r = x \<longrightarrow> r_cb_present r)"
    using assms(1) unfolding w rpc_inv_def by (fastforce simp: set_reply_def key_def split: if_splits)
  moreover have "covers (window_of s n) x = covers (window_of (y_srv y) n) x"
    "win_sorted (window_of s n) = win_sorted (window_of (y_srv y) n)" for n x
    by (simp_all add: w)
  ultimately show ?thesis
    using assms(1,2) unfolding rpc_inv_def issued_def by simp
qed

lemma rpc_step_inv: "rpc_step y y' \<Longrightarrow> rpc_inv y \<Longrightarrow> rpc_inv y'"
proof (induction rule: rpc_step.induct)
  case (rpc_reg proc hdl y s)
  then have "issued (y\<lparr>y_srv := s\<rparr>) = issued y" "window_of s = window_of (y_srv y)"
    by (auto simp: issued_def reg1_def window_of_def split: if_splits)
  then show ?case
    using rpc_reg.prems by (simp add: rpc_inv_def)
qed (auto intro: rpc_inv_begin rpc_inv_repeat rpc_inv_run rpc_inv_finish)

lemma rpc_reachable_inv: "rpc_reachable y \<Longrightarrow> rpc_inv y"
  by (induction rule: rpc_reachable.induct) (auto intro: rpc_inv_init rpc_step_inv)

text \<open>A client with nonce 9 binds to a server with nonce 3.\<close>

definition bind_handler :: "unit handler" where
  "bind_handler s u m = Inr (0, m, s)"

definition bind_request :: "u8 option list" where
  "bind_request = map Some [0, 0, 0, 24, 0, 0, 0, 1, 0, 0, 0, 1, 0, 0, 0, 9, 0, 0, 0, 0, 0, 0, 0, 0]"

definition ex_conn :: conn where
  "ex_conn = \<lparr>cn_id = 4, cn_create_time = \<lparr>tv_sec = 1, tv_nsec = 0\<rparr>\<rparr>"

definition ex_sys :: "unit rpc_sys" where
  "ex_sys = \<lparr>y_srv = rpcs_new 3 0 bind_handler, y_app = (), y_pend = [], y_ran = [], y_exec = [], y_replies = []\<rparr>"

lemma decref_frame [simp]: "s_nonce (decref c s) = s_nonce s" "s_procs (decref c s) = s_procs s"
  by (simp_all add: decref_def)

lemma bind_request_header:
  obtains u where "unpack_req_header (unmarshall_of_buf bind_request 24) =
     Inr (\<lparr>rq_xid = 1, rq_proc = 1, rq_clt_nonce = 9, rq_srv_nonce = 0, rq_xid_rep = 0\<rparr>, u)" "u_ok u"
proof -
  have "case unpack_req_header (unmarshall_of_buf bind_request 24) of Inl e \<Rightarrow> False
    | Inr (h, u) \<Rightarrow> u_ok u \<and> h = \<lparr>rq_xid = 1, rq_proc = 1, rq_clt_nonce = 9, rq_srv_nonce = 0, rq_xid_rep = 0\<rparr>"
    by code_simp
  then show ?thesis
    using that by (auto split: sum.splits)
qed

lemma ex_bound:
  obtains y h bs where "rpc_reachable (y :: unit rpc_sys)" "y_exec y = [(9, 1)]" "y_replies y = [((9, 1), bs)]"
    "s_nonce (y_srv y) = 3" "s_procs (y_srv y) 1 = Some bind_handler" "1 \<in> r_xid ` set (window_of (y_srv y) 9)"
proof -
  let ?h = "\<lparr>rq_xid = 1, rq_proc = 1, rq_clt_nonce = 9, rq_srv_nonce = 0, rq_xid_rep = 0\<rparr>"
  have good: "good_request bind_request 24"
    by (rule bind_request_header) (simp add: good_request_def)
  let ?s0 = "rpcs_new 3 0 bind_handler"
  obtain u s1 where b: "dispatch_begin ex_conn bind_request 24 ?s0 = Inr (Run ?h u bind_handler, [], s1)"
    and s1: "window_of s1 9 = [reply_new 1]" "s_nonce s1 = 3" "s_procs s1 = [1 \<mapsto> bind_handler]"
    by (rule bind_request_header)
       (simp add: dispatch_begin_def rpcs_new_def checkduplicate_and_update_def see_client_def
          incref_def window_of_def rpc_bind_def)
  let ?y1 = "ex_sys\<lparr>y_srv := s1, y_pend := [(ex_conn, ?h, u, bind_handler)]\<rparr>"
  have r1: "rpc_reachable ?y1"
    using rpc_next [OF rpc_init rpc_begin [OF good], of ex_conn 3 0 bind_handler "()"] b
    by (simp add: ex_sys_def)
  let ?y2 = "?y1\<lparr>y_pend := [], y_ran := [(ex_conn, ?h, 0, marshall_new)], y_exec := [(9, 1)]\<rparr>"
  have r2: "rpc_reachable ?y2"
    using rpc_next [OF r1 rpc_run [of ?y1 "[]" ex_conn ?h u bind_handler "[]" 0 marshall_new "()"]]
    by (simp add: ex_sys_def bind_handler_def key_def)
  have "\<exists>m. pack_reply_header \<lparr>rp_xid = 1, rp_ret = 0\<rparr> marshall_new = Inr m"
    using pack_reply_header_poke [OF m_inv_new] by (auto simp: marshall_new_def)
  then obtain m where "pack_reply_header \<lparr>rp_xid = 1, rp_ret = 0\<rparr> marshall_new = Inr m"
    by blast
  then obtain s2 where f: "dispatch_finish (\<lambda>_. False) ex_conn ?h 0 marshall_new s1 = Inr ([(4, take (m_ind m) (m_buf m))], s2)"
    and s2: "window_of s2 9 = set_reply 1 (m_buf m) (m_ind m) [reply_new 1]"
      "s_nonce s2 = 3" "s_procs s2 = [1 \<mapsto> bind_handler]"
    using s1
    by (simp add: dispatch_finish_def marshall_take_buf_def unmarshal_args_failure_def ex_conn_def
          add_reply_def set_reply_def)
  have r3: "rpc_reachable (?y2\<lparr>y_srv := s2, y_ran := [], y_replies := [((9, 1), take (m_ind m) (m_buf m))]\<rparr>)"
    using rpc_next [OF r2 rpc_finish [of ?y2 "[]" ex_conn ?h 0 marshall_new "[]" "\<lambda>_. False"]] f
    by (simp add: ex_sys_def key_def)
  show ?thesis
    by (rule that [OF r3]) (use s2 in \<open>simp_all add: ex_sys_def set_reply_def reply_new_def\<close>)
qed

lemma reply_unique:
  assumes "rpc_inv y" "(k, bs) \<in> set (y_replies y)" "(k, bs') \<in> set (y_replies y)" "fst k \<noteq> 0"
  shows "bs = bs'"
proof -
  let ?ran = "map (\<lambda>(c, h, ret, rep). key h) (y_ran y)"
  have "mset (?ran @ map fst (y_replies y)) = mset (y_exec y)" "at_most_once (y_exec y)"
    using assms(1) unfolding rpc_inv_def issued_def at_most_once_def by auto
  then have "at_most_once (?ran @ map fst (y_replies y))"
    using at_most_once_mset by blast
  then have d: "distinct (map fst (filter (\<lambda>r. fst (fst r) \<noteq> 0) (y_replies y)))"
    by (simp add: at_most_once_def filter_map o_def)
  show ?thesis
    by (rule eq_key_imp_eq_value [OF d]) (use assms in auto)
qed

section \<open>Properties of the server\<close>

text \<open>
  C3: At-most-once execution: however requests are repeated, reordered and served concurrently, for
  every client that asks for it (nonce not 0) the handler of a given call runs at most once.
\<close>

theorem rpc_at_most_once:
  assumes "rpc_reachable y"
  shows "distinct (filter (\<lambda>(n, x). n \<noteq> 0) (y_exec y))"
proof -
  have "at_most_once (issued y)"
    using rpc_reachable_inv [OF assms] by (simp add: rpc_inv_def)
  then show ?thesis
    by (simp add: at_most_once_def issued_def case_prod_beta')
qed

theorem rpc_at_most_once_witness:
  "\<exists>y :: unit rpc_sys. rpc_reachable y \<and> y_exec y = [(9, 1)] \<and> distinct (filter (\<lambda>(n, x). n \<noteq> 0) (y_exec y))"
  by (rule ex_bound) (use rpc_at_most_once in blast)



lemma marshall_new_ind: "m_ind marshall_new = RPC_HEADER_SZ"
  by (simp add: marshall_new_def)

text \<open>
  A client that does not use at-most-once (nonce 0) and whose connection died while its handler
  ran makes the server dereference a null connection: no connection is ever saved for nonce 0.
\<close>

theorem dispatch_nonce0_dead:
  assumes "s_conns s 0 = None" "isdead (cn_id c)" "rq_clt_nonce h = 0" "0 <=s ret"
    and "m_inv rep" "RPC_HEADER_SZ \<le> m_ind rep"
  shows "dispatch_finish isdead c h ret rep s = Inl NullDeref"
proof -
  obtain rep' where "pack_reply_header \<lparr>rp_xid = rq_xid h, rp_ret = ret\<rparr> rep = Inr rep'"
    using pack_reply_header_poke [OF assms(5,6)] by blast
  then show ?thesis
    using assms(1-4)
    by (auto simp: dispatch_finish_def marshall_take_buf_def unmarshal_args_failure_def signed)
qed

theorem dispatch_nonce0_dead_witness:
  "dispatch_finish (\<lambda>i. i = 4) ex_conn
     \<lparr>rq_xid = 2, rq_proc = 7, rq_clt_nonce = 0, rq_srv_nonce = 0, rq_xid_rep = 0\<rparr> 0 marshall_new
     (rpcs_new 3 0 bind_handler) = Inl NullDeref"
  by (rule dispatch_nonce0_dead) (simp_all add: rpcs_new_def ex_conn_def marshall_new_ind)

lemma dispatch_failure_sends:
  "\<exists>bs. dispatch_failure c h ret = Inr [(cn_id c, bs)]"
  using pack_reply_header_poke [OF m_inv_new, of "\<lparr>rp_xid = rq_xid h, rp_ret = ret\<rparr>"]
  by (auto simp: dispatch_failure_def marshall_new_def)

text \<open>
  A request for an earlier instance of the server is refused with a reply and without running
  anything, but the reference \<^verbatim>\<open>got_pdu\<close> took on the connection is not given back: the server's
  state after the request is the one \<^verbatim>\<open>got_pdu\<close> left.
\<close>

theorem dispatch_old_server_keeps_reference:
  assumes "unpack_req_header (unmarshall_of_buf b sz) = Inr (h, u)" "u_ok u"
    and "rq_srv_nonce h \<noteq> 0" "rq_srv_nonce h \<noteq> s_nonce s" "s_reachable s"
    and "rpcs_got_pdu c True s = (r, job, s1)"
  shows "\<exists>bs. dispatch_begin c b sz s1 = Inr (Finished, [(cn_id c, bs)], s1)
           \<and> s_refs s1 (cn_id c) = s_refs s (cn_id c) + 1"
proof -
  have s1: "s1 = incref c s"
    using assms(5,6) by (simp add: rpcs_got_pdu_def)
  obtain bs where "dispatch_failure c h oldsrv_failure = Inr [(cn_id c, bs)]"
    using dispatch_failure_sends by blast
  then show ?thesis
    using assms(1-4) by (simp add: s1 dispatch_begin_def incref_def)
qed

theorem dispatch_old_server_keeps_reference_witness:
  "\<exists>bs (s1 :: unit rpcs). dispatch_begin ex_conn
      (map Some [0, 0, 0, 24, 0, 0, 0, 1, 0, 0, 0, 1, 0, 0, 0, 9, 0, 0, 0, 8, 0, 0, 0, 0]) 24 s1
     = Inr (Finished, [(4, bs)], s1) \<and> s_refs s1 4 = s_refs (rpcs_new 3 0 bind_handler) 4 + 1"
proof -
  let ?b = "map Some [0, 0, 0, 24, 0, 0, 0, 1, 0, 0, 0, 1, 0, 0, 0, 9, 0, 0, 0, 8, 0, 0, 0, 0]"
  let ?s = "rpcs_new 3 0 bind_handler"
  have "case unpack_req_header (unmarshall_of_buf ?b 24) of Inl e \<Rightarrow> False
    | Inr (h, u) \<Rightarrow> u_ok u \<and> rq_srv_nonce h = 8"
    by code_simp
  then obtain h u where h: "unpack_req_header (unmarshall_of_buf ?b 24) = Inr (h, u)" "u_ok u" "rq_srv_nonce h = 8"
    by (auto split: sum.splits)
  have g: "rpcs_got_pdu ex_conn True ?s = (True, True, incref ex_conn ?s)"
    by (simp add: rpcs_got_pdu_def rpcs_new_def)
  have "\<exists>bs. dispatch_begin ex_conn ?b 24 (incref ex_conn ?s) = Inr (Finished, [(cn_id ex_conn, bs)], incref ex_conn ?s)
      \<and> s_refs (incref ex_conn ?s) (cn_id ex_conn) = s_refs ?s (cn_id ex_conn) + 1"
    by (rule dispatch_old_server_keeps_reference [OF h(1,2) _ _ _ g]) (simp_all add: h(3) rpcs_new_def)
  moreover have "cn_id ex_conn = 4"
    by (simp add: ex_conn_def)
  ultimately show ?thesis
    by auto
qed

text \<open>
  A call that was never received is treated as forgotten when a later call of the same client
  has reached an empty window first.
\<close>

theorem first_call_overtaken:
  "fst (checkduplicate_and_update n 1 0
     (snd (snd (snd (checkduplicate_and_update n 2 0 (rpcs_new nonce cnt bh)))))) = FORGOTTEN"
  by (simp add: checkduplicate_and_update_def rpcs_new_def window_of_def reply_new_def
      sliding_window_size_def Let_def)

end
