(* ===== verification/Extent.thy ===== *)
theory Extent
  imports Rpc_Server
begin

text \<open>
  The extent protocol (\<^verbatim>\<open>extent_protocol.h\<close>), the extent server (\<^verbatim>\<open>extent_server.cc\<close>) and the
  write-back cache of the extent client (\<^verbatim>\<open>extent_client.cc\<close>). The operations of the client run
  on the pair of its cache and the server. A failed \<^verbatim>\<open>assert\<close> is the fault
  \<open>VerifyFailed\<close>. The locale \<open>extent_store\<close> is what the file system relies on.
\<close>

unbundle bit_operations_syntax

section \<open>Protocol\<close>

type_synonym extentid_t = u64

definition ext_OK :: i32 where "ext_OK = 0"
definition ext_RPCERR :: i32 where "ext_RPCERR = 1"
definition ext_NOENT :: i32 where "ext_NOENT = 2"
definition ext_IOERR :: i32 where "ext_IOERR = 3"

definition ext_put :: u32 where "ext_put = 0x6001"
definition ext_get :: u32 where "ext_get = ext_put + 1"
definition ext_getattr :: u32 where "ext_getattr = ext_put + 2"
definition ext_remove :: u32 where "ext_remove = ext_put + 3"

record attr =
  a_atime :: u32
  a_mtime :: u32
  a_ctime :: u32
  a_size :: u32

definition marshall_attr :: "attr \<Rightarrow> marshall \<Rightarrow> marshall res" where
  "marshall_attr a m =
     bindR (marshall_uint (a_atime a) m) (\<lambda>m.
     bindR (marshall_uint (a_mtime a) m) (\<lambda>m.
     bindR (marshall_uint (a_ctime a) m) (\<lambda>m.
       marshall_uint (a_size a) m)))"

definition unmarshall_attr :: "unmarshall \<Rightarrow> (attr \<times> unmarshall) res" where
  "unmarshall_attr u =
     bindR (unmarshall_uint u) (\<lambda>(at, u).
     bindR (unmarshall_uint u) (\<lambda>(mt, u).
     bindR (unmarshall_uint u) (\<lambda>(ct, u).
     bindR (unmarshall_uint u) (\<lambda>(sz, u).
       Inr (\<lparr>a_atime = at, a_mtime = mt, a_ctime = ct, a_size = sz\<rparr>, u)))))"

section \<open>The server\<close>

text \<open>
  What an operation finds in its environment: the values its calls of \<^verbatim>\<open>time(NULL)\<close> return, and
  the \<^verbatim>\<open>atime\<close> field of an attribute block that \<^verbatim>\<open>new\<close> returns, which \<^verbatim>\<open>put\<close> never sets.
\<close>

record ext_times =
  t_atime :: u32
  t_ctime :: u32
  t_mtime :: u32
  t_junk :: u32

record filedata =
  file_content :: string
  file_attr :: attr

type_synonym extent_server = "extentid_t \<rightharpoonup> filedata"

definition is_inum_present :: "extentid_t \<Rightarrow> extent_server \<Rightarrow> bool" where
  "is_inum_present i s \<longleftrightarrow> s i \<noteq> None"

definition put_attr :: "ext_times \<Rightarrow> string \<Rightarrow> attr \<Rightarrow> attr" where
  "put_attr t buf a = a\<lparr>a_size := of_nat (length buf), a_ctime := t_ctime t, a_mtime := t_mtime t\<rparr>"

definition new_attr :: "ext_times \<Rightarrow> string \<Rightarrow> attr" where
  "new_attr t buf =
     \<lparr>a_atime = t_junk t, a_mtime = t_mtime t, a_ctime = t_ctime t, a_size = of_nat (length buf)\<rparr>"

definition es_put :: "ext_times \<Rightarrow> extentid_t \<Rightarrow> string \<Rightarrow> extent_server \<Rightarrow> i32 \<times> extent_server" where
  "es_put t i buf s =
     (case s i of
        Some d \<Rightarrow> (ext_OK, s(i \<mapsto> \<lparr>file_content = buf, file_attr = put_attr t buf (file_attr d)\<rparr>))
      | None \<Rightarrow> (ext_OK, s(i \<mapsto> \<lparr>file_content = buf, file_attr = new_attr t buf\<rparr>)))"

definition es_get :: "ext_times \<Rightarrow> extentid_t \<Rightarrow> extent_server \<Rightarrow> i32 \<times> string option \<times> extent_server" where
  "es_get t i s =
     (case s i of
        Some d \<Rightarrow>
          (ext_OK, Some (file_content d), s(i \<mapsto> d\<lparr>file_attr := (file_attr d)\<lparr>a_atime := t_atime t\<rparr>\<rparr>))
      | None \<Rightarrow> (ext_IOERR, None, s))"

definition es_getattr :: "extentid_t \<Rightarrow> extent_server \<Rightarrow> i32 \<times> attr option" where
  "es_getattr i s = (case s i of Some d \<Rightarrow> (ext_OK, Some (file_attr d)) | None \<Rightarrow> (ext_IOERR, None))"

definition es_remove :: "extentid_t \<Rightarrow> extent_server \<Rightarrow> i32 \<times> extent_server" where
  "es_remove i s = (ext_OK, s(i := None))"

definition es_isfile :: "extentid_t \<Rightarrow> bool" where
  "es_isfile i \<longleftrightarrow> i AND 0x80000000 \<noteq> 0"

definition es_isdir :: "extentid_t \<Rightarrow> bool" where
  "es_isdir i \<longleftrightarrow> \<not> es_isfile i"

text \<open>The handler that \<^verbatim>\<open>extent_smain.cc\<close> registers for \<^verbatim>\<open>remove\<close>; its result is an \<^verbatim>\<open>int\<close> nobody sets.\<close>

definition es_remove_fn ::
  "i32 \<Rightarrow> extent_server \<Rightarrow> unmarshall \<Rightarrow> marshall \<Rightarrow> (i32 \<times> marshall \<times> extent_server) res" where
  "es_remove_fn junk =
     handler_fn1 unmarshall_ull marshall_int (\<lambda>s i. let (r, s) = es_remove i s in (r, junk, s))"

section \<open>The client cache\<close>

record cached =
  c_content :: string
  c_attr :: attr
  c_is_dirty :: bool
  c_is_removed :: bool

type_synonym extent_client = "extentid_t \<rightharpoonup> cached"

type_synonym ext_world = "extent_client \<times> extent_server"

definition ec_getattr :: "extentid_t \<Rightarrow> ext_world \<Rightarrow> (attr \<times> ext_world) res" where
  "ec_getattr eid = (\<lambda>(c, s).
     case c eid of
       Some d \<Rightarrow> Inr (c_attr d, (c, s))
     | None \<Rightarrow>
         (case es_getattr eid s of
            (r, Some a) \<Rightarrow> if r = ext_OK then Inr (a, (c, s)) else Inl VerifyFailed
          | (r, None) \<Rightarrow> Inl VerifyFailed))"

definition ec_get :: "ext_times \<Rightarrow> extentid_t \<Rightarrow> ext_world \<Rightarrow> (string \<times> ext_world) res" where
  "ec_get t eid = (\<lambda>(c, s).
     case c eid of
       Some d \<Rightarrow>
         Inr (c_content d, (c(eid \<mapsto> d\<lparr>c_attr := (c_attr d)\<lparr>a_atime := t_atime t\<rparr>\<rparr>), s))
     | None \<Rightarrow>
         (case es_get t eid s of
            (r, Some buf, s) \<Rightarrow>
              if r \<noteq> ext_OK then Inl VerifyFailed
              else bindR (ec_getattr eid (c, s)) (\<lambda>(a, (c, s)).
                     Inr (buf, (c(eid \<mapsto> \<lparr>c_content = buf, c_attr = a, c_is_dirty = False,
                            c_is_removed = False\<rparr>), s)))
          | (r, None, s) \<Rightarrow> Inl VerifyFailed))"

definition ec_put :: "ext_times \<Rightarrow> extentid_t \<Rightarrow> string \<Rightarrow> ext_world \<Rightarrow> i32 \<times> ext_world" where
  "ec_put t eid buf = (\<lambda>(c, s).
     (ext_OK,
      case c eid of
        Some d \<Rightarrow>
          (c(eid \<mapsto> d\<lparr>c_content := buf, c_attr := put_attr t buf (c_attr d), c_is_dirty := True\<rparr>), s)
      | None \<Rightarrow>
          (c(eid \<mapsto> \<lparr>c_content = buf, c_attr = new_attr t buf, c_is_dirty = True,
             c_is_removed = False\<rparr>), s)))"

definition ec_remove :: "extentid_t \<Rightarrow> ext_world \<Rightarrow> i32 \<times> ext_world" where
  "ec_remove eid = (\<lambda>(c, s).
     case c eid of
       Some d \<Rightarrow> (ext_OK, (c(eid \<mapsto> d\<lparr>c_is_removed := True\<rparr>), s))
     | None \<Rightarrow> (ext_IOERR, (c, s)))"

text \<open>
  \<^verbatim>\<open>cl->call(extent_protocol::remove,eid)\<close> selects the overload of \<^verbatim>\<open>rpcc::call\<close> with no argument
  and takes \<^verbatim>\<open>eid\<close> for the result, so the server unmarshals from a request that ends after its
  header. \<open>remove_no_args\<close> runs the handler on such a request, and then the \<^verbatim>\<open>VERIFY\<close>s of
  \<^verbatim>\<open>rpcs::dispatch\<close> on its status.
\<close>

definition remove_no_args :: "i32 \<Rightarrow> extent_server \<Rightarrow> (i32 \<times> extent_server) res" where
  "remove_no_args junk s =
     bindR (es_remove_fn junk s ((received (\<lambda>_. 0) marshall_new)\<lparr>u_ind := RPC_HEADER_SZ\<rparr>) marshall_new)
       (\<lambda>(ret, rep, s).
          if ret = unmarshal_args_failure \<or> ret <s 0 then Inl VerifyFailed else Inr (ret, s))"

definition ec_flush :: "ext_times \<Rightarrow> extentid_t \<Rightarrow> ext_world \<Rightarrow> (i32 \<times> ext_world) res" where
  "ec_flush t eid = (\<lambda>(c, s).
     case c eid of
       None \<Rightarrow> Inr (ext_OK, (c, s))
     | Some d \<Rightarrow>
         bindR (if c_is_removed d then remove_no_args (scast (t_junk t)) s
                else if c_is_dirty d then Inr (es_put t eid (c_content d) s)
                else Inr (ext_OK, s)) (\<lambda>(r, s).
           if r = ext_OK then Inr (ext_OK, (c(eid := None), s)) else Inl VerifyFailed))"

section \<open>Attributes on the wire\<close>

definition enc_attr :: "attr \<Rightarrow> u8 list" where
  "enc_attr a = be32 (a_atime a) @ be32 (a_mtime a) @ be32 (a_ctime a) @ be32 (a_size a)"

interpretation attr_codec: codec marshall_attr unmarshall_attr enc_attr "\<lambda>_. True"
proof
  fix m x assume "m_inv m"
  then show "\<exists>m'. marshall_attr x m = Inr m' \<and> appends m (enc_attr x) m'"
    unfolding marshall_attr_def enc_attr_def by (intro appends_bind uint_appends)
next
  fix u x r assume "u_ready u (enc_attr x @ r)"
  note u0 = this [unfolded enc_attr_def append_assoc]
  note u1 = u0 [THEN u_ready_advance] and u2 = u0 [THEN u_ready_advance, THEN u_ready_advance]
    and u3 = u0 [THEN u_ready_advance, THEN u_ready_advance, THEN u_ready_advance]
  show "unmarshall_attr u = Inr (x, advance (length (enc_attr x)) u)"
    using u0 [THEN uint_ready] u1 [THEN uint_ready] u2 [THEN uint_ready] u3 [THEN uint_ready]
    by (simp add: unmarshall_attr_def enc_attr_def)
qed

section \<open>What the cache and the server hold\<close>

definition ext_content :: "ext_world \<Rightarrow> extentid_t \<Rightarrow> string option" where
  "ext_content = (\<lambda>(c, s) i.
     case c i of Some d \<Rightarrow> Some (c_content d) | None \<Rightarrow> map_option file_content (s i))"

text \<open>Every size field is the length of the content beside it, as a 32-bit number.\<close>

definition ext_ok :: "ext_world \<Rightarrow> bool" where
  "ext_ok = (\<lambda>(c, s).
     (\<forall>i d. c i = Some d \<longrightarrow> a_size (c_attr d) = of_nat (length (c_content d))) \<and>
     (\<forall>i d. s i = Some d \<longrightarrow> a_size (file_attr d) = of_nat (length (file_content d))))"

lemmas ext_simps = ec_get_def ec_put_def ec_getattr_def ec_remove_def ec_flush_def
  es_get_def es_put_def es_getattr_def es_remove_def ext_content_def

lemma put_attr_size [simp]:
  "a_size (put_attr t buf a) = of_nat (length buf)" "a_size (new_attr t buf) = of_nat (length buf)"
  by (simp_all add: put_attr_def new_attr_def)

lemma ec_get_cases:
  "ec_get t i w =
     (case ext_content w i of None \<Rightarrow> Inl VerifyFailed
      | Some buf \<Rightarrow> Inr (buf, snd (projr (ec_get t i w))))"
  by (cases w) (auto simp: ext_simps split: option.splits)

lemma ec_get_content:
  assumes "ec_get t i w = Inr (buf, w')"
  shows "ext_content w i = Some buf" and "ext_content w' = ext_content w"
  using assms by (cases w; auto simp: ext_simps fun_eq_iff split: option.splits)+

lemma ec_put_content:
  "ext_content (snd (ec_put t i buf w)) = (ext_content w)(i \<mapsto> buf)" "fst (ec_put t i buf w) = ext_OK"
  by (cases w; auto simp: ext_simps fun_eq_iff split: option.splits)+

lemma ec_remove_content: "ext_content (snd (ec_remove i w)) = ext_content w"
  by (cases w) (auto simp: ext_simps fun_eq_iff split: option.splits)

text \<open>A request without arguments fails every handler that takes one, and \<^verbatim>\<open>dispatch\<close> with it.\<close>

lemma rawbyte_at_end: "u_sz u \<le> u_ind u \<Longrightarrow> unmarshall_rawbyte u = Inr (0, u\<lparr>u_ok := False\<rparr>)"
  by (simp add: unmarshall_rawbyte_def)

lemma ull_at_end: "u_sz u \<le> u_ind u \<Longrightarrow> unmarshall_ull u = Inr (0, u\<lparr>u_ok := False\<rparr>)"
  by (simp add: unmarshall_ull_def unmarshall_uint_def rawbyte_at_end)

lemma es_remove_fn_at_end:
  "u_sz u \<le> u_ind u \<Longrightarrow> es_remove_fn junk s u ret = Inr (unmarshal_args_failure, ret, s)"
  by (simp add: es_remove_fn_def handler_fn1_def ull_at_end okdone_def)

lemma remove_no_args_fails [simp]: "remove_no_args junk s = Inl VerifyFailed"
  by (simp add: remove_no_args_def es_remove_fn_at_end marshall_new_def)

lemma ec_flush_cases:
  assumes "ec_flush t i (c, s) = Inr (r, w')"
  obtains "c i = None" "r = ext_OK" "w' = (c, s)"
  | d where "c i = Some d" "\<not> c_is_removed d" "\<not> c_is_dirty d" "r = ext_OK" "w' = (c(i := None), s)"
  | d where "c i = Some d" "\<not> c_is_removed d" "c_is_dirty d" "r = ext_OK"
      "w' = (c(i := None), snd (es_put t i (c_content d) s))"
proof (cases "c i")
  case None
  then show ?thesis
    using assms that(1) by (simp add: ec_flush_def)
next
  case (Some d)
  then have "\<not> c_is_removed d"
    using assms by (auto simp: ec_flush_def)
  moreover have "fst (es_put t i (c_content d) s) = ext_OK"
    by (simp add: es_put_def split: option.splits)
  ultimately show ?thesis
    using assms that(2,3) [OF Some] Some
    by (cases "c_is_dirty d") (auto simp: ec_flush_def split: prod.splits if_splits)
qed

lemma es_put_content: "map_option file_content (snd (es_put t i buf s) j) =
    (if j = i then Some buf else map_option file_content (s j))"
  by (simp add: es_put_def split: option.splits)

lemma ec_flush_not_removed:
  assumes "\<And>d. fst w i = Some d \<Longrightarrow> \<not> c_is_removed d"
  shows "\<exists>w'. ec_flush t i w = Inr (ext_OK, w')"
  using assms by (cases w) (auto simp: ext_simps split: option.splits)

section \<open>The contract of an extent store\<close>

text \<open>
  What a client of the extent client relies on: \<open>get\<close> returns what \<open>content\<close> holds and leaves it,
  \<open>put\<close> replaces one entry, \<open>getattr\<close> reports the length of what \<open>get\<close> returns.
\<close>

locale extent_store =
  fixes get :: "extentid_t \<Rightarrow> 'w \<Rightarrow> (string \<times> 'w) res"
    and put :: "extentid_t \<Rightarrow> string \<Rightarrow> 'w \<Rightarrow> i32 \<times> 'w"
    and getattr :: "extentid_t \<Rightarrow> 'w \<Rightarrow> (attr \<times> 'w) res"
    and content :: "'w \<Rightarrow> extentid_t \<Rightarrow> string option"
    and ok :: "'w \<Rightarrow> bool"
  assumes get_absent: "content w i = None \<Longrightarrow> get i w = Inl VerifyFailed"
    and get_present: "content w i = Some buf \<Longrightarrow> \<exists>w'. get i w = Inr (buf, w')"
    and get_keeps: "get i w = Inr (buf, w') \<Longrightarrow> content w' = content w \<and> (ok w \<longrightarrow> ok w')"
    and put_content: "put i buf w = (r, w') \<Longrightarrow> r = ext_OK \<and> content w' = (content w)(i \<mapsto> buf) \<and> (ok w \<longrightarrow> ok w')"
    and getattr_size: "ok w \<Longrightarrow> content w i = Some buf \<Longrightarrow>
      \<exists>a. getattr i w = Inr (a, w) \<and> a_size a = of_nat (length buf)"
begin

lemma get_after_put:
  assumes "put i buf w = (r, w1)"
  shows "\<exists>w2. get i w1 = Inr (buf, w2)" "i \<noteq> j \<Longrightarrow> content w1 j = content w j"
  using put_content [OF assms] get_present [of w1 i buf] by auto

lemma get_twice: "get i w = Inr (buf, w') \<Longrightarrow> \<exists>w''. get i w' = Inr (buf, w'')"
  using get_keeps get_present get_absent
  by (metis (no_types, lifting) Inl_Inr_False Inr_inject not_Some_eq prod.inject)

lemma getattr_after_put:
  assumes "ok w" and "put i buf w = (r, w1)"
  shows "\<exists>a. getattr i w1 = Inr (a, w1) \<and> a_size a = of_nat (length buf)"
  using put_content [OF assms(2)] assms(1) by (intro getattr_size) auto

end

interpretation ec_store: extent_store "ec_get t" "ec_put t'" ec_getattr ext_content ext_ok
proof
  fix w :: ext_world and i
  assume "ext_content w i = None"
  then show "ec_get t i w = Inl VerifyFailed"
    by (subst ec_get_cases) simp
next
  fix w :: ext_world and i buf
  assume "ext_content w i = Some buf"
  then show "\<exists>w'. ec_get t i w = Inr (buf, w')"
    by (subst ec_get_cases) simp
next
  fix w w' :: ext_world and i buf
  assume g: "ec_get t i w = Inr (buf, w')"
  then have "ext_ok w \<longrightarrow> ext_ok w'"
    by (cases w) (auto simp: ext_simps ext_ok_def split: option.splits if_splits)
  then show "ext_content w' = ext_content w \<and> (ext_ok w \<longrightarrow> ext_ok w')"
    using ec_get_content [OF g] by simp
next
  fix w w' :: ext_world and i buf r
  assume p: "ec_put t' i buf w = (r, w')"
  then have "ext_ok w \<longrightarrow> ext_ok w'"
    by (cases w) (auto simp: ext_simps ext_ok_def split: option.splits if_splits)
  then show "r = ext_OK \<and> ext_content w' = (ext_content w)(i \<mapsto> buf) \<and> (ext_ok w \<longrightarrow> ext_ok w')"
    using ec_put_content [of t' i buf w] p by simp
next
  fix w :: ext_world and i buf
  assume "ext_ok w" "ext_content w i = Some buf"
  then show "\<exists>a. ec_getattr i w = Inr (a, w) \<and> a_size a = of_nat (length buf)"
    by (cases w) (auto simp: ext_simps ext_ok_def split: option.splits)
qed

section \<open>Removal\<close>

text \<open>
  Flushing a removed extent aborts the extent server. The call in \<^verbatim>\<open>extent_client::flush\<close> sends
  a \<^verbatim>\<open>remove\<close> request without the extent number, whatever its header; when it reaches the server
  as a new request, the handler cannot unmarshal its argument and \<^verbatim>\<open>rpcs::dispatch\<close> fails a
  \<^verbatim>\<open>VERIFY\<close>, in every state of the server.
\<close>

theorem flush_remove_aborts_server:
  assumes reg: "s_procs s ext_remove = Some (es_remove_fn junk)" "rq_proc h = ext_remove"
    and here: "rq_srv_nonce h = s_nonce s"
    and fresh: "fst (checkduplicate_and_update (rq_clt_nonce h) (rq_xid h) (rq_xid_rep h)
      (see_client c (rq_clt_nonce h) s)) = NEW"
    and sent: "pack_req_header h marshall_new = Inr m"
  shows "dispatch isdead c (u_buf (received pad m)) (m_ind m) (s, es) = Inl VerifyFailed"
proof -
  obtain m' u where "pack_req_header h marshall_new = Inr m'"
      and un: "unpack_req_header (received pad m') = Inr (h, u)" and rest: "u_ready u []"
    using request_ready [of "[]" marshall_new h pad] by auto
  then have m': "m' = m"
    using sent by simp
  have buf: "unmarshall_of_buf (u_buf (received pad m)) (m_ind m) = received pad m"
    by (simp add: received_def unmarshall_of_buf_def)
  have "es_remove_fn junk es u marshall_new = Inr (unmarshal_args_failure, marshall_new, es)"
    using u_ready_length [OF rest] by (intro es_remove_fn_at_end) simp
  then show ?thesis
    using un rest reg here fresh
    by (auto simp: dispatch_def dispatch_begin_def dispatch_finish_def buf m' split: prod.splits)
qed

definition ex_req :: req_header where
  "ex_req = \<lparr>rq_xid = 1, rq_proc = ext_remove, rq_clt_nonce = 5, rq_srv_nonce = 7, rq_xid_rep = 0\<rparr>"

definition ex_rpcs :: "extent_server rpcs" where
  "ex_rpcs = (rpcs_new 7 0 (es_remove_fn 0))\<lparr>s_procs := [ext_remove \<mapsto> es_remove_fn 0]\<rparr>"

theorem flush_remove_aborts_server_witness:
  "\<exists>m. pack_req_header ex_req marshall_new = Inr m \<and>
     dispatch (\<lambda>_. False) \<lparr>cn_id = 1, cn_create_time = \<lparr>tv_sec = 0, tv_nsec = 0\<rparr>\<rparr> (u_buf (received (\<lambda>_. 0) m)) (m_ind m)
       (ex_rpcs, Map.empty) = Inl VerifyFailed"
proof -
  obtain m where m: "pack_req_header ex_req marshall_new = Inr m"
    using request_ready [of "[]" marshall_new ex_req] by auto
  have "dispatch (\<lambda>_. False) \<lparr>cn_id = 1, cn_create_time = \<lparr>tv_sec = 0, tv_nsec = 0\<rparr>\<rparr> (u_buf (received (\<lambda>_. 0) m)) (m_ind m)
      (ex_rpcs, Map.empty) = Inl VerifyFailed"
    by (rule flush_remove_aborts_server [OF _ _ _ _ m])
      (simp_all add: ex_rpcs_def ex_req_def rpcs_new_def see_client_def incref_def
        checkduplicate_and_update_def window_of_def)
  then show ?thesis
    using m by blast
qed

text \<open>
  Removal is only a flag of the cached copy: after \<^verbatim>\<open>remove\<close> of a cached extent the client still
  gets its old content, a later \<^verbatim>\<open>put\<close> does not take the flag back, and the content put is lost,
  because the flush takes the branch of the removal and fails.
\<close>

theorem put_after_remove_lost:
  assumes "ext_content w i = Some old" "fst w i \<noteq> None"
    and "ec_remove i w = (r1, w1)" "ec_put t i buf w1 = (r2, w2)"
  shows "(\<exists>w'. ec_get t' i w1 = Inr (old, w')) \<and> r1 = ext_OK \<and> r2 = ext_OK
    \<and> (\<exists>w'. ec_get t' i w2 = Inr (buf, w')) \<and> ec_flush t'' i w2 = Inl VerifyFailed"
proof -
  have "ext_content w1 = ext_content w" "ext_content w2 = (ext_content w1)(i \<mapsto> buf)"
    using ec_remove_content [of i w] ec_put_content(1) [of t i buf w1] assms(3,4) by simp_all
  then have "\<exists>w'. ec_get t' i w1 = Inr (old, w')" "\<exists>w'. ec_get t' i w2 = Inr (buf, w')"
    by (intro ec_store.get_present; simp add: assms(1))+
  moreover have "r1 = ext_OK" "r2 = ext_OK" "ec_flush t'' i w2 = Inl VerifyFailed"
    using assms(2-4) by (cases w; auto simp: ext_simps split: option.splits)+
  ultimately show ?thesis
    by blast
qed

definition ex_times :: ext_times where
  "ex_times = \<lparr>t_atime = 1, t_ctime = 2, t_mtime = 3, t_junk = 4\<rparr>"

definition ex_world :: ext_world where
  "ex_world = ([5 \<mapsto> \<lparr>c_content = ''old'', c_attr = \<lparr>a_atime = 0, a_mtime = 0, a_ctime = 0, a_size = 3\<rparr>,
     c_is_dirty = False, c_is_removed = False\<rparr>], Map.empty)"

theorem put_after_remove_lost_witness:
  "ec_flush ex_times 5 (snd (ec_put ex_times 5 ''new'' (snd (ec_remove 5 ex_world)))) = Inl VerifyFailed"
proof -
  have "ext_content ex_world 5 = Some ''old''" "fst ex_world 5 \<noteq> None"
    by (simp_all add: ex_world_def ext_content_def)
  from put_after_remove_lost [OF this prod.collapse [symmetric] prod.collapse [symmetric]] show ?thesis
    by blast
qed

end
