(* ===== verification/Extent_System.thy ===== *)
theory Extent_System
  imports Lock_System Extent
begin

text \<open>
  The write-back caches of the extent clients under the cached locks: the \<^verbatim>\<open>lock_release_user\<close> of
  \<^verbatim>\<open>lock_release_cache_user.cc\<close> flushes an extent when the lock of the same number goes back to
  the server. The threads use an extent only while they hold its lock, as \<^verbatim>\<open>yfs_client\<close> does.
  The result is cache coherence: \<open>get\<close> returns what was put last, by any client.
\<close>

section \<open>The system\<close>

definition dorelease :: "ext_times \<Rightarrow> lockid_t \<Rightarrow> ext_world \<Rightarrow> ext_world res" where
  "dorelease tm lid w = bindR (ec_flush tm lid w) (\<lambda>(r, w). Inr w)"

text \<open>\<open>f_cur\<close> is no state of the program: it records the last content put by anybody.\<close>

record file_sys =
  f_lock :: lock_sys
  f_cache :: "string \<Rightarrow> extent_client"
  f_es :: extent_server
  f_cur :: "extentid_t \<rightharpoonup> string"

definition file_sys_new :: "extent_server \<Rightarrow> file_sys" where
  "file_sys_new es = \<lparr>f_lock = lock_sys_new, f_cache = (\<lambda>_. Map.empty), f_es = es,
     f_cur = (\<lambda>i. map_option file_content (es i))\<rparr>"

text \<open>
  The step of the releaser thread contains the flush, which comes between \<open>releaser_begin\<close> and
  the release call while the client's mutex is held; all other steps of the locks are free.
\<close>

definition no_new_release :: "lock_sys \<Rightarrow> lock_sys \<Rightarrow> bool" where
  "no_new_release k k' \<longleftrightarrow> (\<forall>i. k_busy k' i = None \<or> k_busy k' i = k_busy k i)"

inductive fsys_step :: "file_sys \<Rightarrow> file_sys \<Rightarrow> bool" where
  fs_lock: "lsys_step (f_lock f) k \<Longrightarrow> no_new_release (f_lock f) k \<Longrightarrow> fsys_step f (f\<lparr>f_lock := k\<rparr>)"
| fs_releaser: "k_busy (f_lock f) i = None
    \<Longrightarrow> releaser_begin (k_cl (f_lock f) i) = Inr (Some lid, c)
    \<Longrightarrow> dorelease tm lid (f_cache f i, f_es f) = Inr (ca, es)
    \<Longrightarrow> fsys_step f (f\<lparr>f_lock := (f_lock f)\<lparr>k_cl := (k_cl (f_lock f))(i := c),
            k_busy := (k_busy (f_lock f))(i \<mapsto> (lid, release_test lid (k_srv (f_lock f))))\<rparr>,
          f_cache := (f_cache f)(i := ca), f_es := es\<rparr>)"
| fs_get: "(i, t, lid) \<in> set (k_holds (f_lock f))
    \<Longrightarrow> ec_get tm lid (f_cache f i, f_es f) = Inr (buf, ca, es)
    \<Longrightarrow> fsys_step f (f\<lparr>f_cache := (f_cache f)(i := ca), f_es := es\<rparr>)"
| fs_put: "(i, t, lid) \<in> set (k_holds (f_lock f))
    \<Longrightarrow> ec_put tm lid buf (f_cache f i, f_es f) = (r, ca, es)
    \<Longrightarrow> fsys_step f (f\<lparr>f_cache := (f_cache f)(i := ca), f_es := es, f_cur := (f_cur f)(lid \<mapsto> buf)\<rparr>)"
| fs_remove: "(i, t, lid) \<in> set (k_holds (f_lock f))
    \<Longrightarrow> ec_remove lid (f_cache f i, f_es f) = (r, ca, es)
    \<Longrightarrow> fsys_step f (f\<lparr>f_cache := (f_cache f)(i := ca), f_es := es\<rparr>)"

inductive fsys_reachable :: "file_sys \<Rightarrow> bool" where
  fsys_init: "fsys_reachable (file_sys_new es)"
| fsys_next: "fsys_reachable f \<Longrightarrow> fsys_step f f' \<Longrightarrow> fsys_reachable f'"

section \<open>Invariant\<close>

abbreviation owning :: "lock_st option \<Rightarrow> bool" where
  "owning st \<equiv> st \<in> {Some FREE, Some LOCKED, Some RELEASING}"

definition coherent :: "file_sys \<Rightarrow> bool" where
  "coherent f \<longleftrightarrow>
     (\<forall>i lid d. f_cache f i lid = Some d
        \<longrightarrow> owning (lock_map (k_cl (f_lock f) i) lid) \<and> f_cur f lid = Some (c_content d)) \<and>
     (\<forall>lid. (\<forall>i d. f_cache f i lid = Some d \<longrightarrow> \<not> c_is_dirty d)
        \<longrightarrow> map_option file_content (f_es f lid) = f_cur f lid)"

lemma owning_owner:
  assumes "lsys_inv k" "owning (lock_map (k_cl k i) lid)"
  shows "owner (k_srv k) lid = Some i"
  using lsys_invD(3) [OF assms(1), of i lid] assms(2) unfolding pair_ok_def local_ok_def by blast

lemma owning_unique:
  assumes "lsys_inv k" "owning (lock_map (k_cl k i) lid)" "owning (lock_map (k_cl k j) lid)"
  shows "i = j"
  using owning_owner [OF assms(1,2)] owning_owner [OF assms(1,3)] by simp

lemma holder_owning:
  assumes "lsys_inv k" "(i, t, lid) \<in> set (k_holds k)"
  shows "lock_map (k_cl k i) lid = Some LOCKED"
proof -
  have "(i, lid) \<in> slot ` set (k_holds k)"
    using assms(2) by (force simp: slot_def)
  then show ?thesis
    by (rule threads_ok_slot [OF lsys_invD(5) [OF assms(1)]])
qed

text \<open>Only the releaser thread makes a client give up a lock.\<close>

lemma owning_acquire:
  assumes "acquire_switch call lid (acquire_prepare lid c) s = Inr (r, c', s')"
    and "owning (lock_map c l)"
  shows "owning (lock_map c' l)"
  using assms
  by (auto simp: acquire_switch_def acquire_prepare_def set_st_def set_retry_def Let_def
      split: option.splits lock_st.splits prod.splits if_splits)

lemma owning_other:
  "acquire_retry call lid c s = (r, c', s') \<Longrightarrow> l \<noteq> lid \<Longrightarrow> lock_map c' l = lock_map c l"
  "lcc_release lid c = Inr (r', c') \<Longrightarrow> owning (lock_map c l) \<Longrightarrow> owning (lock_map c' l)"
  "revoke_handler lid c = Inr (r', c') \<Longrightarrow> owning (lock_map c l) \<Longrightarrow> owning (lock_map c' l)"
  "retry_handler lid c = (r', c') \<Longrightarrow> lock_map c' l = lock_map c l"
  "releaser_begin c = Inr (None, c') \<Longrightarrow> lock_map c' l = lock_map c l"
  by (auto simp: acquire_retry_def lcc_release_def revoke_handler_def retry_handler_def
      releaser_begin_def bindR_Inr_iff set_st_def set_retry_def Let_def
      split: option.splits prod.splits if_splits)

lemma owning_step:
  assumes "lsys_step k k'" "lsys_inv k" "no_new_release k k'" "owning (lock_map (k_cl k j) l)"
  shows "owning (lock_map (k_cl k' j) l)"
  using assms
proof (induction rule: lsys_step.induct)
  case (ls_acquire k i lid r c s t)
  then show ?case
    using owning_acquire [OF ls_acquire.hyps(2), of l] by auto
next
  case (ls_retry k i us t lid vs r c s)
  have "lock_map (k_cl k i) lid = Some ACQUIRING"
    using lsys_invD(4) [OF ls_retry.prems(1)] unfolding ls_retry.hyps(2) by (rule threads_ok_in)
  then show ?case
    using ls_retry.prems(3) owning_other(1) [OF ls_retry.hyps(3), of l] by (cases "l = lid") auto
next
  case (ls_release k i us t lid vs r c)
  then show ?case
    using owning_other(2) [OF ls_release.hyps(3), of l] by auto
next
  case (ls_releaser_idle k i c)
  then show ?case
    using owning_other(5) [OF ls_releaser_idle.hyps(2), of l] by auto
next
  case (ls_releaser k i lid c)
  then have False
    by (auto simp: no_new_release_def dest: spec [of _ i])
  then show ?case ..
next
  case (ls_revoke k i lid s r c)
  then show ?case
    using owning_other(3) [OF ls_revoke.hyps(3), of l] by auto
next
  case (ls_send_retry k i lid s r c)
  then show ?case
    using owning_other(4) [OF ls_send_retry.hyps(3), of l] by auto
qed auto

lemma coherentD:
  assumes "coherent f"
  shows "f_cache f i lid = Some d \<Longrightarrow> owning (lock_map (k_cl (f_lock f) i) lid)"
    and "f_cache f i lid = Some d \<Longrightarrow> f_cur f lid = Some (c_content d)"
    and "(\<And>i d. f_cache f i lid = Some d \<Longrightarrow> \<not> c_is_dirty d) \<Longrightarrow> map_option file_content (f_es f lid) = f_cur f lid"
  using assms unfolding coherent_def by blast+

text \<open>Where one client owns the lock, the other clients do not cache the extent.\<close>

lemma cached_only_by_owner:
  assumes "lsys_inv (f_lock f)" "coherent f" "owning (lock_map (k_cl (f_lock f) i) lid)"
    and "f_cache f j lid = Some d"
  shows "j = i"
  using owning_unique [OF assms(1) coherentD(1) [OF assms(2,4)] assms(3)] by simp

text \<open>A client that owns the lock sees the last content through its cache and the server.\<close>

lemma owner_content:
  assumes "lsys_inv (f_lock f)" "coherent f" "owning (lock_map (k_cl (f_lock f) i) lid)"
  shows "ext_content (f_cache f i, f_es f) lid = f_cur f lid"
proof (cases "f_cache f i lid")
  case None
  then have "map_option file_content (f_es f lid) = f_cur f lid"
    using cached_only_by_owner [OF assms] by (intro coherentD(3) [OF assms(2)]) auto
  then show ?thesis
    using None by (simp add: ext_content_def)
next
  case (Some d)
  then show ?thesis
    using coherentD(2) [OF assms(2) Some] by (simp add: ext_content_def)
qed

text \<open>
  An owner may change its entry for the extent and the server's: the state stays coherent when
  both together hold the current content and the server alone does unless the entry is dirty.
\<close>

lemma coherent_owner_step:
  assumes "lsys_inv (f_lock f)" "coherent f" "owning (lock_map (k_cl (f_lock f) i) lid)"
    and others: "\<And>l. l \<noteq> lid \<Longrightarrow> ca l = f_cache f i l"
      "\<And>l. l \<noteq> lid \<Longrightarrow> es l = f_es f l" "\<And>l. l \<noteq> lid \<Longrightarrow> cur l = f_cur f l"
    and entry: "\<And>d. ca lid = Some d \<Longrightarrow> cur lid = Some (c_content d)"
      "(\<And>d. ca lid = Some d \<Longrightarrow> \<not> c_is_dirty d) \<Longrightarrow> map_option file_content (es lid) = cur lid"
    and locks: "\<And>j l. owning (lock_map (k_cl (f_lock f) j) l) \<Longrightarrow> (j, l) \<noteq> (i, lid) \<or> ca lid \<noteq> None
      \<Longrightarrow> owning (lock_map (k_cl k j) l)"
  shows "coherent (f\<lparr>f_lock := k, f_cache := (f_cache f)(i := ca), f_es := es, f_cur := cur\<rparr>)"
proof -
  have cached: "owning (lock_map (k_cl k j) l) \<and> cur l = Some (c_content d)"
    if d: "((f_cache f)(i := ca)) j l = Some d" for j l d
  proof (cases "l = lid")
    case True
    have "j = i"
      using d True cached_only_by_owner [OF assms(1-3), of j d] by (cases "j = i") auto
    then have "ca lid = Some d"
      using d True by simp
    then show ?thesis
      using locks [OF assms(3)] entry(1) \<open>j = i\<close> True by simp
  next
    case False
    then have "f_cache f j l = Some d"
      using d others(1) by (cases "j = i") auto
    then show ?thesis
      using coherentD(1,2) [OF assms(2), of j l d] locks [of j l] others(3) False by simp
  qed
  have served: "map_option file_content (es l) = cur l"
    if clean: "\<And>j d. ((f_cache f)(i := ca)) j l = Some d \<Longrightarrow> \<not> c_is_dirty d" for l
  proof (cases "l = lid")
    case True
    then show ?thesis
      using entry(2) clean [of i] by simp
  next
    case False
    have "\<not> c_is_dirty d" if "f_cache f j l = Some d" for j d
      using clean [of j d] that others(1) [OF False] by (cases "j = i") auto
    then have "map_option file_content (f_es f l) = f_cur f l"
      by (intro coherentD(3) [OF assms(2)]) auto
    then show ?thesis
      using others(2,3) [OF False] by simp
  qed
  show ?thesis
    unfolding coherent_def using cached served by simp
qed

lemma get_effect:
  assumes "ec_get tm lid (c, s) = Inr (buf, ca, es)"
  shows "l \<noteq> lid \<Longrightarrow> ca l = c l" "l \<noteq> lid \<Longrightarrow> es l = s l"
    and "\<exists>d. ca lid = Some d \<and> c_content d = buf \<and> (c_is_dirty d \<longleftrightarrow> (\<exists>d0. c lid = Some d0 \<and> c_is_dirty d0))"
    and "map_option file_content (es lid) = map_option file_content (s lid)"
  using assms by (auto simp: ext_simps split: option.splits if_splits)

lemma remove_effect:
  assumes "ec_remove lid (c, s) = (r, ca, es)"
  shows "l \<noteq> lid \<Longrightarrow> ca l = c l" "es = s"
    and "ca lid = map_option (\<lambda>d. d\<lparr>c_is_removed := True\<rparr>) (c lid)"
  using assms by (auto simp: ext_simps split: option.splits if_splits)

lemma flush_effect:
  assumes "dorelease tm lid (c, s) = Inr (ca, es)"
  shows "ca = c(lid := None)" "l \<noteq> lid \<Longrightarrow> es l = s l"
    and "map_option file_content (es lid) =
      (case c lid of Some d \<Rightarrow> if c_is_dirty d then Some (c_content d) else map_option file_content (s lid)
       | None \<Rightarrow> map_option file_content (s lid))"
proof -
  obtain r where f: "ec_flush tm lid (c, s) = Inr (r, ca, es)"
    using assms by (auto simp: dorelease_def returns)
  show "ca = c(lid := None)"
    using f by (rule ec_flush_cases) auto
  show "es l = s l" if "l \<noteq> lid"
    using f by (rule ec_flush_cases) (use that in \<open>auto simp: es_put_def split: option.splits\<close>)
  show "map_option file_content (es lid) =
      (case c lid of Some d \<Rightarrow> if c_is_dirty d then Some (c_content d) else map_option file_content (s lid)
       | None \<Rightarrow> map_option file_content (s lid))"
    using f by (rule ec_flush_cases) (auto simp: es_put_content)
qed

lemma releaser_begin_owning:
  assumes "releaser_begin c = Inr (Some lid, c')"
  shows "lock_map c lid = Some RELEASING" "l \<noteq> lid \<Longrightarrow> lock_map c' l = lock_map c l"
  using assms
  by (auto simp: releaser_begin_def returns set_st_def split: option.splits dest!: releaser_scan_split)

lemma holder_clean:
  assumes "lsys_inv (f_lock f)" "coherent f" "owning (lock_map (k_cl (f_lock f) i) lid)"
    and "\<And>d. f_cache f i lid = Some d \<Longrightarrow> \<not> c_is_dirty d"
  shows "map_option file_content (f_es f lid) = f_cur f lid"
  using cached_only_by_owner [OF assms(1-3)] assms(4) by (intro coherentD(3) [OF assms(2)]) blast

lemma coherent_lock:
  assumes "coherent f" "\<And>j l. owning (lock_map (k_cl (f_lock f) j) l) \<Longrightarrow> owning (lock_map (k_cl k j) l)"
  shows "coherent (f\<lparr>f_lock := k\<rparr>)"
  using assms unfolding coherent_def by simp

lemma coherent_releaser:
  assumes inv: "lsys_inv (f_lock f)" and coh: "coherent f"
    and rb: "releaser_begin (k_cl (f_lock f) i) = Inr (Some lid, c)"
    and fl: "dorelease tm lid (f_cache f i, f_es f) = Inr (ca, es)"
  shows "coherent (f\<lparr>f_lock := (f_lock f)\<lparr>k_cl := (k_cl (f_lock f))(i := c), k_busy := b\<rparr>,
    f_cache := (f_cache f)(i := ca), f_es := es\<rparr>)"
proof -
  have own: "owning (lock_map (k_cl (f_lock f) i) lid)"
    using releaser_begin_owning(1) [OF rb] by simp
  note eff = flush_effect [OF fl]
  have "map_option file_content (es lid) = f_cur f lid"
    using eff(3) holder_clean [OF inv coh own] coherentD(2) [OF coh, of i lid]
    by (auto split: option.splits if_splits)
  then have "coherent (f\<lparr>f_lock := (f_lock f)\<lparr>k_cl := (k_cl (f_lock f))(i := c), k_busy := b\<rparr>,
    f_cache := (f_cache f)(i := ca), f_es := es, f_cur := f_cur f\<rparr>)"
    using eff releaser_begin_owning(2) [OF rb]
    by (intro coherent_owner_step [OF inv coh own]) (auto split: if_splits)
  then show ?thesis
    by simp
qed

lemma coherent_get:
  assumes inv: "lsys_inv (f_lock f)" and coh: "coherent f" and own: "owning (lock_map (k_cl (f_lock f) i) lid)"
    and g: "ec_get tm lid (f_cache f i, f_es f) = Inr (buf, ca, es)"
  shows "coherent (f\<lparr>f_cache := (f_cache f)(i := ca), f_es := es\<rparr>)"
proof -
  have cur: "f_cur f lid = Some buf"
    using ec_get_content(1) [OF g] owner_content [OF inv coh own] by simp
  have "map_option file_content (es lid) = f_cur f lid" if "\<And>d. ca lid = Some d \<Longrightarrow> \<not> c_is_dirty d"
    using that get_effect(3,4) [OF g] holder_clean [OF inv coh own] by auto
  then have "coherent (f\<lparr>f_lock := f_lock f, f_cache := (f_cache f)(i := ca), f_es := es, f_cur := f_cur f\<rparr>)"
    using get_effect(1-3) [OF g] cur by (intro coherent_owner_step [OF inv coh own]) auto
  then show ?thesis
    by simp
qed

lemma coherent_put:
  assumes inv: "lsys_inv (f_lock f)" and coh: "coherent f" and own: "owning (lock_map (k_cl (f_lock f) i) lid)"
    and p: "ec_put tm lid buf (f_cache f i, f_es f) = (r, ca, es)"
  shows "coherent (f\<lparr>f_cache := (f_cache f)(i := ca), f_es := es, f_cur := (f_cur f)(lid \<mapsto> buf)\<rparr>)"
proof -
  have "ca lid \<noteq> None" "\<And>d. ca lid = Some d \<Longrightarrow> c_content d = buf \<and> c_is_dirty d"
      "\<And>l. l \<noteq> lid \<Longrightarrow> ca l = f_cache f i l" "es = f_es f"
    using p by (auto simp: ec_put_def split: option.splits)
  then have "coherent (f\<lparr>f_lock := f_lock f, f_cache := (f_cache f)(i := ca), f_es := es, f_cur := (f_cur f)(lid \<mapsto> buf)\<rparr>)"
    by (intro coherent_owner_step [OF inv coh own]) auto
  then show ?thesis
    by simp
qed

lemma coherent_remove:
  assumes inv: "lsys_inv (f_lock f)" and coh: "coherent f" and own: "owning (lock_map (k_cl (f_lock f) i) lid)"
    and rm: "ec_remove lid (f_cache f i, f_es f) = (r, ca, es)"
  shows "coherent (f\<lparr>f_cache := (f_cache f)(i := ca), f_es := es\<rparr>)"
proof -
  note eff = remove_effect [OF rm]
  have entry: "f_cur f lid = Some (c_content d)" if "ca lid = Some d" for d
    using that eff(3) coherentD(2) [OF coh, of i lid] by (cases "f_cache f i lid") auto
  have "map_option file_content (es lid) = f_cur f lid" if clean: "\<And>d. ca lid = Some d \<Longrightarrow> \<not> c_is_dirty d"
  proof -
    have "\<not> c_is_dirty d" if "f_cache f i lid = Some d" for d
      using clean [of "d\<lparr>c_is_removed := True\<rparr>"] eff(3) that by simp
    then show ?thesis
      using holder_clean [OF inv coh own] eff(2) by simp
  qed
  then have "coherent (f\<lparr>f_lock := f_lock f, f_cache := (f_cache f)(i := ca), f_es := es, f_cur := f_cur f\<rparr>)"
    using eff(1,2) entry by (intro coherent_owner_step [OF inv coh own]) auto
  then show ?thesis
    by simp
qed

lemma fsys_step_inv: "fsys_step f f' \<Longrightarrow> lsys_inv (f_lock f) \<Longrightarrow> coherent f \<Longrightarrow> lsys_inv (f_lock f') \<and> coherent f'"
proof (induction rule: fsys_step.induct)
  case (fs_lock f k)
  then show ?case
    using lsys_step_inv coherent_lock owning_step by simp
next
  case (fs_releaser f i lid c tm ca es)
  then show ?case
    using coherent_releaser lsys_inv_releaser by simp
next
  case (fs_get i t lid f tm buf ca es)
  then show ?case
    using coherent_get [OF fs_get.prems _ fs_get.hyps(2)] holder_owning [OF fs_get.prems(1) fs_get.hyps(1)] by simp
next
  case (fs_put i t lid f tm buf r ca es)
  then show ?case
    using coherent_put [OF fs_put.prems _ fs_put.hyps(2)] holder_owning [OF fs_put.prems(1) fs_put.hyps(1)] by simp
next
  case (fs_remove i t lid f r ca es)
  then show ?case
    using coherent_remove [OF fs_remove.prems _ fs_remove.hyps(2)] holder_owning [OF fs_remove.prems(1) fs_remove.hyps(1)] by simp
qed

lemma fsys_reachable_inv: "fsys_reachable f \<Longrightarrow> lsys_inv (f_lock f) \<and> coherent f"
proof (induction rule: fsys_reachable.induct)
  case (fsys_init es)
  show ?case
    by (simp add: file_sys_new_def lsys_inv_new coherent_def)
next
  case fsys_next
  then show ?case
    using fsys_step_inv by blast
qed

section \<open>Coherence\<close>

text \<open>
  C2: The cached locks make the extent caches coherent: in every reachable state of any number of
  clients with write-back caches, a thread that holds the lock of an extent gets the content
  that was put last, by whichever client, and \<open>get\<close> returns it without a failed assertion.
\<close>

theorem extent_caches_coherent:
  assumes "fsys_reachable f" and "(i, t, lid) \<in> set (k_holds (f_lock f))" and "f_cur f lid = Some buf"
  shows "\<exists>w. ec_get tm lid (f_cache f i, f_es f) = Inr (buf, w)"
proof -
  have inv: "lsys_inv (f_lock f)" "coherent f"
    using fsys_reachable_inv [OF assms(1)] by simp_all
  have "owning (lock_map (k_cl (f_lock f) i) lid)"
    using holder_owning [OF inv(1) assms(2)] by simp
  then show ?thesis
    using owner_content [OF inv] assms(3) by (intro ec_store.get_present) simp
qed

text \<open>Client a takes lock 5 and writes.\<close>

definition ex_locked :: file_sys where
  "ex_locked = (file_sys_new Map.empty)\<lparr>f_lock := ex_lsys\<rparr>"

definition ex_put :: "i32 \<times> ext_world" where
  "ex_put = ec_put \<lparr>t_atime = 1, t_ctime = 2, t_mtime = 3, t_junk = 4\<rparr> 5 ''hello''
     (f_cache ex_locked ''a'', f_es ex_locked)"

definition ex_fsys :: file_sys where
  "ex_fsys = ex_locked\<lparr>f_cache := (f_cache ex_locked)(''a'' := fst (snd ex_put)), f_es := snd (snd ex_put),
     f_cur := (f_cur ex_locked)(5 \<mapsto> ''hello'')\<rparr>"

lemma ex_fsys_reachable: "fsys_reachable ex_fsys"
proof -
  have "fsys_step (file_sys_new Map.empty) ex_locked"
    unfolding ex_locked_def
    by (rule fs_lock) (use ex_lsys_step in \<open>simp_all add: file_sys_new_def no_new_release_def ex_lsys_def lock_sys_new_def\<close>)
  then have "fsys_reachable ex_locked"
    by (rule fsys_next [OF fsys_init])
  moreover have "(''a'', 1, 5) \<in> set (k_holds (f_lock ex_locked))"
    by (simp add: ex_locked_def ex_lsys_def)
  then have "fsys_step ex_locked ex_fsys"
    unfolding ex_fsys_def
    by (rule fs_put [where r = "fst ex_put"]) (simp add: ex_put_def)
  ultimately show ?thesis
    by (rule fsys_next)
qed

theorem extent_caches_coherent_witness:
  "\<exists>w. ec_get \<lparr>t_atime = 9, t_ctime = 9, t_mtime = 9, t_junk = 9\<rparr> 5 (f_cache ex_fsys ''a'', f_es ex_fsys)
     = Inr (''hello'', w)"
  by (rule extent_caches_coherent [OF ex_fsys_reachable, where t = 1])
    (simp_all add: ex_fsys_def ex_put_def ex_locked_def ec_put_def file_sys_new_def ex_lsys_def)

end
