(* ===== verification/Rpc_Remote.thy ===== *)
theory Rpc_Remote
  imports Rpc_Stub Rpc_Server
begin

text \<open>
  Calls through the dispatcher: a stub writes the arguments, the request is packed and delivered to \<^verbatim>\<open>rpcs::dispatch\<close>, whose answer is
  delivered and read. A session is a sequence of such calls; it is shown to do what the methods do when they are called directly.
\<close>

section \<open>A call through the server\<close>

text \<open>
  The request is packed, delivered and dispatched, and the block that the server sends is delivered and unpacked. \<open>None\<close> for a request that gets no answer.
\<close>

definition remote_call ::
  "(nat \<Rightarrow> bool) \<Rightarrow> conn \<Rightarrow> req_header \<Rightarrow> (nat \<Rightarrow> u8) \<Rightarrow> (nat \<Rightarrow> u8) \<Rightarrow> marshall \<Rightarrow> 's rpcs \<times> 's
     \<Rightarrow> ((i32 \<times> unmarshall) option \<times> 's rpcs \<times> 's) res" where
  "remote_call isdead c h junk1 junk2 req y =
     bindR (pack_req_header h req) (\<lambda>m.
     bindR (dispatch isdead c (u_buf (received junk1 m)) (m_ind m) y) (\<lambda>(snt, y).
       case snt of
         [(i, bs)] \<Rightarrow>
           bindR (unpack_reply_header (received junk2 \<lparr>m_buf = bs, m_capa = length bs, m_ind = length bs\<rparr>)) (\<lambda>(rh, u).
             Inr (Some (rp_ret rh, fst (take_in unmarshall_null u)), y))
       | _ \<Rightarrow> Inr (None, y)))"

text \<open>What \<^verbatim>\<open>call_m\<close> makes of the answer.\<close>

definition remote_result :: "'r reader \<Rightarrow> 'r \<Rightarrow> (i32 \<times> unmarshall) option \<Rightarrow> (i32 \<times> 'r) res" where
  "remote_result get r0 ans =
     (case ans of None \<Rightarrow> Inr (timeout_failure, r0)
      | Some (ret, u) \<Rightarrow> call_m (\<lambda>_ _ _. Inr (ret, u)) 0 marshall_new get r0 0)"

text \<open>A request that the server has not seen: on a live connection, for this instance of the server, with an identifier that the window does not cover.\<close>

definition new_request :: "(nat \<Rightarrow> bool) \<Rightarrow> conn \<Rightarrow> req_header \<Rightarrow> 's rpcs \<Rightarrow> bool" where
  "new_request isdead c h s \<longleftrightarrow> \<not> isdead (cn_id c) \<and> (rq_srv_nonce h = 0 \<or> rq_srv_nonce h = s_nonce s) \<and> rq_clt_nonce h \<noteq> 0
     \<and> rq_xid_rep h < rq_xid h \<and> win_sorted (window_of s (rq_clt_nonce h)) \<and> \<not> covers (window_of s (rq_clt_nonce h)) (rq_xid h)"

lemma received_again: "unmarshall_of_buf (u_buf (received junk m)) (m_ind m) = received junk m"
  by (simp add: received_def unmarshall_of_buf_def)

lemma received_content:
  assumes "m_ind m \<le> length (m_buf m)"
  shows "received junk \<lparr>m_buf = take (m_ind m) (m_buf m), m_capa = k, m_ind = length (take (m_ind m) (m_buf m))\<rparr> = received junk m"
proof -
  have "map (\<lambda>i. Some (case take (m_ind m) (m_buf m) ! i of None \<Rightarrow> junk i | Some b \<Rightarrow> b)) [4..<m_ind m] =
      map (\<lambda>i. Some (case m_buf m ! i of None \<Rightarrow> junk i | Some b \<Rightarrow> b)) [4..<m_ind m]"
    by (rule map_cong) auto
  moreover have "length (take (m_ind m) (m_buf m)) = m_ind m"
    using assms by simp
  ultimately show ?thesis
    by (simp only: received_def marshall.select_convs)
qed

text \<open>What a served request leaves of the server: only the window of its client changes, and gets no identifier but that of the request.\<close>

definition served_by :: "req_header \<Rightarrow> 's rpcs \<Rightarrow> 's rpcs \<Rightarrow> bool" where
  "served_by h s s' \<longleftrightarrow> s_procs s' = s_procs s \<and> s_nonce s' = s_nonce s
     \<and> (\<forall>n. win_sorted (window_of s n) \<longrightarrow> win_sorted (window_of s' n))
     \<and> (\<forall>n. \<forall>r \<in> set (window_of s' n). r_xid r \<in> r_xid ` set (window_of s n) \<or> n = rq_clt_nonce h \<and> r_xid r = rq_xid h)"

lemma served_by_trans:
  assumes "served_by h s s'" "served_by h s' s''"
  shows "served_by h s s''"
  using assms unfolding served_by_def by (metis (no_types, lifting) imageE)

lemma rpcs_frame [simp]:
  "s_procs (incref c s) = s_procs s" "s_procs (decref c s) = s_procs s" "s_procs (updatestat p s) = s_procs s"
  "s_procs (see_client c m s) = s_procs s" "s_procs (add_reply n x b sz s) = s_procs s"
  "s_nonce (incref c s) = s_nonce s" "s_nonce (decref c s) = s_nonce s" "s_nonce (updatestat p s) = s_nonce s"
  "s_nonce (see_client c m s) = s_nonce s" "s_nonce (add_reply n x b sz s) = s_nonce s"
  by (auto simp: incref_def decref_def updatestat_def see_client_def add_reply_def Let_def split: option.splits)

lemma add_reply_xids: "map r_xid (window_of (add_reply n x b sz s) m) = map r_xid (window_of s m)"
  by (simp add: add_reply_def window_of_def comp_def if_distrib split: option.splits cong: if_cong)

lemma served_by_add_reply: "served_by h s (decref c (add_reply n x b sz s))" "served_by h s (decref c s)"
proof -
  have "r_xid ` set (window_of (add_reply n x b sz s) m) = r_xid ` set (window_of s m)" for m
    using add_reply_xids by (metis set_map)
  then show "served_by h s (decref c (add_reply n x b sz s))" "served_by h s (decref c s)"
    by (auto simp: served_by_def win_sorted_def add_reply_xids)
qed

lemma dispatch_begin_new:
  assumes new: "new_request isdead c h s" and hdr: "unpack_req_header (unmarshall_of_buf b sz) = Inr (h, u)" "u_ok u"
    and fn: "s_procs s (rq_proc h) = Some f"
  obtains s' where "dispatch_begin c b sz s = Inr (Run h u f, [], s')" "served_by h s s'"
proof -
  let ?n = "rq_clt_nonce h" and ?s = "see_client c (rq_clt_nonce h) s"
  have "win_sorted (window_of ?s ?n)" "rq_xid_rep h < rq_xid h"
    using new by (simp_all add: new_request_def)
  then obtain w where w: "checkduplicate_and_update ?n (rq_xid h) (rq_xid_rep h) ?s =
      (request_state (rq_xid h) (window_of ?s ?n), entry (rq_xid h) (window_of ?s ?n), False, ?s\<lparr>s_reply_window := (s_reply_window ?s)(?n \<mapsto> w)\<rparr>)"
      "check_effect (rq_xid h) (rq_xid_rep h) (window_of ?s ?n) w"
    by (rule checkduplicate_cases)
  have "request_state (rq_xid h) (window_of s ?n) = NEW"
    using new by (simp add: new_request_def request_state_NEW)
  then obtain s' where s': "dispatch_begin c b sz s = Inr (Run h u f, [], s')" "window_of s' = (window_of s)(?n := w)"
      "s_procs s' = s_procs s" "s_nonce s' = s_nonce s"
    using new hdr fn w(1) by (auto simp: dispatch_begin_def new_request_def fun_eq_iff)
  moreover have "served_by h s s'"
    using w(2) s'(2-4) by (auto simp: served_by_def check_effect_def reply_new_def)
  ultimately show thesis
    using that by blast
qed

lemma dispatch_finish_new:
  assumes "\<not> isdead (cn_id c)" "0 <=s ret" "pack_reply_header \<lparr>rp_xid = rq_xid h, rp_ret = ret\<rparr> rep = Inr m"
  obtains s' where "dispatch_finish isdead c h ret rep s = Inr ([(cn_id c, take (m_ind m) (m_buf m))], s')" "served_by h' s s'"
proof -
  have "ret \<noteq> unmarshal_args_failure" "\<not> ret <s 0"
    using assms(2) by (auto simp: unmarshal_args_failure_def signed)
  then have "dispatch_finish isdead c h ret rep s = Inr ([(cn_id c, take (m_ind m) (m_buf m))],
      decref c (if 0 < rq_clt_nonce h then add_reply (rq_clt_nonce h) (rq_xid h) (m_buf m) (m_ind m) s else s))"
    using assms(1,3) by (simp add: dispatch_finish_def marshall_take_buf_def Let_def)
  then show thesis
    by (rule that) (simp add: served_by_add_reply)
qed

lemma remote_call_serves:
  assumes result: "codec putR getR encR validR" "validR r" "24 + length (encR r) < 2 ^ 31"
    and req: "appends marshall_new bs m" "24 + length bs < 2 ^ 31"
    and new: "new_request isdead c h s" and f: "s_procs s (rq_proc h) = Some f"
    and fn: "\<And>u. u_ready u bs \<Longrightarrow> f app u marshall_new = bindR (putR r marshall_new) (\<lambda>ret. Inr (b, ret, app'))"
    and nonneg: "0 <=s b"
  shows "\<exists>ans s'. remote_call isdead c h junk1 junk2 m (s, app) = Inr (ans, s', app') \<and> remote_result getR r0 ans = Inr (b, r)
    \<and> served_by h s s'"
proof -
  obtain m1 u1 where m1: "pack_req_header h m = Inr m1" "unpack_req_header (received junk1 m1) = Inr (h, u1)" "u_ready u1 bs"
    using request_ready [OF req] by blast
  obtain ret where ret: "putR r marshall_new = Inr ret" "appends marshall_new (encR r) ret"
    using codec.put_appends [OF result(1) m_inv_new result(2)] by blast
  obtain m2 u2 where m2: "pack_reply_header \<lparr>rp_xid = rq_xid h, rp_ret = b\<rparr> ret = Inr m2"
      "unpack_reply_header (received junk2 m2) = Inr (\<lparr>rp_xid = rq_xid h, rp_ret = b\<rparr>, u2)"
      "u_ready (fst (take_in unmarshall_null u2)) (encR r)"
    using reply_ready [OF ret(2) result(3)] by blast
  have "u_ok u1"
    using m1(3) by (simp add: u_ready_def)
  then obtain s1 where s1: "dispatch_begin c (u_buf (received junk1 m1)) (m_ind m1) s = Inr (Run h u1 f, [], s1)" "served_by h s s1"
    using dispatch_begin_new [OF new, of "u_buf (received junk1 m1)" "m_ind m1" u1 f] m1(2) f by (auto simp: received_again)
  obtain s2 where s2: "dispatch_finish isdead c h b ret s1 = Inr ([(cn_id c, take (m_ind m2) (m_buf m2))], s2)" "served_by h s1 s2"
    using dispatch_finish_new [OF _ nonneg m2(1), of isdead c s1] new by (auto simp: new_request_def)
  have "m_ind m2 \<le> length (m_buf m2)"
    using pack_reply_header_poke [of ret "\<lparr>rp_xid = rq_xid h, rp_ret = b\<rparr>"] appends_new_inv [OF ret(2)] m2(1) by (auto simp: m_inv_def)
  then have "remote_call isdead c h junk1 junk2 m (s, app) = Inr (Some (b, fst (take_in unmarshall_null u2)), s2, app')"
    using m1 s1(1) s2(1) m2 ret fn [OF m1(3)] received_content [of m2 junk2]
    by (simp add: remote_call_def dispatch_def del: length_take)
  moreover have "getR (fst (take_in unmarshall_null u2)) = Inr (r, advance (length (encR r)) (fst (take_in unmarshall_null u2)))"
    using codec.get_enc [OF result(1), of _ r "[]"] m2(3) result(2) by simp
  moreover have "okdone (advance (length (encR r)) (fst (take_in unmarshall_null u2)))"
    using u_ready_advance [of _ "encR r" "[]"] m2(3) by (simp add: u_ready_done)
  moreover have "\<not> b <s 0"
    using nonneg by (simp add: signed)
  ultimately show ?thesis
    using served_by_trans [OF s1(2) s2(2)] by (simp add: remote_result_def call_m_def)
qed

text \<open>The client's half: the arguments are written, and the answer is read.\<close>

definition remote ::
  "(nat \<Rightarrow> bool) \<Rightarrow> conn \<Rightarrow> req_header \<Rightarrow> (nat \<Rightarrow> u8) \<Rightarrow> (nat \<Rightarrow> u8) \<Rightarrow> marshall res \<Rightarrow> 'r reader \<Rightarrow> 'r
     \<Rightarrow> 's rpcs \<times> 's \<Rightarrow> ((i32 \<times> 'r) \<times> 's rpcs \<times> 's) res" where
  "remote isdead c h junk1 junk2 args get r0 y =
     bindR args (\<lambda>m. bindR (remote_call isdead c h junk1 junk2 m y) (\<lambda>(ans, y).
       bindR (remote_result get r0 ans) (\<lambda>res. Inr (res, y))))"

text \<open>\<open>x\<close> is the outcome of a call with header \<open>h\<close> at the server \<open>s\<close>: it returns \<open>b\<close> with the result \<open>r\<close> and leaves the object behind the handlers as \<open>app\<close>.\<close>

definition answers :: "req_header \<Rightarrow> 's rpcs \<Rightarrow> ((i32 \<times> 'r) \<times> 's rpcs \<times> 's) res \<Rightarrow> i32 \<times> 'r \<Rightarrow> 's \<Rightarrow> bool" where
  "answers h s x ans app \<longleftrightarrow> (\<exists>s'. x = Inr (ans, s', app) \<and> served_by h s s')"

lemma remote1_serves:
  assumes result: "codec putR getR encR validR" and arg: "codec put1 get1 enc1 valid1" "valid1 a"
    and new: "new_request isdead c h s" and f: "s_procs s (rq_proc h) = Some (handler_fn1 get1 putR meth)"
    and meth: "meth app a = (b, r, app')" "0 <=s b"
    and sizes: "validR r" "24 + length (encR r) < 2 ^ 31" "24 + length (enc1 a) < 2 ^ 31"
  shows "answers h s (remote isdead c h junk1 junk2 (req_args1 (put1 a)) getR r0 (s, app)) (b, r) app'"
proof -
  obtain m where m: "req_args1 (put1 a) = Inr m" "appends marshall_new (enc1 a) m"
    using codec.put_appends [OF arg(1) m_inv_new arg(2)] by (auto simp: req_args1_def)
  have "\<And>u. u_ready u (enc1 a) \<Longrightarrow>
      handler_fn1 get1 putR meth app u marshall_new = bindR (putR r marshall_new) (\<lambda>ret. Inr (b, ret, app'))"
    using meth(1) by (simp add: handler_fn1_ready [OF arg])
  from remote_call_serves [OF result sizes(1,2) m(2) sizes(3) new f this meth(2), of junk1 junk2 r0]
  show ?thesis
    using m(1) by (auto simp: remote_def answers_def)
qed

lemma remote2_serves:
  assumes result: "codec putR getR encR validR" and arg: "codec put1 get1 enc1 valid1" "valid1 a1" "codec put2 get2 enc2 valid2" "valid2 a2"
    and new: "new_request isdead c h s" and f: "s_procs s (rq_proc h) = Some (handler_fn2 get1 get2 putR meth)"
    and meth: "meth app a1 a2 = (b, r, app')" "0 <=s b"
    and sizes: "validR r" "24 + length (encR r) < 2 ^ 31" "24 + length (enc1 a1 @ enc2 a2) < 2 ^ 31"
  shows "answers h s (remote isdead c h junk1 junk2 (req_args2 (put1 a1) (put2 a2)) getR r0 (s, app)) (b, r) app'"
proof -
  have "\<exists>m. req_args2 (put1 a1) (put2 a2) = Inr m \<and> appends marshall_new (enc1 a1 @ enc2 a2) m"
    unfolding req_args2_def by (intro appends_bind codec.put_appends [OF arg(1)] codec.put_appends [OF arg(3)] arg m_inv_new)
  then obtain m where m: "req_args2 (put1 a1) (put2 a2) = Inr m" "appends marshall_new (enc1 a1 @ enc2 a2) m"
    by blast
  have "\<And>u. u_ready u (enc1 a1 @ enc2 a2) \<Longrightarrow>
      handler_fn2 get1 get2 putR meth app u marshall_new = bindR (putR r marshall_new) (\<lambda>ret. Inr (b, ret, app'))"
    using meth(1) by (simp add: handler_fn2_ready [OF arg])
  from remote_call_serves [OF result sizes(1,2) m(2) sizes(3) new f this meth(2), of junk1 junk2 r0]
  show ?thesis
    using m(1) by (auto simp: remote_def answers_def)
qed

section \<open>Sessions\<close>

fun session :: "('y \<Rightarrow> ('a \<times> 'y) res) list \<Rightarrow> 'y \<Rightarrow> ('a list \<times> 'y) res" where
  "session [] y = Inr ([], y)"
| "session (f # fs) y = bindR (f y) (\<lambda>(a, y). bindR (session fs y) (\<lambda>(as, y). Inr (a # as, y)))"

fun local_session :: "('s \<Rightarrow> 'a \<times> 's) list \<Rightarrow> 's \<Rightarrow> 'a list \<times> 's" where
  "local_session [] app = ([], app)"
| "local_session (g # gs) app = (let (a, app) = g app; (as, app) = local_session gs app in (a # as, app))"

text \<open>
  The headers that \<^verbatim>\<open>rpcc::call1\<close> writes: those of one client, which has a nonce, are numbered in the order of its calls, name this instance of the server or none,
  and acknowledge only earlier calls. The server has seen nothing from the numbers on.
\<close>

definition header_ok :: "(nat \<Rightarrow> bool) \<Rightarrow> 's rpcs \<Rightarrow> conn \<times> req_header \<Rightarrow> bool" where
  "header_ok isdead s = (\<lambda>(c, h). \<not> isdead (cn_id c) \<and> (rq_srv_nonce h = 0 \<or> rq_srv_nonce h = s_nonce s) \<and> rq_clt_nonce h \<noteq> 0 \<and> rq_xid_rep h < rq_xid h
     \<and> win_sorted (window_of s (rq_clt_nonce h)) \<and> (\<forall>r \<in> set (window_of s (rq_clt_nonce h)). r_xid r < rq_xid h))"

definition in_order :: "(conn \<times> req_header) list \<Rightarrow> bool" where
  "in_order hs \<longleftrightarrow> sorted_wrt (\<lambda>(c, h) (c', h'). rq_clt_nonce h = rq_clt_nonce h' \<longrightarrow> rq_xid h < rq_xid h') hs"

lemma header_ok_new: "header_ok isdead s (c, h) \<Longrightarrow> new_request isdead c h s"
  by (auto simp: header_ok_def new_request_def covers_def dest!: hd_in_set)

lemma header_ok_served:
  assumes "header_ok isdead s (c', h')" "served_by h s s'" "rq_clt_nonce h = rq_clt_nonce h' \<longrightarrow> rq_xid h < rq_xid h'"
  shows "header_ok isdead s' (c', h')"
  using assms unfolding header_ok_def served_by_def by fastforce

text \<open>A stub \<open>f\<close> implements a method \<open>g\<close>, at a server with the procedures \<open>ps\<close> and on objects that satisfy \<open>P\<close>.\<close>

definition implements ::
  "(nat \<Rightarrow> bool) \<Rightarrow> (u32 \<rightharpoonup> 's handler) \<Rightarrow> ('s \<Rightarrow> bool) \<Rightarrow> conn \<times> req_header
     \<Rightarrow> ('s rpcs \<times> 's \<Rightarrow> ('a \<times> 's rpcs \<times> 's) res) \<Rightarrow> ('s \<Rightarrow> 'a \<times> 's) \<Rightarrow> bool" where
  "implements isdead ps P ch f g \<longleftrightarrow>
     (\<forall>s app. new_request isdead (fst ch) (snd ch) s \<longrightarrow> s_procs s = ps \<longrightarrow> P app \<longrightarrow>
        P (snd (g app)) \<and> (\<exists>s'. f (s, app) = Inr (fst (g app), s', snd (g app)) \<and> served_by (snd ch) s s'))"

text \<open>\<open>k\<close> wraps the answer, and \<open>tick\<close> is what the environment does to the object before the call.\<close>

definition as_ans :: "('r \<Rightarrow> 'a) \<Rightarrow> ('r \<times> 'y) res \<Rightarrow> ('a \<times> 'y) res" where
  "as_ans k x = bindR x (\<lambda>(r, y). Inr (k r, y))"

lemma answers_as_ans:
  "answers h s x r app \<Longrightarrow> \<exists>s'. as_ans k x = Inr (k r, s', app) \<and> served_by h s s'"
  by (auto simp: answers_def as_ans_def)

lemma stub1_implements:
  assumes "codec putR getR encR validR" "codec put1 get1 enc1 valid1" "valid1 a" "24 + length (enc1 a) < 2 ^ 31"
    and "ps (rq_proc h) = Some (handler_fn1 get1 putR meth)"
    and meth: "\<And>app. P app \<Longrightarrow> case meth (tick app) a of (b, r, app') \<Rightarrow> P app' \<and> 0 <=s b \<and> validR r \<and> 24 + length (encR r) < 2 ^ 31"
  shows "implements isdead ps P (c, h) (\<lambda>(s, app). as_ans k (remote isdead c h j1 j2 (req_args1 (put1 a)) getR r0 (s, tick app)))
    (\<lambda>app. case meth (tick app) a of (b, r, app') \<Rightarrow> (k (b, r), app'))"
  unfolding implements_def
proof (intro allI impI)
  fix s app
  assume s: "new_request isdead (fst (c, h)) (snd (c, h)) s" "s_procs s = ps" and "P app"
  obtain b r app' where m: "meth (tick app) a = (b, r, app')"
    by (metis surj_pair)
  then have "answers h s (remote isdead c h j1 j2 (req_args1 (put1 a)) getR r0 (s, tick app)) (b, r) app'"
    using meth [OF \<open>P app\<close>] s assms(3-5) by (intro remote1_serves [where meth = meth, OF assms(1,2)]) auto
  from answers_as_ans [OF this, of k]
  show "P (snd (case meth (tick app) a of (b, r, app') \<Rightarrow> (k (b, r), app'))) \<and>
      (\<exists>s'. (\<lambda>(s, app). as_ans k (remote isdead c h j1 j2 (req_args1 (put1 a)) getR r0 (s, tick app))) (s, app) =
        Inr (fst (case meth (tick app) a of (b, r, app') \<Rightarrow> (k (b, r), app')), s', snd (case meth (tick app) a of (b, r, app') \<Rightarrow> (k (b, r), app')))
        \<and> served_by (snd (c, h)) s s')"
    using meth [OF \<open>P app\<close>] m by simp
qed

lemma stub2_implements:
  assumes "codec putR getR encR validR" "codec put1 get1 enc1 valid1" "valid1 a1" "codec put2 get2 enc2 valid2" "valid2 a2"
    and "24 + length (enc1 a1 @ enc2 a2) < 2 ^ 31" "ps (rq_proc h) = Some (handler_fn2 get1 get2 putR meth)"
    and meth: "\<And>app. P app \<Longrightarrow> case meth (tick app) a1 a2 of (b, r, app') \<Rightarrow> P app' \<and> 0 <=s b \<and> validR r \<and> 24 + length (encR r) < 2 ^ 31"
  shows "implements isdead ps P (c, h) (\<lambda>(s, app). as_ans k (remote isdead c h j1 j2 (req_args2 (put1 a1) (put2 a2)) getR r0 (s, tick app)))
    (\<lambda>app. case meth (tick app) a1 a2 of (b, r, app') \<Rightarrow> (k (b, r), app'))"
  unfolding implements_def
proof (intro allI impI)
  fix s app
  assume s: "new_request isdead (fst (c, h)) (snd (c, h)) s" "s_procs s = ps" and "P app"
  obtain b r app' where m: "meth (tick app) a1 a2 = (b, r, app')"
    by (metis surj_pair)
  then have "answers h s (remote isdead c h j1 j2 (req_args2 (put1 a1) (put2 a2)) getR r0 (s, tick app)) (b, r) app'"
    using meth [OF \<open>P app\<close>] s assms(3,5-7) by (intro remote2_serves [where meth = meth, OF assms(1,2) _ assms(4)]) auto
  from answers_as_ans [OF this, of k]
  show "P (snd (case meth (tick app) a1 a2 of (b, r, app') \<Rightarrow> (k (b, r), app'))) \<and>
      (\<exists>s'. (\<lambda>(s, app). as_ans k (remote isdead c h j1 j2 (req_args2 (put1 a1) (put2 a2)) getR r0 (s, tick app))) (s, app) =
        Inr (fst (case meth (tick app) a1 a2 of (b, r, app') \<Rightarrow> (k (b, r), app')), s', snd (case meth (tick app) a1 a2 of (b, r, app') \<Rightarrow> (k (b, r), app')))
        \<and> served_by (snd (c, h)) s s')"
    using meth [OF \<open>P app\<close>] m by simp
qed

lemma session_serves:
  assumes "list_all (\<lambda>(ch, f, g). implements isdead ps P ch f g) reqs"
    and "\<forall>ch \<in> set (map fst reqs). header_ok isdead s ch" "in_order (map fst reqs)" "s_procs s = ps" "P app"
  shows "\<exists>s'. session (map (\<lambda>q. fst (snd q)) reqs) (s, app) =
     Inr (fst (local_session (map (\<lambda>q. snd (snd q)) reqs) app), s', snd (local_session (map (\<lambda>q. snd (snd q)) reqs) app)) \<and> s_procs s' = ps"
  using assms
proof (induction reqs arbitrary: s app)
  case Nil
  then show ?case by simp
next
  case (Cons q reqs)
  obtain c h f g where q: "q = ((c, h), f, g)"
    by (metis surj_pair)
  have "new_request isdead c h s"
    using Cons.prems(2) q header_ok_new by fastforce
  then obtain s1 where s1: "f (s, app) = Inr (fst (g app), s1, snd (g app))" "served_by h s s1" "P (snd (g app))"
    using Cons.prems(1,4,5) q unfolding implements_def by auto
  have "header_ok isdead s1 ch" if "ch \<in> set (map fst reqs)" for ch
  proof -
    have "header_ok isdead s (fst ch, snd ch)" "rq_clt_nonce h = rq_clt_nonce (snd ch) \<longrightarrow> rq_xid h < rq_xid (snd ch)"
      using that Cons.prems(2,3) q by (auto simp: in_order_def case_prod_beta)
    from header_ok_served [OF this(1) s1(2) this(2)] show ?thesis
      by simp
  qed
  moreover have "s_procs s1 = ps"
    using s1(2) Cons.prems(4) by (simp add: served_by_def)
  ultimately obtain s2 where "session (map (\<lambda>q. fst (snd q)) reqs) (s1, snd (g app)) =
      Inr (fst (local_session (map (\<lambda>q. snd (snd q)) reqs) (snd (g app))), s2, snd (local_session (map (\<lambda>q. snd (snd q)) reqs) (snd (g app))))" "s_procs s2 = ps"
    using Cons.IH [of s1 "snd (g app)"] Cons.prems s1(3) q by (auto simp: in_order_def)
  then show ?case
    using s1(1) q by (simp add: case_prod_beta)
qed

end
