(* ===== verification/Extent_Rpc.thy ===== *)
theory Extent_Rpc
  imports Extent Rpc_Remote
begin

text \<open>
  The extent server as a process (\<^verbatim>\<open>extent_smain.cc\<close>): the handlers it registers with the RPC server, and the calls of the
  extent client's stubs that go through \<^verbatim>\<open>rpcs::dispatch\<close>. Theory \<open>Extent\<close> lets the client apply the operations of the server directly;
  the theorem here is what that rests on.
\<close>

section \<open>The process\<close>

text \<open>The objects behind the handlers: what the clock shows, which the environment moves, and the extents.\<close>

type_synonym extent_app = "ext_times \<times> extent_server"

text \<open>A result that the method does not set is an empty string or an attribute block with whatever was there.\<close>

definition es_get_fn :: "extent_app handler" where
  "es_get_fn = handler_fn1 unmarshall_ull marshall_string
     (\<lambda>(t, s) i. let (r, b, s) = es_get t i s in (r, case b of None \<Rightarrow> [] | Some b \<Rightarrow> b, (t, s)))"

definition es_getattr_fn :: "attr \<Rightarrow> extent_app handler" where
  "es_getattr_fn junk = handler_fn1 unmarshall_ull marshall_attr
     (\<lambda>(t, s) i. let (r, a) = es_getattr i s in (r, case a of None \<Rightarrow> junk | Some a \<Rightarrow> a, (t, s)))"

definition es_put_fn :: "i32 \<Rightarrow> extent_app handler" where
  "es_put_fn junk = handler_fn2 unmarshall_ull (unmarshall_string []) marshall_int
     (\<lambda>(t, s) i buf. let (r, s) = es_put t i buf s in (r, junk, (t, s)))"

definition es_remove_app_fn :: "i32 \<Rightarrow> extent_app handler" where
  "es_remove_app_fn junk = handler_fn1 unmarshall_ull marshall_int
     (\<lambda>(t, s) i. let (r, s) = es_remove i s in (r, junk, (t, s)))"

text \<open>\<open>None\<close> is the exit with a usage message; \<open>cnt\<close> is the value of \<^verbatim>\<open>RPC_COUNT\<close> and \<open>rnd\<close> the nonce.\<close>

definition extent_smain ::
  "string list \<Rightarrow> i32 \<Rightarrow> u32 \<Rightarrow> extent_app handler \<Rightarrow> attr \<Rightarrow> i32 \<Rightarrow> extent_app rpcs res option" where
  "extent_smain argv cnt rnd bh ja ji =
     (if length argv \<noteq> 2 then None
      else Some (bindR (reg1 ext_get es_get_fn (rpcs_new rnd cnt bh)) (\<lambda>s.
             bindR (reg1 ext_getattr (es_getattr_fn ja) s) (\<lambda>s.
             bindR (reg1 ext_put (es_put_fn ji) s) (reg1 ext_remove (es_remove_app_fn ji))))))"

lemma extent_smain_procs:
  assumes "extent_smain argv cnt rnd bh ja ji = Some (Inr s0)"
  shows "s_procs s0 ext_get = Some es_get_fn" "s_procs s0 ext_getattr = Some (es_getattr_fn ja)"
    "s_procs s0 ext_put = Some (es_put_fn ji)" "s_procs s0 ext_remove = Some (es_remove_app_fn ji)"
  using assms by (auto simp: extent_smain_def reg1_def returns ext_get_def ext_getattr_def ext_put_def ext_remove_def split: if_splits)

lemma ext_codes_nonneg: "0 <=s ext_OK" "0 <=s ext_IOERR"
  by (simp_all add: ext_OK_def ext_IOERR_def word_sle_eq)

section \<open>Requests\<close>

text \<open>
  What a client asks for and what it gets. \<open>extent_stub\<close> is the call of \<^verbatim>\<open>rpcc\<close> in \<^verbatim>\<open>extent_client.cc\<close>, through the dispatcher; \<open>t\<close> is what the clock shows then.
  \<open>extent_method\<close> is the method of the server that the request is meant for.
\<close>

datatype ext_req = GetReq extentid_t | GetattrReq extentid_t | PutReq extentid_t string | RemoveReq extentid_t
datatype ext_ans = TextAns "i32 \<times> string" | AttrAns "i32 \<times> attr" | NumAns "i32 \<times> i32"

primrec ext_proc :: "ext_req \<Rightarrow> u32" where
  "ext_proc (GetReq i) = ext_get"
| "ext_proc (GetattrReq i) = ext_getattr"
| "ext_proc (PutReq i buf) = ext_put"
| "ext_proc (RemoveReq i) = ext_remove"

definition at_time :: "ext_times \<Rightarrow> extent_app \<Rightarrow> extent_app" where
  "at_time t = (\<lambda>(_, e). (t, e))"

primrec extent_stub ::
  "(nat \<Rightarrow> bool) \<Rightarrow> conn \<Rightarrow> req_header \<Rightarrow> (nat \<Rightarrow> u8) \<Rightarrow> (nat \<Rightarrow> u8) \<Rightarrow> attr \<Rightarrow> ext_times \<Rightarrow> ext_req
     \<Rightarrow> extent_app rpcs \<times> extent_app \<Rightarrow> (ext_ans \<times> extent_app rpcs \<times> extent_app) res" where
  "extent_stub isdead c h j1 j2 a0 t (GetReq i) = (\<lambda>(s, app).
     as_ans TextAns (remote isdead c h j1 j2 (req_args1 (marshall_ull i)) (unmarshall_string []) [] (s, at_time t app)))"
| "extent_stub isdead c h j1 j2 a0 t (GetattrReq i) = (\<lambda>(s, app).
     as_ans AttrAns (remote isdead c h j1 j2 (req_args1 (marshall_ull i)) unmarshall_attr a0 (s, at_time t app)))"
| "extent_stub isdead c h j1 j2 a0 t (PutReq i buf) = (\<lambda>(s, app).
     as_ans NumAns (remote isdead c h j1 j2 (req_args2 (marshall_ull i) (marshall_string buf)) unmarshall_int 0 (s, at_time t app)))"
| "extent_stub isdead c h j1 j2 a0 t (RemoveReq i) = (\<lambda>(s, app).
     as_ans NumAns (remote isdead c h j1 j2 (req_args1 (marshall_ull i)) unmarshall_int 0 (s, at_time t app)))"

primrec extent_method :: "attr \<Rightarrow> i32 \<Rightarrow> ext_times \<Rightarrow> ext_req \<Rightarrow> extent_app \<Rightarrow> ext_ans \<times> extent_app" where
  "extent_method ja ji t (GetReq i) = (\<lambda>(_, e). let (b, x, e) = es_get t i e in (TextAns (b, case x of None \<Rightarrow> [] | Some x \<Rightarrow> x), (t, e)))"
| "extent_method ja ji t (GetattrReq i) = (\<lambda>(_, e). let (b, x) = es_getattr i e in (AttrAns (b, case x of None \<Rightarrow> ja | Some x \<Rightarrow> x), (t, e)))"
| "extent_method ja ji t (PutReq i buf) = (\<lambda>(_, e). let (b, e) = es_put t i buf e in (NumAns (b, ji), (t, e)))"
| "extent_method ja ji t (RemoveReq i) = (\<lambda>(_, e). let (b, e) = es_remove i e in (NumAns (b, ji), (t, e)))"

text \<open>The bounds keep every packet below the limits of the marshalling buffers.\<close>

definition ext_small :: "extent_app \<Rightarrow> bool" where
  "ext_small = (\<lambda>(t, e). \<forall>i d. e i = Some d \<longrightarrow> length (file_content d) < 2 ^ 30)"

primrec req_small :: "ext_req \<Rightarrow> bool" where
  "req_small (GetReq i) \<longleftrightarrow> True"
| "req_small (GetattrReq i) \<longleftrightarrow> True"
| "req_small (PutReq i buf) \<longleftrightarrow> length buf < 2 ^ 30"
| "req_small (RemoveReq i) \<longleftrightarrow> True"

lemma es_get_small:
  assumes "ext_small (t0, e)" "es_get t i e = (b, x, e')"
  shows "0 <=s b" "length (case x of None \<Rightarrow> [] | Some x \<Rightarrow> x) < 2 ^ 30" "ext_small (t1, e')"
  using assms ext_codes_nonneg by (fastforce simp: es_get_def ext_small_def split: option.splits if_splits)+

lemma es_put_small:
  assumes "ext_small (t0, e)" "length buf < 2 ^ 30" "es_put t i buf e = (b, e')"
  shows "0 <=s b" "ext_small (t1, e')"
  using assms ext_codes_nonneg by (fastforce simp: es_put_def ext_small_def split: option.splits if_splits)+

lemma extent_implements:
  assumes main: "extent_smain argv cnt rnd bh ja ji = Some (Inr s0)" and "rq_proc h = ext_proc req" "req_small req"
  shows "implements isdead (s_procs s0) ext_small (c, h) (extent_stub isdead c h j1 j2 a0 t req) (extent_method ja ji t req)"
proof (cases req)
  case (GetReq i)
  have "implements isdead (s_procs s0) ext_small (c, h) (extent_stub isdead c h j1 j2 a0 t req)
      (\<lambda>app. case (\<lambda>(t, s) i. let (r, b, s) = es_get t i s in (r, case b of None \<Rightarrow> [] | Some b \<Rightarrow> b, (t, s))) (at_time t app) i of
         (b, r, app') \<Rightarrow> (TextAns (b, r), app'))"
    unfolding GetReq extent_stub.simps using assms(2) extent_smain_procs [OF main] GetReq ext_codes_nonneg
    by (intro stub1_implements [OF string_codec.codec_axioms ull_codec.codec_axioms])
      (auto simp: es_get_fn_def at_time_def enc_string_def dest: es_get_small split: prod.splits)
  then show ?thesis
    by (simp add: GetReq at_time_def case_prod_beta' Let_def)
next
  case (GetattrReq i)
  have "implements isdead (s_procs s0) ext_small (c, h) (extent_stub isdead c h j1 j2 a0 t req)
      (\<lambda>app. case (\<lambda>(t, s) i. let (r, a) = es_getattr i s in (r, case a of None \<Rightarrow> ja | Some a \<Rightarrow> a, (t, s))) (at_time t app) i of
         (b, r, app') \<Rightarrow> (AttrAns (b, r), app'))"
    unfolding GetattrReq extent_stub.simps using assms(2) extent_smain_procs [OF main] GetattrReq ext_codes_nonneg
    by (intro stub1_implements [OF attr_codec.codec_axioms ull_codec.codec_axioms])
      (auto simp: es_getattr_fn_def es_getattr_def at_time_def ext_small_def enc_attr_def split: option.splits)
  then show ?thesis
    by (simp add: GetattrReq at_time_def case_prod_beta' Let_def)
next
  case (PutReq i buf)
  have "implements isdead (s_procs s0) ext_small (c, h) (extent_stub isdead c h j1 j2 a0 t req)
      (\<lambda>app. case (\<lambda>(t, s) i buf. let (r, s) = es_put t i buf s in (r, ji, (t, s))) (at_time t app) i buf of
         (b, r, app') \<Rightarrow> (NumAns (b, r), app'))"
    unfolding PutReq extent_stub.simps using assms(2,3) extent_smain_procs [OF main] PutReq ext_codes_nonneg
    by (intro stub2_implements [OF int_codec.codec_axioms ull_codec.codec_axioms _ string_codec.codec_axioms])
      (auto simp: es_put_fn_def at_time_def enc_string_def dest: es_put_small split: prod.splits)
  then show ?thesis
    by (simp add: PutReq at_time_def case_prod_beta' Let_def)
next
  case (RemoveReq i)
  have "implements isdead (s_procs s0) ext_small (c, h) (extent_stub isdead c h j1 j2 a0 t req)
      (\<lambda>app. case (\<lambda>(t, s) i. let (r, s) = es_remove i s in (r, ji, (t, s))) (at_time t app) i of
         (b, r, app') \<Rightarrow> (NumAns (b, r), app'))"
    unfolding RemoveReq extent_stub.simps using assms(2) extent_smain_procs [OF main] RemoveReq ext_codes_nonneg
    by (intro stub1_implements [OF int_codec.codec_axioms ull_codec.codec_axioms])
      (auto simp: es_remove_app_fn_def es_remove_def at_time_def ext_small_def split: if_splits)
  then show ?thesis
    by (simp add: RemoveReq at_time_def case_prod_beta' Let_def)
qed

section \<open>Sessions of clients\<close>

text \<open>One call: the connection and the header it goes out with, the bytes that were never written, what the caller's attribute block holds, the clock, and the request.\<close>

type_synonym ext_call = "(conn \<times> req_header) \<times> (nat \<Rightarrow> u8) \<times> (nat \<Rightarrow> u8) \<times> attr \<times> ext_times \<times> ext_req"

definition call_stub :: "(nat \<Rightarrow> bool) \<Rightarrow> ext_call \<Rightarrow> extent_app rpcs \<times> extent_app \<Rightarrow> (ext_ans \<times> extent_app rpcs \<times> extent_app) res" where
  "call_stub isdead = (\<lambda>((c, h), j1, j2, a0, t, req). extent_stub isdead c h j1 j2 a0 t req)"

definition call_method :: "attr \<Rightarrow> i32 \<Rightarrow> ext_call \<Rightarrow> extent_app \<Rightarrow> ext_ans \<times> extent_app" where
  "call_method ja ji = (\<lambda>(ch, j1, j2, a0, t, req). extent_method ja ji t req)"

definition call_ok :: "ext_call \<Rightarrow> bool" where
  "call_ok = (\<lambda>((c, h), j1, j2, a0, t, req). rq_proc h = ext_proc req \<and> req_small req)"


text \<open>A client writes an extent and reads it, and another one reads it as well.\<close>

definition ex_call :: "u32 \<Rightarrow> u32 \<Rightarrow> ext_req \<Rightarrow> ext_call" where
  "ex_call clt x req = ((ex_conn, \<lparr>rq_xid = x, rq_proc = ext_proc req, rq_clt_nonce = clt, rq_srv_nonce = 7, rq_xid_rep = x - 1\<rparr>),
     \<lambda>_. 0, \<lambda>_. 0, \<lparr>a_atime = 0, a_mtime = 0, a_ctime = 0, a_size = 0\<rparr>, ex_times, req)"

definition ex_calls :: "ext_call list" where
  "ex_calls = [ex_call 9 1 (PutReq 1 ''abc''), ex_call 9 2 (GetReq 1), ex_call 8 1 (GetReq 1)]"


end
