(* ===== verification/Text_Stream.thy ===== *)
theory Text_Stream
  imports Prelude
begin

text \<open>
  The parts of the C++ text streams that the program uses: printing of unsigned numbers and
  extraction of numbers, words and lines. A stream is the text that is still to be read; an
  extraction that fails leaves nothing to read, since every later one fails as well.
\<close>

section \<open>Numbers as text\<close>

definition digit :: "nat \<Rightarrow> char" where
  "digit d = char_of (48 + d)"

fun decimal :: "nat \<Rightarrow> string" where
  "decimal n = (if n < 10 then [digit n] else decimal (n div 10) @ [digit (n mod 10)])"

declare decimal.simps [simp del]

definition is_digit :: "char \<Rightarrow> bool" where
  "is_digit c \<longleftrightarrow> 48 \<le> (of_char c :: nat) \<and> (of_char c :: nat) \<le> 57"

definition is_space :: "char \<Rightarrow> bool" where
  "is_space c \<longleftrightarrow> of_char c = (32 :: nat) \<or> 9 \<le> (of_char c :: nat) \<and> (of_char c :: nat) \<le> 13"

definition number :: "string \<Rightarrow> nat" where
  "number s = foldl (\<lambda>v c. 10 * v + (of_char c - 48)) 0 (takeWhile is_digit s)"

section \<open>Extraction\<close>

text \<open>
  \<^verbatim>\<open>>>\<close> into an \<^verbatim>\<open>unsigned\<close>: white space, an optional sign, digits. Without digits the value is 0,
  above the range it is the largest value, and both are failures.
\<close>

definition read_uint :: "string \<Rightarrow> u32 \<times> string" where
  "read_uint s =
     (let s = dropWhile is_space s;
          neg = (s \<noteq> [] \<and> hd s = CHR ''-'');
          s = (if s \<noteq> [] \<and> (hd s = CHR ''-'' \<or> hd s = CHR ''+'') then tl s else s) in
      if s = [] \<or> \<not> is_digit (hd s) then (0, [])
      else if number s < 2 ^ 32
      then (if neg then - of_nat (number s) else of_nat (number s), dropWhile is_digit s)
      else (- 1, []))"

text \<open>\<^verbatim>\<open>>>\<close> into a string; \<open>None\<close> when nothing but white space is left.\<close>

definition read_word :: "string \<Rightarrow> string option \<times> string" where
  "read_word s =
     (let s = dropWhile is_space s in
      if s = [] then (None, [])
      else (Some (takeWhile (\<lambda>c. \<not> is_space c) s), dropWhile (\<lambda>c. \<not> is_space c) s))"

definition newline :: char where "newline = CHR 0x0A"

definition get_line :: "string \<Rightarrow> string \<times> string" where
  "get_line s = (takeWhile (\<lambda>c. c \<noteq> newline) s, drop 1 (dropWhile (\<lambda>c. c \<noteq> newline) s))"

section \<open>Printing and reading numbers\<close>

lemma of_char_digit [simp]: "d < 10 \<Longrightarrow> (of_char (digit d) :: nat) = 48 + d"
  by (simp add: digit_def)

lemma is_digit_digit [simp]: "d < 10 \<Longrightarrow> is_digit (digit d)"
  by (simp add: is_digit_def)

lemma decimal_digits: "\<forall>c \<in> set (decimal n). is_digit c"
  by (induction n rule: decimal.induct) (subst decimal.simps, auto)

lemma decimal_not_Nil [simp]: "decimal n \<noteq> []"
  by (subst decimal.simps) simp

lemma foldl_decimal: "foldl (\<lambda>v c. 10 * v + (of_char c - 48)) 0 (decimal n) = n"
proof (induction n rule: decimal.induct)
  case (1 n)
  then show ?case
    by (subst decimal.simps) simp
qed

lemma number_decimal:
  assumes "\<not> is_digit (hd (rest @ ''x''))"
  shows "number (decimal n @ rest) = n"
proof -
  have "takeWhile is_digit rest = []"
    using assms by (cases rest) auto
  then have "takeWhile is_digit (decimal n @ rest) = decimal n"
    using decimal_digits by (subst takeWhile_append2) auto
  then show ?thesis
    by (simp add: number_def foldl_decimal)
qed

lemma digit_not_space [simp]: "is_digit c \<Longrightarrow> \<not> is_space c" "is_digit c \<Longrightarrow> c \<noteq> CHR ''-''" "is_digit c \<Longrightarrow> c \<noteq> CHR ''+''"
  by (auto simp: is_digit_def is_space_def)

lemma space_not_digit [simp]: "is_space c \<Longrightarrow> \<not> is_digit c"
  using digit_not_space(1) by blast

lemma is_space_consts [simp]: "is_space (CHR '' '')" "is_space newline" "newline \<noteq> CHR '' ''"
  by (simp_all add: is_space_def newline_def)

lemma decimal_Cons:
  obtains c s where "decimal n = c # s" "is_digit c"
proof -
  obtain c s where "decimal n = c # s"
    by (meson decimal_not_Nil neq_Nil_conv)
  then show thesis
    using that decimal_digits [of n] by simp
qed

lemma dropWhile_decimal:
  assumes "\<not> is_digit (hd (rest @ ''x''))"
  shows "dropWhile is_digit (decimal n @ rest) = rest"
proof -
  have "dropWhile is_digit rest = rest"
    using assms by (cases rest) auto
  then show ?thesis
    using decimal_digits [of n] by (simp add: dropWhile_append2)
qed

text \<open>What was printed is read back, up to the separator that follows.\<close>

lemma read_uint_decimal:
  assumes "n < 2 ^ 32" "is_space c"
  shows "read_uint (decimal n @ c # rest) = (of_nat n, c # rest)"
    and "read_uint (CHR '' '' # decimal n @ c # rest) = (of_nat n, c # rest)"
proof -
  obtain d s where d: "decimal n = d # s" "is_digit d"
    by (rule decimal_Cons)
  have num: "number (d # s @ c # rest) = n" "dropWhile is_digit (d # s @ c # rest) = c # rest"
    using number_decimal [of "c # rest" n] dropWhile_decimal [of "c # rest" n] assms(2) d by simp_all
  show "read_uint (decimal n @ c # rest) = (of_nat n, c # rest)"
      "read_uint (CHR '' '' # decimal n @ c # rest) = (of_nat n, c # rest)"
    using d num assms(1) by (simp_all add: read_uint_def Let_def)
qed

definition word_ok :: "string \<Rightarrow> bool" where
  "word_ok w \<longleftrightarrow> w \<noteq> [] \<and> list_all (\<lambda>c. \<not> is_space c) w"

lemma read_word_word:
  assumes "word_ok w" "is_space c"
  shows "read_word (w @ c # rest) = (Some w, c # rest)"
    and "read_word (CHR '' '' # w @ c # rest) = (Some w, c # rest)"
proof -
  have "takeWhile (\<lambda>c. \<not> is_space c) (w @ c # rest) = w" "dropWhile (\<lambda>c. \<not> is_space c) (w @ c # rest) = c # rest"
      "dropWhile is_space (w @ c # rest) = w @ c # rest"
    using assms by (cases w; auto simp: word_ok_def list_all_iff takeWhile_append2 dropWhile_append2)+
  then show "read_word (w @ c # rest) = (Some w, c # rest)" "read_word (CHR '' '' # w @ c # rest) = (Some w, c # rest)"
    by (simp_all add: read_word_def Let_def)
qed

lemma get_line_line: "newline \<notin> set v \<Longrightarrow> get_line (v @ newline # rest) = (v, rest)"
  by (induction v) (auto simp: get_line_def)

lemma read_uint_length: "read_uint s = (i, s') \<Longrightarrow> length s' \<le> length s"
proof -
  assume r: "read_uint s = (i, s')"
  define t where "t = dropWhile is_space s"
  define u where "u = (if t \<noteq> [] \<and> (hd t = CHR ''-'' \<or> hd t = CHR ''+'') then tl t else t)"
  have "length u \<le> length s"
    using length_dropWhile_le [of is_space s] by (auto simp: u_def t_def)
  moreover have "s' = [] \<or> s' = dropWhile is_digit u"
    using r unfolding read_uint_def Let_def t_def [symmetric] u_def [symmetric] by (auto split: if_splits)
  ultimately show ?thesis
    using length_dropWhile_le [of is_digit u] by auto
qed

lemma read_word_length:
  "read_word s = (w, s') \<Longrightarrow> length s' \<le> length s"
  "read_word s = (Some v, s') \<Longrightarrow> length s' < length s"
proof -
  define t where "t = dropWhile is_space s"
  have t: "length t \<le> length s" "t \<noteq> [] \<Longrightarrow> \<not> is_space (hd t)"
    using length_dropWhile_le [of is_space s] hd_dropWhile [of is_space s] by (auto simp: t_def)
  show "read_word s = (w, s') \<Longrightarrow> length s' \<le> length s"
    using t(1) length_dropWhile_le [of "\<lambda>c. \<not> is_space c" t]
    unfolding read_word_def Let_def t_def [symmetric] by (auto split: if_splits)
  show "read_word s = (Some v, s') \<Longrightarrow> length s' < length s"
  proof (cases t)
    case (Cons c u)
    assume "read_word s = (Some v, s')"
    then have "s' = dropWhile (\<lambda>c. \<not> is_space c) u"
      using t(2) Cons unfolding read_word_def Let_def t_def [symmetric] by auto
    then show ?thesis
      using t(1) Cons length_dropWhile_le [of "\<lambda>c. \<not> is_space c" u] by simp
  qed (simp add: read_word_def t_def)
qed

lemma get_line_length: "get_line s = (v, s') \<Longrightarrow> length s' \<le> length s"
  using length_dropWhile_le [of "\<lambda>c. c \<noteq> newline" s] by (auto simp: get_line_def)

end
