(* ===== verification/Yfs_Client.thy ===== *)
theory Yfs_Client
  imports Extent Text_Stream "HOL-Library.Sublist"
begin

text \<open>
  The file system client (\<^verbatim>\<open>yfs_client.cc\<close>) over the extent client: file numbers, directories kept
  as text, and files. A directory is the concatenation of its entries \<^verbatim>\<open>inum:name;\<close>. The state is
  the extents the client sees and the locks the calling thread holds; what the locks are worth
  against other threads is the subject of theories \<open>Lock_System\<close> and \<open>Extent_System\<close>. An operation
  makes several calls of the extent client; \<open>tm k\<close> is what the \<open>k\<close>-th finds in its environment.
\<close>

section \<open>File numbers\<close>

type_synonym inum = u64

definition yfs_OK :: i32 where "yfs_OK = 0"
definition yfs_RPCERR :: i32 where "yfs_RPCERR = 1"
definition yfs_NOENT :: i32 where "yfs_NOENT = 2"
definition yfs_IOERR :: i32 where "yfs_IOERR = 3"
definition yfs_EXIST :: i32 where "yfs_EXIST = 4"

definition filename :: "inum \<Rightarrow> string" where
  "filename i = decimal (unat i)"

text \<open>
  Extraction of an \<^verbatim>\<open>unsigned long long\<close> from a stream: white space, an optional sign, decimal
  digits. Without digits the value is 0, above the range it is the largest value, and a minus
  sign negates the value modulo \<open>2 ^ 64\<close>.
\<close>

definition to_ull :: "nat \<Rightarrow> u64" where
  "to_ull v = (if v < 2 ^ 64 then of_nat v else - 1)"

definition n2i :: "string \<Rightarrow> inum" where
  "n2i n =
     (case dropWhile is_space n of
        [] \<Rightarrow> 0
      | c # s \<Rightarrow>
          if c = CHR ''-'' then (if number s < 2 ^ 64 then - of_nat (number s) else - 1)
          else if c = CHR ''+'' then to_ull (number s)
          else to_ull (number (c # s)))"

definition isfile :: "inum \<Rightarrow> bool" where
  "isfile i \<longleftrightarrow> i AND 0x80000000 \<noteq> 0"

definition isdir :: "inum \<Rightarrow> bool" where
  "isdir i \<longleftrightarrow> \<not> isfile i"

text \<open>\<open>rnd\<close> is what \<^verbatim>\<open>rand()\<close> returns; the conversion from \<^verbatim>\<open>int\<close> extends the sign.\<close>

definition generate_inum :: "i32 \<Rightarrow> inum" where
  "generate_inum rnd = 0 OR scast rnd"

definition generate_file_inum :: "i32 \<Rightarrow> inum" where
  "generate_file_inum rnd = generate_inum rnd OR 0x80000000"

definition generate_dir_inum :: "i32 \<Rightarrow> inum" where
  "generate_dir_inum rnd = generate_inum rnd AND 0x7FFFFFFF"

section \<open>Directories as text\<close>

text \<open>\<^verbatim>\<open>std::string::find\<close>; \<open>None\<close> is \<^verbatim>\<open>npos\<close>.\<close>

fun str_find :: "string \<Rightarrow> string \<Rightarrow> nat option" where
  "str_find pat [] = (if pat = [] then Some 0 else None)"
| "str_find pat (c # s) = (if prefix pat (c # s) then Some 0 else map_option Suc (str_find pat s))"

text \<open>\<open>scan_back buf k\<close> is the loop of \<^verbatim>\<open>lookup\<close> with \<^verbatim>\<open>indexer\<close> at \<open>k - 1\<close>; its result is \<^verbatim>\<open>indexer + 1\<close>.\<close>

fun scan_back :: "string \<Rightarrow> nat \<Rightarrow> nat" where
  "scan_back buf 0 = 0"
| "scan_back buf (Suc k) = (if buf ! k = CHR '';'' then Suc k else scan_back buf k)"

text \<open>A match at the very start makes the length \<^verbatim>\<open>file_name_start-1\<close> wrap around to \<^verbatim>\<open>npos\<close>.\<close>

definition lookup_entry :: "string \<Rightarrow> string \<Rightarrow> inum option" where
  "lookup_entry name buf =
     map_option (\<lambda>p.
       let s = scan_back buf p in
       n2i (if s \<noteq> 0 then take (p - s) (drop s buf) else if p = 0 then buf else take (p - 1) buf))
     (str_find (name @ '';'') buf)"

definition new_entry :: "inum \<Rightarrow> string \<Rightarrow> string \<Rightarrow> string" where
  "new_entry i name buf = buf @ filename i @ '':'' @ name @ '';''"

text \<open>
  The part of \<^verbatim>\<open>unlink\<close> that edits the directory: everything goes from the first occurrence of the
  number to the end of the entry that the name is found in. An iterator computed from \<^verbatim>\<open>npos\<close>,
  and a range that ends before it starts, is outside the string.
\<close>

definition unlink_entry :: "string \<Rightarrow> inum \<Rightarrow> string \<Rightarrow> string res" where
  "unlink_entry name i buf =
     (case (str_find (name @ '';'') buf, str_find (filename i) buf) of
        (Some p, Some q) \<Rightarrow>
          let e = p + length (takeWhile (\<lambda>c. c \<noteq> CHR '';'') (drop p buf)) in
          if length buf \<le> e then Inl UninitRead
          else if e + 1 < q then Inl OutOfBounds
          else Inr (take q buf @ drop (e + 1) buf)
      | _ \<Rightarrow> Inl OutOfBounds)"

section \<open>File contents\<close>

definition nul :: char where "nul = CHR 0x00"

definition set_size :: "u32 \<Rightarrow> string \<Rightarrow> string" where
  "set_size sz buf =
     (if length buf > unat sz then take (unat sz) buf
      else if length buf < unat sz then buf @ replicate (unat sz - length buf) nul
      else buf)"

definition read_at :: "u64 \<Rightarrow> u64 \<Rightarrow> string \<Rightarrow> string" where
  "read_at offset sz buf =
     (if unat offset < length buf then take (unat sz) (drop (unat offset) buf) else [])"

text \<open>
  \<open>mem\<close> is the memory from the pointer that \<^verbatim>\<open>write\<close> gets: the bytes to write and what follows.
  \<^verbatim>\<open>string buffer_str = buffer\<close> copies up to the first NUL, wherever that is.
\<close>

definition c_string :: "string \<Rightarrow> string res" where
  "c_string mem = (if nul \<in> set mem then Inr (takeWhile (\<lambda>c. c \<noteq> nul) mem) else Inl OutOfBounds)"

definition write_string :: "u64 \<Rightarrow> string \<Rightarrow> string" where
  "write_string sz s =
     (if length s \<ge> unat sz then take (unat sz) s else s @ replicate (unat sz - length s) nul)"

definition write_at :: "string \<Rightarrow> u64 \<Rightarrow> u64 \<Rightarrow> string \<Rightarrow> string" where
  "write_at w sz offset buf =
     (if length buf < unat offset then buf @ replicate (unat offset - length buf) nul @ w
      else if length buf \<le> unat (offset + sz) then take (unat offset) buf @ w
      else take (unat offset) buf @ w @ drop (unat offset + unat sz) buf)"

section \<open>The operations\<close>

record yfs =
  y_ext :: ext_world
  y_held :: "inum list"

text \<open>
  Acquiring a lock that the thread already holds waits for itself: the lock client does not
  know which thread has a lock.
\<close>

definition y_acquire :: "inum \<Rightarrow> yfs \<Rightarrow> yfs res" where
  "y_acquire i y = (if i \<in> set (y_held y) then Inl Deadlock else Inr (y\<lparr>y_held := i # y_held y\<rparr>))"

definition y_release :: "inum \<Rightarrow> yfs \<Rightarrow> yfs" where
  "y_release i y = y\<lparr>y_held := remove1 i (y_held y)\<rparr>"

definition y_get :: "ext_times \<Rightarrow> inum \<Rightarrow> yfs \<Rightarrow> (string \<times> yfs) res" where
  "y_get t i y = bindR (ec_get t i (y_ext y)) (\<lambda>(buf, w). Inr (buf, y\<lparr>y_ext := w\<rparr>))"

definition y_put :: "ext_times \<Rightarrow> inum \<Rightarrow> string \<Rightarrow> yfs \<Rightarrow> i32 \<times> yfs" where
  "y_put t i buf y = (let (r, w) = ec_put t i buf (y_ext y) in (r, y\<lparr>y_ext := w\<rparr>))"

definition yfs_client_new :: "ext_times \<Rightarrow> ext_world \<Rightarrow> yfs res" where
  "yfs_client_new t w =
     bindR (y_acquire 1 \<lparr>y_ext = w, y_held = []\<rparr>) (\<lambda>y.
       let (status, y) = y_put t 1 [] y in Inr (y_release 1 y))"

record fileinfo =
  fi_size :: u64
  fi_atime :: u64
  fi_mtime :: u64
  fi_ctime :: u64

record dirinfo =
  di_atime :: u64
  di_mtime :: u64
  di_ctime :: u64

text \<open>A failing \<^verbatim>\<open>getattr\<close> never returns to its caller, so the branch with \<^verbatim>\<open>IOERR\<close> is dead.\<close>

definition y_getattr :: "inum \<Rightarrow> yfs \<Rightarrow> (attr \<times> yfs) res" where
  "y_getattr i y =
     bindR (y_acquire i y) (\<lambda>y.
     bindR (ec_getattr i (y_ext y)) (\<lambda>(a, w). Inr (a, y_release i (y\<lparr>y_ext := w\<rparr>))))"

definition getfile :: "inum \<Rightarrow> yfs \<Rightarrow> (i32 \<times> fileinfo \<times> yfs) res" where
  "getfile i y = bindR (y_getattr i y) (\<lambda>(a, y).
     Inr (yfs_OK, \<lparr>fi_size = ucast (a_size a), fi_atime = ucast (a_atime a), fi_mtime = ucast (a_mtime a),
            fi_ctime = ucast (a_ctime a)\<rparr>, y))"

definition getdir :: "inum \<Rightarrow> yfs \<Rightarrow> (i32 \<times> dirinfo \<times> yfs) res" where
  "getdir i y = bindR (y_getattr i y) (\<lambda>(a, y).
     Inr (yfs_OK, \<lparr>di_atime = ucast (a_atime a), di_mtime = ucast (a_mtime a), di_ctime = ucast (a_ctime a)\<rparr>, y))"

definition create_entry ::
  "(nat \<Rightarrow> ext_times) \<Rightarrow> inum \<Rightarrow> string \<Rightarrow> inum \<Rightarrow> yfs \<Rightarrow> (i32 \<times> yfs) res" where
  "create_entry tm parent name new y =
     bindR (y_acquire parent y) (\<lambda>y.
     bindR (y_get (tm 0) parent y) (\<lambda>(buffer, y).
       if str_find name buffer \<noteq> None then Inr (yfs_EXIST, y_release parent y)
       else
         bindR (y_acquire new y) (\<lambda>y.
           let (status, y) = y_put (tm 1) new [] y;
               y = y_release new y;
               (status, y) = y_put (tm 2) parent (new_entry new name buffer) y in
           Inr (yfs_OK, y_release parent y))))"

definition yfs_create ::
  "(nat \<Rightarrow> ext_times) \<Rightarrow> i32 \<Rightarrow> inum \<Rightarrow> string \<Rightarrow> yfs \<Rightarrow> (i32 \<times> inum \<times> yfs) res" where
  "yfs_create tm rnd parent name y =
     (let file_inum = generate_file_inum rnd in
      bindR (create_entry tm parent name file_inum y) (\<lambda>(r, y). Inr (r, file_inum, y)))"

definition yfs_create_dir ::
  "(nat \<Rightarrow> ext_times) \<Rightarrow> i32 \<Rightarrow> inum \<Rightarrow> string \<Rightarrow> yfs \<Rightarrow> (i32 \<times> inum \<times> yfs) res" where
  "yfs_create_dir tm rnd parent name y =
     (let dir_inum = generate_dir_inum rnd in
      bindR (create_entry tm parent name dir_inum y) (\<lambda>(r, y). Inr (r, dir_inum, y)))"

definition get_file :: "ext_times \<Rightarrow> inum \<Rightarrow> yfs \<Rightarrow> (string \<times> yfs) res" where
  "get_file t i y =
     bindR (y_acquire i y) (\<lambda>y. bindR (y_get t i y) (\<lambda>(buf, y). Inr (buf, y_release i y)))"

definition yfs_readdir :: "ext_times \<Rightarrow> inum \<Rightarrow> yfs \<Rightarrow> (string \<times> yfs) res" where
  "yfs_readdir t i y =
     bindR (y_acquire i y) (\<lambda>y. bindR (y_get t i y) (\<lambda>(buf, y). Inr (buf, y_release i y)))"

definition yfs_lookup :: "ext_times \<Rightarrow> inum \<Rightarrow> string \<Rightarrow> yfs \<Rightarrow> (i32 \<times> inum option \<times> yfs) res" where
  "yfs_lookup t parent name y =
     bindR (y_acquire parent y) (\<lambda>y.
     bindR (y_get t parent y) (\<lambda>(buffer, y).
       let y = y_release parent y in
       case lookup_entry name buffer of
         Some i \<Rightarrow> Inr (yfs_OK, Some i, y)
       | None \<Rightarrow> Inr (yfs_IOERR, None, y)))"

definition removeFiles :: "inum \<Rightarrow> yfs \<Rightarrow> yfs res" where
  "removeFiles i y =
     bindR (y_acquire i y) (\<lambda>y.
       Inr (y_release i (if isfile i then y\<lparr>y_ext := snd (ec_remove i (y_ext y))\<rparr> else y)))"

definition yfs_unlink :: "(nat \<Rightarrow> ext_times) \<Rightarrow> inum \<Rightarrow> string \<Rightarrow> yfs \<Rightarrow> (i32 \<times> yfs) res" where
  "yfs_unlink tm parent name y =
     bindR (yfs_lookup (tm 0) parent name y) (\<lambda>(status, found, y).
       case found of
         None \<Rightarrow> Inr (yfs_NOENT, y)
       | Some i \<Rightarrow>
           bindR (y_acquire parent y) (\<lambda>y.
           bindR (y_get (tm 1) parent y) (\<lambda>(buffer, y).
           bindR (unlink_entry name i buffer) (\<lambda>dir_list.
             let (r, y) = y_put (tm 2) parent dir_list y in
             bindR (removeFiles i y) (\<lambda>y. Inr (yfs_OK, y_release parent y))))))"

text \<open>\<^verbatim>\<open>setattr\<close> reads the file under the lock, and writes it under the lock, but lets go in between.\<close>

definition setattr_put :: "ext_times \<Rightarrow> inum \<Rightarrow> u32 \<Rightarrow> string \<Rightarrow> yfs \<Rightarrow> (i32 \<times> yfs) res" where
  "setattr_put t i sz buf y =
     bindR (y_acquire i y) (\<lambda>y. let (r, y) = y_put t i (set_size sz buf) y in Inr (r, y_release i y))"

definition yfs_setattr :: "(nat \<Rightarrow> ext_times) \<Rightarrow> inum \<Rightarrow> u32 \<Rightarrow> yfs \<Rightarrow> (i32 \<times> yfs) res" where
  "yfs_setattr tm i sz y = bindR (get_file (tm 0) i y) (\<lambda>(buf, y). setattr_put (tm 1) i sz buf y)"

definition yfs_read :: "ext_times \<Rightarrow> inum \<Rightarrow> u64 \<Rightarrow> u64 \<Rightarrow> yfs \<Rightarrow> (string \<times> yfs) res" where
  "yfs_read t i offset sz y = bindR (get_file t i y) (\<lambda>(buf, y). Inr (read_at offset sz buf, y))"

definition yfs_write :: "(nat \<Rightarrow> ext_times) \<Rightarrow> inum \<Rightarrow> string \<Rightarrow> u64 \<Rightarrow> u64 \<Rightarrow> yfs \<Rightarrow> yfs res" where
  "yfs_write tm i mem sz offset y =
     bindR (c_string mem) (\<lambda>s.
     bindR (y_acquire i y) (\<lambda>y.
     bindR (y_get (tm 0) i y) (\<lambda>(buf, y).
       let (r, y) = y_put (tm 1) i (write_at (write_string sz s) sz offset buf) y in
       Inr (y_release i y))))"

section \<open>File numbers as text\<close>

lemma n2i_filename:
  assumes "\<not> is_digit (hd (rest @ ''x''))"
  shows "n2i (filename i @ rest) = i"
proof -
  obtain c s where cs: "decimal (unat i) = c # s"
    by (meson decimal_not_Nil neq_Nil_conv)
  then have c: "is_digit c"
    using decimal_digits [of "unat i"] by simp
  then have "\<not> is_space c" "c \<noteq> CHR ''-''" "c \<noteq> CHR ''+''"
    by (auto simp: is_digit_def is_space_def)
  then have n2i: "n2i (filename i @ rest) = to_ull (number (decimal (unat i) @ rest))"
    by (simp add: n2i_def filename_def cs)
  have "unat i < 2 ^ 64"
    using unsigned_less [of i, where ?'a = nat] by simp
  then show ?thesis
    unfolding n2i by (simp add: number_decimal [OF assms] to_ull_def)
qed

lemma n2i_filename_end [simp]: "n2i (filename i) = i"
  using n2i_filename [of "[]" i] by (simp add: is_digit_def)

lemma filename_chars:
  "CHR '';'' \<notin> set (filename i)" "CHR '':'' \<notin> set (filename i)" "filename i \<noteq> []"
  using decimal_digits [of "unat i"] by (auto simp: filename_def is_digit_def)

lemma filename_inject: "filename i = filename j \<Longrightarrow> i = j"
  by (metis n2i_filename_end)

section \<open>Searching in a directory\<close>

lemma str_find_None_iff: "str_find pat s = None \<longleftrightarrow> \<not> sublist pat s"
  by (induction pat s rule: str_find.induct) (auto simp: sublist_Cons_right)

lemma str_find_le: "str_find w s = Some q \<Longrightarrow> q \<le> length s"
  by (induction w s arbitrary: q rule: str_find.induct) (auto split: if_splits)

lemma prefix_to_separator:
  assumes "a \<notin> set n" "a \<notin> set x"
  shows "prefix (n @ [a]) (x @ a # rest) \<longleftrightarrow> n = x"
  using assms
proof (induction n arbitrary: x)
  case Nil
  then show ?case
    by (cases x) auto
next
  case (Cons c n)
  then show ?case
    by (cases x) auto
qed

lemma str_find_name:
  assumes "CHR '';'' \<notin> set n" "CHR '';'' \<notin> set x"
  shows "str_find (n @ '';'') (x @ CHR '';'' # rest) =
    (if suffix n x then Some (length x - length n)
     else map_option (\<lambda>p. p + Suc (length x)) (str_find (n @ '';'') rest))"
  using assms(2)
proof (induction x)
  case Nil
  then show ?case
    using assms(1) prefix_to_separator [of "CHR '';''" n "[]" rest] by (auto simp: option.map_comp comp_def)
next
  case (Cons c x)
  have "suffix n (c # x) \<longleftrightarrow> n = c # x \<or> suffix n x"
    by (auto simp: suffix_Cons)
  moreover have "suffix n x \<Longrightarrow> length n \<le> length x"
    by (rule suffix_length_le)
  moreover have "prefix (n @ '';'') (c # x @ CHR '';'' # rest) \<longleftrightarrow> n = c # x"
    using prefix_to_separator [of "CHR '';''" n "c # x" rest] assms(1) Cons.prems by simp
  ultimately show ?case
    using Cons by (auto simp: option.map_comp comp_def Suc_diff_le)
qed

lemma sublist_separator:
  assumes "a \<notin> set w" "w \<noteq> []"
  shows "sublist w (x @ a # rest) \<longleftrightarrow> sublist w x \<or> sublist w rest"
proof
  assume "sublist w (x @ a # rest)"
  then consider "sublist w x" | "sublist w (a # rest)" | w1 w2 where "w = w1 @ w2" "suffix w1 x" "prefix w2 (a # rest)"
    by (auto simp: sublist_append)
  then show "sublist w x \<or> sublist w rest"
  proof cases
    case 2
    then show ?thesis
      using assms by (cases w) (auto simp: sublist_Cons_right)
  next
    case 3
    then have "w2 = []"
      using assms(1) by (cases w2) auto
    then show ?thesis
      using 3 by (simp add: suffix_imp_sublist)
  qed simp
next
  assume "sublist w x \<or> sublist w rest"
  then show "sublist w (x @ a # rest)"
    by (auto simp: sublist_append sublist_Cons_right)
qed

lemma str_find_word:
  assumes "a \<notin> set w" "w \<noteq> []"
  shows "str_find w (x @ a # rest) =
    (if sublist w x then str_find w x else map_option (\<lambda>p. p + Suc (length x)) (str_find w rest))"
proof (induction x)
  case Nil
  then show ?case
    using assms by (cases w) (auto simp: option.map_comp comp_def)
next
  case (Cons c x)
  have "prefix w (c # x @ a # rest) \<longleftrightarrow> prefix w (c # x)"
  proof
    assume "prefix w (c # x @ a # rest)"
    then have "prefix w ((c # x) @ a # rest)"
      by simp
    then consider "prefix w (c # x)" | us where "w = (c # x) @ us" "prefix us (a # rest)"
      unfolding prefix_append by blast
    then show "prefix w (c # x)"
    proof cases
      case 2
      then have "us = []"
        using assms(1) by (cases us) auto
      then show ?thesis
        using 2 by simp
    qed
  next
    assume "prefix w (c # x)"
    then show "prefix w (c # x @ a # rest)"
      using prefix_order.trans [of w "c # x" "(c # x) @ a # rest"] by simp
  qed
  then show ?case
    using Cons by (auto simp: sublist_Cons_right option.map_comp comp_def)
qed

section \<open>Directories as lists of entries\<close>

definition dir_entry :: "inum \<times> string \<Rightarrow> string" where
  "dir_entry e = filename (fst e) @ '':'' @ snd e"

definition render :: "(inum \<times> string) list \<Rightarrow> string" where
  "render es = concat (map (\<lambda>e. dir_entry e @ '';'') es)"

definition name_ok :: "string \<Rightarrow> bool" where
  "name_ok n \<longleftrightarrow> n \<noteq> [] \<and> CHR '';'' \<notin> set n \<and> CHR '':'' \<notin> set n"

text \<open>No name occurs anywhere in an earlier entry, which is what \<^verbatim>\<open>create\<close> tests.\<close>

definition dir_ok :: "(inum \<times> string) list \<Rightarrow> bool" where
  "dir_ok es \<longleftrightarrow> (\<forall>e \<in> set es. name_ok (snd e)) \<and> sorted_wrt (\<lambda>e e'. \<not> sublist (snd e') (dir_entry e)) es"

text \<open>The directory as a partial function from names to file numbers.\<close>

definition dir_map :: "(inum \<times> string) list \<Rightarrow> string \<rightharpoonup> inum" where
  "dir_map es = map_of (map prod.swap es)"

lemma render_simps [simp]:
  "render [] = []" "render (e # es) = dir_entry e @ CHR '';'' # render es" "render (es @ fs) = render es @ render fs"
  by (simp_all add: render_def)

lemma new_entry_render: "new_entry i n (render es) = render (es @ [(i, n)])"
  by (simp add: new_entry_def dir_entry_def)

lemma entry_no_separator: "CHR '';'' \<notin> set (snd e) \<Longrightarrow> CHR '';'' \<notin> set (dir_entry e)"
  by (simp add: dir_entry_def filename_chars)

lemma sublist_render:
  assumes "CHR '';'' \<notin> set w" "w \<noteq> []"
  shows "sublist w (render es) \<longleftrightarrow> (\<exists>e \<in> set es. sublist w (dir_entry e))"
  using assms by (induction es) (auto simp: sublist_separator)

lemma name_in_entry: "sublist n (dir_entry (i, n))"
  by (rule suffix_imp_sublist) (simp add: dir_entry_def suffix_append suffix_Cons)

lemma suffix_entry:
  assumes "CHR '':'' \<notin> set n"
  shows "suffix n (dir_entry e) \<longleftrightarrow> suffix n (snd e)"
proof
  assume "suffix n (dir_entry e)"
  then have "suffix n ((filename (fst e) @ '':'') @ snd e)"
    by (simp add: dir_entry_def)
  then consider "suffix n (snd e)" | us where "n = us @ snd e" "suffix us (filename (fst e) @ '':'')"
    unfolding suffix_append by blast
  then show "suffix n (snd e)"
  proof cases
    case 2
    then have "us = []"
      using assms by (cases us rule: rev_cases) (auto simp: suffix_def)
    then show ?thesis
      using 2 by simp
  qed
qed (simp add: dir_entry_def suffix_append suffix_Cons)

lemma scan_back_entry:
  assumes "k \<le> length x" "CHR '';'' \<notin> set x" "pre = [] \<or> last pre = CHR '';''"
  shows "scan_back (pre @ x @ r) (length pre + k) = length pre"
  using assms(1)
proof (induction k)
  case 0
  then show ?case
    using assms(3) by (cases pre rule: rev_cases) (auto simp: nth_append)
next
  case (Suc k)
  then have "x ! k \<noteq> CHR '';''"
    using assms(2) by (metis Suc_le_lessD nth_mem)
  then show ?case
    using Suc by (simp add: nth_append)
qed

lemma str_find_prefix:
  assumes "\<And>e. e \<in> set us \<Longrightarrow> CHR '';'' \<notin> set (snd e) \<and> \<not> suffix n (dir_entry e)" "CHR '';'' \<notin> set n"
  shows "str_find (n @ '';'') (render us @ rest) = map_option (\<lambda>p. p + length (render us)) (str_find (n @ '';'') rest)"
  using assms(1)
proof (induction us)
  case (Cons e us)
  then show ?case
    using str_find_name [OF assms(2), of "dir_entry e" "render us @ rest"] entry_no_separator [of e]
    by (auto simp: option.map_comp comp_def ac_simps)
qed (simp add: option.map_ident)

text \<open>An entry is found at the length of what is before it and of what the name leaves of it.\<close>

lemma lookup_entry_first:
  assumes us: "\<And>e. e \<in> set us \<Longrightarrow> CHR '';'' \<notin> set (snd e) \<and> \<not> suffix n (snd e)"
    and n: "CHR '';'' \<notin> set n" "CHR '':'' \<notin> set n"
    and e: "suffix n m" "CHR '';'' \<notin> set m"
  shows "lookup_entry n (render (us @ (i, m) # vs)) = Some i"
proof -
  let ?x = "dir_entry (i, m)"
  define k where "k = length m - length n"
  have len: "length ?x - length n = length (filename i) + Suc k" "k \<le> length m"
    using suffix_length_le [OF e(1)] by (simp_all add: dir_entry_def k_def)
  have x: "CHR '';'' \<notin> set ?x" "suffix n ?x"
    using e entry_no_separator suffix_entry [OF n(2)] by simp_all
  have "str_find (n @ '';'') (?x @ CHR '';'' # render vs) = Some (length (filename i) + Suc k)"
    using str_find_name [OF n(1) x(1)] x(2) len by simp
  then have find: "str_find (n @ '';'') (render (us @ (i, m) # vs)) = Some (length (render us) + (length (filename i) + Suc k))"
    using us n suffix_entry [OF n(2)] str_find_prefix [of us n] by simp
  have "last (render us) = CHR '';''" if "us \<noteq> []"
    using that by (cases us rule: rev_cases) auto
  then have "render us = [] \<or> last (render us) = CHR '';''"
    by (cases "us = []") auto
  then have start: "scan_back (render us @ ?x @ CHR '';'' # render vs) (length (render us) + (length (filename i) + Suc k)) = length (render us)"
    by (intro scan_back_entry x(1)) (use len in \<open>simp_all add: dir_entry_def\<close>)
  have "n2i (take (length (filename i) + Suc k) (?x @ r)) = i" for r
    by (simp add: dir_entry_def n2i_filename is_digit_def)
  moreover have "n2i (take (length (filename i) + k) (?x @ r)) = i" for r
    by (cases k) (simp_all add: dir_entry_def n2i_filename is_digit_def)
  ultimately show ?thesis
    using find start
    by (auto simp add: lookup_entry_def Let_def simp del: take_append scan_back.simps)
qed

lemma dir_ok_split:
  assumes "dir_ok (us @ (i, n) # vs)"
  shows "name_ok n" "dir_ok (us @ vs)" and "e \<in> set us \<Longrightarrow> name_ok (snd e) \<and> \<not> sublist n (dir_entry e)"
    and "e \<in> set vs \<Longrightarrow> snd e \<noteq> n"
  using assms name_in_entry [of n i] by (auto simp: dir_ok_def sorted_wrt_append)

lemma dir_ok_append:
  assumes "dir_ok es" "name_ok n" "\<And>e. e \<in> set es \<Longrightarrow> \<not> sublist n (dir_entry e)"
  shows "dir_ok (es @ [(i, n)])"
  using assms by (auto simp: dir_ok_def sorted_wrt_append)

lemma not_sublist_entry: "\<not> sublist n (dir_entry e) \<Longrightarrow> \<not> suffix n (snd e)" "\<not> sublist n (dir_entry e) \<Longrightarrow> snd e \<noteq> n"
  using sublist_order.order.trans [of n "snd e" "dir_entry e"] name_in_entry [of "snd e" "fst e"]
  by (auto simp: suffix_imp_sublist)

lemma dir_map_split:
  assumes "dir_ok (us @ (i, n) # vs)"
  shows "dir_map (us @ (i, n) # vs) n = Some i" "dir_map (us @ vs) = (dir_map (us @ (i, n) # vs))(n := None)"
proof -
  have "n \<notin> snd ` set us" "n \<notin> snd ` set vs"
    using dir_ok_split(3,4) [OF assms] not_sublist_entry(2) by blast+
  then have none: "map_of (map prod.swap us) n = None" "map_of (map prod.swap vs) n = None"
    by (force simp: map_of_eq_None_iff)+
  then show "dir_map (us @ (i, n) # vs) n = Some i"
    by (simp add: dir_map_def map_add_def)
  show "dir_map (us @ vs) = (dir_map (us @ (i, n) # vs))(n := None)"
    using none by (auto simp: dir_map_def map_add_def fun_eq_iff split: option.splits)
qed

lemma dir_map_entry:
  assumes "dir_map es n = Some i"
  obtains us vs where "es = us @ (i, n) # vs"
proof -
  have "(n, i) \<in> set (map prod.swap es)"
    using assms unfolding dir_map_def by (rule map_of_SomeD)
  then have "(i, n) \<in> set es"
    by auto
  then show thesis
    using that by (meson split_list)
qed

lemma lookup_entry_ok:
  assumes "dir_ok (us @ (i, n) # vs)"
  shows "lookup_entry n (render (us @ (i, n) # vs)) = Some i"
  using dir_ok_split(1,3) [OF assms] not_sublist_entry(1)
  by (intro lookup_entry_first) (auto simp: name_ok_def)

lemma find_split:
  "find P xs = Some x \<Longrightarrow> \<exists>us vs. xs = us @ x # vs \<and> P x \<and> (\<forall>y \<in> set us. \<not> P y)"
proof (induction xs)
  case (Cons y ys)
  show ?case
  proof (cases "P y")
    case True
    then show ?thesis
      using Cons.prems by (intro exI [of _ "[]"] exI [of _ ys]) simp
  next
    case False
    then obtain us vs where "ys = us @ x # vs" "P x" "\<forall>y \<in> set us. \<not> P y"
      using Cons by auto
    then show ?thesis
      using False by (intro exI [of _ "y # us"] exI [of _ vs]) simp
  qed
qed simp

text \<open>
  C20: What \<^verbatim>\<open>lookup\<close> computes from the text of a directory: it returns the number of the first entry
  whose name ends with the name asked for, for all names without the separators.
\<close>

theorem lookup_entry_reference:
  assumes "\<forall>e \<in> set es. CHR '';'' \<notin> set (snd e)" and "CHR '';'' \<notin> set n" "CHR '':'' \<notin> set n"
  shows "lookup_entry n (render es) = map_option fst (find (\<lambda>e. suffix n (snd e)) es)"
proof (cases "find (\<lambda>e. suffix n (snd e)) es")
  case None
  then have "\<And>e. e \<in> set es \<Longrightarrow> \<not> suffix n (dir_entry e)"
    using suffix_entry [OF assms(3)] by (auto simp: find_None_iff)
  then have "str_find (n @ '';'') (render es @ []) = None"
    using assms by (subst str_find_prefix) auto
  then show ?thesis
    using None by (simp add: lookup_entry_def)
next
  case (Some e)
  obtain us vs where es: "es = us @ e # vs" "suffix n (snd e)" "\<forall>d \<in> set us. \<not> suffix n (snd d)"
    using find_split [OF Some] by auto
  have "lookup_entry n (render (us @ (fst e, snd e) # vs)) = Some (fst e)"
    using es assms by (intro lookup_entry_first) auto
  then have "lookup_entry n (render es) = Some (fst e)"
    by (simp only: es(1) prod.collapse)
  then show ?thesis
    by (simp only: Some option.map)
qed

theorem lookup_entry_reference_witness:
  "lookup_entry ''foo'' (render [(7, ''bar''), (12, ''xfoo''), (9, ''foo'')]) = Some 12"
  using lookup_entry_reference [of "[(7, ''bar''), (12, ''xfoo''), (9, ''foo'')]" "''foo''"]
  by (simp add: suffix_def)

lemma str_find_here: "str_find w (w @ r) = Some 0"
proof (cases "w @ r")
  case (Cons c s)
  then have "prefix w (c # s)"
    by (metis prefixI)
  then show ?thesis
    using Cons by simp
qed simp

lemma str_find_word_render:
  assumes "CHR '';'' \<notin> set w" "w \<noteq> []" "sublist w (dir_entry e)"
  shows "str_find w (render (us @ e # vs)) =
    (case str_find w (render us) of Some q \<Rightarrow> Some q
     | None \<Rightarrow> map_option (\<lambda>q. q + length (render us)) (str_find w (dir_entry e)))"
proof (induction us)
  case Nil
  then show ?case
    using assms str_find_word [OF assms(1,2), of "dir_entry e"] by (simp add: option.map_ident)
next
  case (Cons d us)
  then show ?case
    using str_find_word [OF assms(1,2), of "dir_entry d"] str_find_None_iff [of w "dir_entry d"]
    by (auto simp: option.map_comp comp_def ac_simps split: option.splits)
qed

lemma unlink_entry_cut:
  assumes "dir_ok (us @ (i, n) # vs)"
  shows "unlink_entry n i (render (us @ (i, n) # vs)) =
    Inr (take (case str_find (filename i) (render us) of Some q \<Rightarrow> q | None \<Rightarrow> length (render us)) (render us) @ render vs)"
proof -
  note ok = dir_ok_split [OF assms]
  have n: "CHR '';'' \<notin> set n"
    using ok(1) by (simp add: name_ok_def)
  have "\<And>e. e \<in> set us \<Longrightarrow> CHR '';'' \<notin> set (snd e) \<and> \<not> suffix n (dir_entry e)"
    using ok(3) by (auto simp: name_ok_def suffix_imp_sublist)
  moreover have "str_find (n @ '';'') (dir_entry (i, n) @ CHR '';'' # render vs) = Some (length (filename i) + 1)"
    using str_find_name [OF n, of "dir_entry (i, n)" "render vs"] n
    by (simp add: dir_entry_def filename_chars suffix_append suffix_Cons)
  ultimately have p: "str_find (n @ '';'') (render (us @ (i, n) # vs)) = Some (length (render us) + (length (filename i) + 1))"
    using str_find_prefix [of us n] n by simp
  have "sublist (filename i) (dir_entry (i, n))"
    by (rule prefix_imp_sublist) (simp add: dir_entry_def)
  from str_find_word_render [OF filename_chars(1,3) this, of us vs]
  have q: "str_find (filename i) (render (us @ (i, n) # vs)) =
      Some (case str_find (filename i) (render us) of Some q \<Rightarrow> q | None \<Rightarrow> length (render us))"
    by (simp add: dir_entry_def str_find_here split: option.splits)
  define q' where "q' = (case str_find (filename i) (render us) of Some q \<Rightarrow> q | None \<Rightarrow> length (render us))"
  have le: "q' \<le> length (render us)"
    using str_find_le [of "filename i" "render us"] by (auto simp: q'_def split: option.splits)
  have "takeWhile (\<lambda>c. c \<noteq> CHR '';'') (n @ CHR '';'' # render vs) = n"
    using n by (subst takeWhile_append2) auto
  then have e: "takeWhile (\<lambda>c. c \<noteq> CHR '';'') (drop (length (render us) + (length (filename i) + 1)) (render (us @ (i, n) # vs))) = n"
    by (simp add: dir_entry_def)
  show ?thesis
    using le unfolding unlink_entry_def p q option.case prod.case Let_def e q'_def [symmetric]
    by (simp add: dir_entry_def)
qed

text \<open>
  What \<^verbatim>\<open>unlink\<close> leaves of a directory: the entry of the name is gone, the later entries stay,
  and the earlier ones stay as long as none contains the digits of the number to be removed;
  otherwise they are cut off where these digits first appear.
\<close>

theorem unlink_entry_exact:
  assumes "dir_ok (us @ (i, n) # vs)"
  shows "unlink_entry n i (render (us @ (i, n) # vs)) =
    Inr (take (case str_find (filename i) (render us) of Some q \<Rightarrow> q | None \<Rightarrow> length (render us)) (render us) @ render vs)"
  by (rule unlink_entry_cut [OF assms])

theorem unlink_entry_exact_witness:
  "unlink_entry ''b'' 234 (render ([(12345, ''a'')] @ (234, ''b'') # [(6, ''c'')])) = Inr ''16:c;''"
proof -
  have num: "filename 12345 = ''12345''" "filename 234 = ''234''" "filename 6 = ''6''"
    by (simp_all add: filename_def decimal.simps digit_def char_of_def bit_Suc_0_iff)
  have "dir_ok ([(12345, ''a'')] @ (234, ''b'') # [(6, ''c'')])"
    by (simp add: dir_ok_def name_ok_def dir_entry_def num sublist_Cons_right)
  from unlink_entry_exact [OF this] show ?thesis
    by (simp add: dir_entry_def num)
qed

section \<open>The operations on the extents\<close>

abbreviation y_content :: "yfs \<Rightarrow> inum \<Rightarrow> string option" where
  "y_content y \<equiv> ext_content (y_ext y)"

lemma y_release_acquire [simp]:
  "y_release i (y\<lparr>y_held := i # h\<rparr>) = y\<lparr>y_held := h\<rparr>"
  "y_ext (y_release i y) = y_ext y" "y_held (y_release i y) = remove1 i (y_held y)"
  by (simp_all add: y_release_def)

lemma y_get_content:
  assumes "y_content y i = Some buf"
  obtains w where "y_get t i y = Inr (buf, y\<lparr>y_ext := w\<rparr>)" "ext_content w = y_content y"
proof -
  obtain w where "ec_get t i (y_ext y) = Inr (buf, w)"
    using ec_store.get_present [OF assms] by blast
  then show thesis
    using that ec_get_content(2) by (simp add: y_get_def)
qed

lemma y_put_content:
  obtains w where "y_put t i buf y = (ext_OK, y\<lparr>y_ext := w\<rparr>)" "ext_content w = (y_content y)(i \<mapsto> buf)"
proof -
  obtain r w where w: "ec_put t i buf (y_ext y) = (r, w)"
    by (cases "ec_put t i buf (y_ext y)")
  from ec_store.put_content [OF this] show thesis
    using that [of w] w by (simp add: y_put_def)
qed

lemma get_file_content:
  assumes "y_content y i = Some buf" "i \<notin> set (y_held y)"
  obtains w where "get_file t i y = Inr (buf, y\<lparr>y_ext := w\<rparr>)" "ext_content w = y_content y"
proof -
  obtain w where "y_get t i (y\<lparr>y_held := i # y_held y\<rparr>) = Inr (buf, y\<lparr>y_held := i # y_held y, y_ext := w\<rparr>)"
      "ext_content w = y_content y"
    using y_get_content [of "y\<lparr>y_held := i # y_held y\<rparr>" i buf t] assms(1) by auto
  then show thesis
    using that assms(2) by (simp add: get_file_def y_acquire_def y_release_def)
qed

lemma create_entry_exists:
  assumes "y_content y d = Some buf" "d \<notin> set (y_held y)" "sublist name buf"
  obtains w where "create_entry tm d name new y = Inr (yfs_EXIST, y\<lparr>y_ext := w\<rparr>)" "ext_content w = y_content y"
proof -
  obtain w where "y_get (tm 0) d (y\<lparr>y_held := d # y_held y\<rparr>) = Inr (buf, y\<lparr>y_held := d # y_held y, y_ext := w\<rparr>)"
      "ext_content w = y_content y"
    using y_get_content [of "y\<lparr>y_held := d # y_held y\<rparr>" d buf "tm 0"] assms(1) by auto
  moreover have "str_find name buf \<noteq> None"
    using assms(3) by (simp only: str_find_None_iff not_not)
  ultimately show thesis
    using that assms(2) by (simp add: create_entry_def y_acquire_def y_release_def)
qed

lemma create_entry_new:
  assumes "y_content y d = Some buf" "d \<notin> set (y_held y)" "new \<notin> set (y_held y)" "new \<noteq> d" "\<not> sublist name buf"
  obtains w where "create_entry tm d name new y = Inr (yfs_OK, y\<lparr>y_ext := w\<rparr>)"
    "ext_content w = (y_content y)(new \<mapsto> [], d \<mapsto> new_entry new name buf)"
proof -
  obtain w1 where w1: "y_get (tm 0) d (y\<lparr>y_held := d # y_held y\<rparr>) = Inr (buf, y\<lparr>y_held := d # y_held y, y_ext := w1\<rparr>)"
      "ext_content w1 = y_content y"
    using y_get_content [of "y\<lparr>y_held := d # y_held y\<rparr>" d buf "tm 0"] assms(1) by auto
  obtain w2 where w2: "y_put (tm 1) new [] (y\<lparr>y_held := new # d # y_held y, y_ext := w1\<rparr>)
      = (ext_OK, y\<lparr>y_held := new # d # y_held y, y_ext := w2\<rparr>)" "ext_content w2 = (ext_content w1)(new \<mapsto> [])"
    using y_put_content [of "tm 1" new "[]" "y\<lparr>y_held := new # d # y_held y, y_ext := w1\<rparr>"] by auto
  obtain w3 where w3: "y_put (tm 2) d (new_entry new name buf) (y\<lparr>y_held := d # y_held y, y_ext := w2\<rparr>)
      = (ext_OK, y\<lparr>y_held := d # y_held y, y_ext := w3\<rparr>)" "ext_content w3 = (ext_content w2)(d \<mapsto> new_entry new name buf)"
    using y_put_content [of "tm 2" d "new_entry new name buf" "y\<lparr>y_held := d # y_held y, y_ext := w2\<rparr>"] by auto
  have "str_find name buf = None"
    using assms(5) by (simp add: str_find_None_iff)
  then have "create_entry tm d name new y = Inr (yfs_OK, y\<lparr>y_ext := w3\<rparr>)"
    using w1(1) w2(1) w3(1) assms(2-4)
    by (cases y) (simp add: create_entry_def y_acquire_def y_release_def)
  then show thesis
    using that w1(2) w2(2) w3(2) by simp
qed

text \<open>
  C8: \<^verbatim>\<open>create\<close> implements the insertion of a new name: in a directory whose text is that of a list of
  entries, it reports \<^verbatim>\<open>EXIST\<close> and changes nothing when the name occurs anywhere in the text of an
  entry, and otherwise extends the directory by exactly the new name, with an empty file of a
  file number, and keeps the format; every other extent stays as it was.
\<close>

theorem create_refines:
  assumes ok: "dir_ok es" "name_ok name" and dir: "y_content y d = Some (render es)"
    and locks: "d \<notin> set (y_held y)" "generate_file_inum rnd \<notin> set (d # y_held y)"
  defines "new \<equiv> generate_file_inum rnd"
  shows "\<exists>r y'. yfs_create tm rnd d name y = Inr (r, new, y') \<and> y_held y' = y_held y \<and>
    (if \<exists>e \<in> set es. sublist name (dir_entry e)
     then r = yfs_EXIST \<and> y_content y' = y_content y
     else r = yfs_OK \<and> y_content y' = (y_content y)(new \<mapsto> [], d \<mapsto> render (es @ [(new, name)]))
       \<and> dir_ok (es @ [(new, name)]) \<and> dir_map (es @ [(new, name)]) = (dir_map es)(name \<mapsto> new))"
proof (cases "\<exists>e \<in> set es. sublist name (dir_entry e)")
  case True
  then have "sublist name (render es)"
    using ok(2) sublist_render [of name es] by (simp add: name_ok_def)
  from create_entry_exists [OF dir locks(1) this, of tm new]
  obtain w where "create_entry tm d name new y = Inr (yfs_EXIST, y\<lparr>y_ext := w\<rparr>)" "ext_content w = y_content y"
    by blast
  then show ?thesis
    using True by (simp add: yfs_create_def new_def)
next
  case False
  then have "\<not> sublist name (render es)"
    using ok(2) sublist_render [of name es] by (simp add: name_ok_def)
  from create_entry_new [OF dir locks(1) _ _ this, of new tm] locks(2)
  obtain w where w: "create_entry tm d name new y = Inr (yfs_OK, y\<lparr>y_ext := w\<rparr>)"
      "ext_content w = (y_content y)(new \<mapsto> [], d \<mapsto> new_entry new name (render es))"
    by (auto simp: new_def)
  have dir_ok: "dir_ok (es @ [(new, name)])"
    using False by (intro dir_ok_append ok) auto
  then have "dir_map (es @ [(new, name)]) = (dir_map es)(name \<mapsto> new)"
    using dir_map_split [of es new name "[]"] by (auto simp: fun_eq_iff)
  then show ?thesis
    using False w dir_ok by (simp add: yfs_create_def new_def new_entry_render)
qed

text \<open>
  \<^verbatim>\<open>lookup\<close> finds every name of a directory that \<^verbatim>\<open>create\<close> and \<^verbatim>\<open>unlink\<close> have kept in order: it
  returns \<^verbatim>\<open>OK\<close> and the number under which the name was created.
\<close>

lemma yfs_lookup_content:
  assumes "dir_ok es" and "y_content y d = Some (render es)" and "d \<notin> set (y_held y)"
    and "dir_map es name = Some i"
  shows "\<exists>y'. yfs_lookup t d name y = Inr (yfs_OK, Some i, y') \<and> y_content y' = y_content y \<and> y_held y' = y_held y"
proof -
  obtain us vs where "es = us @ (i, name) # vs"
    using assms(4) by (rule dir_map_entry)
  then have found: "lookup_entry name (render es) = Some i"
    using lookup_entry_ok assms(1) by blast
  obtain w where "y_get t d (y\<lparr>y_held := d # y_held y\<rparr>) = Inr (render es, y\<lparr>y_held := d # y_held y, y_ext := w\<rparr>)"
      "ext_content w = y_content y"
    using y_get_content [of "y\<lparr>y_held := d # y_held y\<rparr>" d "render es" t] assms(2) by auto
  then show ?thesis
    using assms(3) found by (simp add: yfs_lookup_def y_acquire_def y_release_def Let_def)
qed

text \<open>A root directory with two files.\<close>

definition ex_yfs :: yfs where
  "ex_yfs = \<lparr>y_ext = ([1 \<mapsto> \<lparr>c_content = render [(7, ''bar''), (12, ''xfoo'')],
      c_attr = \<lparr>a_atime = 0, a_mtime = 0, a_ctime = 0, a_size = 14\<rparr>, c_is_dirty = True, c_is_removed = False\<rparr>],
      Map.empty), y_held = []\<rparr>"

lemma ex_dir:
  "dir_ok [(7, ''bar''), (12, ''xfoo'')]" "y_content ex_yfs 1 = Some (render [(7, ''bar''), (12, ''xfoo'')])"
  "y_held ex_yfs = []" "dir_entry (7, ''bar'') = ''7:bar''" "dir_entry (12, ''xfoo'') = ''12:xfoo''"
proof -
  have num: "filename 7 = ''7''" "filename 12 = ''12''"
    by (simp_all add: filename_def decimal.simps digit_def char_of_def bit_Suc_0_iff)
  show "dir_ok [(7, ''bar''), (12, ''xfoo'')]"
    by (simp add: dir_ok_def name_ok_def dir_entry_def num sublist_Cons_right)
  show "dir_entry (7, ''bar'') = ''7:bar''" "dir_entry (12, ''xfoo'') = ''12:xfoo''"
    by (simp_all add: dir_entry_def num)
qed (simp_all add: ex_yfs_def ext_content_def)

theorem create_refines_witness:
  "\<exists>y'. yfs_create (\<lambda>_. ex_times) 5 1 ''foo'' ex_yfs = Inr (yfs_EXIST, generate_file_inum 5, y')
     \<and> y_content y' = y_content ex_yfs"
proof -
  have "name_ok ''foo''" "generate_file_inum 5 = 0x80000005"
    by (simp_all add: name_ok_def generate_file_inum_def generate_inum_def)
  moreover have "sublist ''foo'' (dir_entry (12, ''xfoo''))"
    by (simp add: ex_dir sublist_Cons_right)
  ultimately show ?thesis
    using create_refines [OF ex_dir(1) _ ex_dir(2), of "''foo''" 5 "\<lambda>_. ex_times"] ex_dir(3) by auto
qed

lemma yfs_unlink_content:
  assumes ok: "dir_ok (us @ (i, name) # vs)" and dir: "y_content y d = Some (render (us @ (i, name) # vs))"
    and locks: "d \<notin> set (y_held y)" "i \<notin> set (d # y_held y)"
    and digits: "\<forall>e \<in> set us. \<not> sublist (filename i) (dir_entry e)"
  shows "\<exists>y'. yfs_unlink tm d name y = Inr (yfs_OK, y') \<and> y_held y' = y_held y
    \<and> y_content y' = (y_content y)(d \<mapsto> render (us @ vs))"
proof -
  obtain y1 where y1: "yfs_lookup (tm 0) d name y = Inr (yfs_OK, Some i, y1)" "y_content y1 = y_content y" "y_held y1 = y_held y"
    using yfs_lookup_content [OF ok dir locks(1) dir_map_split(1) [OF ok]] by blast
  obtain w2 where w2: "y_get (tm 1) d (y1\<lparr>y_held := d # y_held y1\<rparr>)
      = Inr (render (us @ (i, name) # vs), y1\<lparr>y_held := d # y_held y1, y_ext := w2\<rparr>)" "ext_content w2 = y_content y1"
    using y_get_content [of "y1\<lparr>y_held := d # y_held y1\<rparr>" d "render (us @ (i, name) # vs)" "tm 1"] dir y1(2) by auto
  have "str_find (filename i) (render us) = None"
    using digits sublist_render [OF filename_chars(1,3), of i us] by (simp add: str_find_None_iff)
  then have e: "unlink_entry name i (render (us @ (i, name) # vs)) = Inr (render (us @ vs))"
    using unlink_entry_cut [OF ok] by simp
  obtain w3 where w3: "y_put (tm 2) d (render (us @ vs)) (y1\<lparr>y_held := d # y_held y1, y_ext := w2\<rparr>)
      = (ext_OK, y1\<lparr>y_held := d # y_held y1, y_ext := w3\<rparr>)" "ext_content w3 = (ext_content w2)(d \<mapsto> render (us @ vs))"
    using y_put_content [of "tm 2" d "render (us @ vs)" "y1\<lparr>y_held := d # y_held y1, y_ext := w2\<rparr>"] by auto
  define w4 where "w4 = (if isfile i then snd (ec_remove i w3) else w3)"
  have "removeFiles i (y1\<lparr>y_held := d # y_held y1, y_ext := w3\<rparr>) = Inr (y1\<lparr>y_held := d # y_held y1, y_ext := w4\<rparr>)"
    using locks(2) y1(3) by (cases y1) (auto simp: removeFiles_def y_acquire_def y_release_def w4_def)
  then have "yfs_unlink tm d name y = Inr (yfs_OK, y1\<lparr>y_ext := w4\<rparr>)"
    using y1 w2 w3 e locks(1)
    by (cases y1) (simp add: yfs_unlink_def y_acquire_def y_release_def del: render_simps)
  moreover have "ext_content w4 = (y_content y)(d \<mapsto> render (us @ vs))"
    using w2(2) w3(2) y1(2) by (simp add: w4_def ec_remove_content)
  ultimately show ?thesis
    using y1(3) by simp
qed

text \<open>
  C12: \<^verbatim>\<open>unlink\<close> takes exactly one name out of a directory, when the digits of its number do not
  occur in an earlier entry: the other names keep their numbers, the format is kept, and the
  contents of all other extents stay.
\<close>

theorem unlink_refines:
  assumes ok: "dir_ok (us @ (i, name) # vs)" and dir: "y_content y d = Some (render (us @ (i, name) # vs))"
    and locks: "d \<notin> set (y_held y)" "i \<notin> set (d # y_held y)"
    and digits: "\<forall>e \<in> set us. \<not> sublist (filename i) (dir_entry e)"
  shows "\<exists>y'. yfs_unlink tm d name y = Inr (yfs_OK, y') \<and> y_held y' = y_held y
    \<and> y_content y' = (y_content y)(d \<mapsto> render (us @ vs)) \<and> dir_ok (us @ vs)
    \<and> dir_map (us @ vs) = (dir_map (us @ (i, name) # vs))(name := None)"
  using yfs_unlink_content [OF ok dir locks digits] dir_ok_split(2) [OF ok] dir_map_split(2) [OF ok] by simp

theorem unlink_refines_witness:
  "\<exists>y'. yfs_unlink (\<lambda>_. ex_times) 1 ''bar'' ex_yfs = Inr (yfs_OK, y') \<and> y_content y' 1 = Some ''12:xfoo;''"
  using unlink_refines [of "[]" 7 "''bar''" "[(12, ''xfoo'')]" ex_yfs 1 "\<lambda>_. ex_times"] ex_dir by auto

section \<open>Reading and writing files\<close>

text \<open>What a write at an offset means: a gap is filled with zeros, the rest of the file stays.\<close>

definition posix_write :: "string \<Rightarrow> nat \<Rightarrow> string \<Rightarrow> string" where
  "posix_write data off buf =
     take off buf @ replicate (off - length buf) nul @ data @ drop (off + length data) buf"

text \<open>The bytes that \<^verbatim>\<open>write\<close> takes from the caller's: those from the first NUL on are zeros.\<close>

definition nul_cut :: "string \<Rightarrow> string" where
  "nul_cut data = takeWhile (\<lambda>c. c \<noteq> nul) data @ replicate (length (dropWhile (\<lambda>c. c \<noteq> nul) data)) nul"

lemma length_nul_cut [simp]: "length (nul_cut data) = length data"
  unfolding nul_cut_def length_append length_replicate by (metis length_append takeWhile_dropWhile_id)

lemma nul_cut_id: "nul \<notin> set data \<Longrightarrow> nul_cut data = data"
  by (induction data) (auto simp: nul_cut_def)

lemma write_string_cut:
  assumes "c_string (data @ tail) = Inr s" "unat sz = length data"
  shows "write_string sz s = nul_cut data"
proof (cases "nul \<in> set data")
  case True
  then have "s = takeWhile (\<lambda>c. c \<noteq> nul) data"
    using assms(1) by (auto simp: c_string_def takeWhile_append1)
  moreover have "length data = length (takeWhile (\<lambda>c. c \<noteq> nul) data) + length (dropWhile (\<lambda>c. c \<noteq> nul) data)"
    by (metis length_append takeWhile_dropWhile_id)
  ultimately show ?thesis
    using assms(2) by (auto simp: write_string_def nul_cut_def)
next
  case False
  then have "takeWhile (\<lambda>c. c \<noteq> nul) (data @ tail) = data @ takeWhile (\<lambda>c. c \<noteq> nul) tail"
    by (induction data) auto
  then have "s = data @ takeWhile (\<lambda>c. c \<noteq> nul) tail"
    using assms(1) by (auto simp: c_string_def split: if_splits)
  then show ?thesis
    using assms(2) by (simp add: write_string_def nul_cut_id [OF False])
qed

lemma write_at_posix:
  assumes "length w = unat sz" "unat offset + unat sz < 2 ^ 64"
  shows "write_at w sz offset buf = posix_write w (unat offset) buf"
proof -
  have "unat (offset + sz) = unat offset + unat sz"
    using assms(2) by (subst unat_add_lem [THEN iffD1]) simp_all
  then show ?thesis
    using assms(1) by (auto simp: write_at_def posix_write_def)
qed

lemma yfs_write_content:
  assumes "y_content y i = Some buf" "i \<notin> set (y_held y)" "nul \<in> set (data @ tail)"
    and "unat sz = length data" "unat offset + length data < 2 ^ 64"
  obtains w where "yfs_write tm i (data @ tail) sz offset y = Inr (y\<lparr>y_ext := w\<rparr>)"
    "ext_content w = (y_content y)(i \<mapsto> posix_write (nul_cut data) (unat offset) buf)"
proof -
  let ?new = "posix_write (nul_cut data) (unat offset) buf"
  obtain s where s: "c_string (data @ tail) = Inr s"
    using assms(3) by (simp only: c_string_def if_True)
  obtain w1 where w1: "y_get (tm 0) i (y\<lparr>y_held := i # y_held y\<rparr>) = Inr (buf, y\<lparr>y_held := i # y_held y, y_ext := w1\<rparr>)"
      "ext_content w1 = y_content y"
    using y_get_content [of "y\<lparr>y_held := i # y_held y\<rparr>" i buf "tm 0"] assms(1) by auto
  obtain w2 where w2: "y_put (tm 1) i ?new (y\<lparr>y_held := i # y_held y, y_ext := w1\<rparr>)
      = (ext_OK, y\<lparr>y_held := i # y_held y, y_ext := w2\<rparr>)" "ext_content w2 = (ext_content w1)(i \<mapsto> ?new)"
    using y_put_content [of "tm 1" i ?new "y\<lparr>y_held := i # y_held y, y_ext := w1\<rparr>"] by auto
  have "write_at (write_string sz s) sz offset buf = ?new"
    using assms(4,5) by (simp add: write_string_cut [OF s] write_at_posix)
  then have "yfs_write tm i (data @ tail) sz offset y = Inr (y\<lparr>y_ext := w2\<rparr>)"
    using s w1(1) w2(1) assms(2) by (cases y) (simp add: yfs_write_def y_acquire_def y_release_def)
  then show thesis
    using that w1(2) w2(2) by simp
qed

lemma read_posix_write:
  "data \<noteq> [] \<Longrightarrow> take (length data) (drop off (posix_write data off buf)) = data \<and> off < length (posix_write data off buf)"
  by (cases "off \<le> length buf") (auto simp: posix_write_def)

text \<open>
  What a write does to a file, at every offset, also past the end: the file gets the bytes at
  the offset, with a gap of zeros where it was shorter, except that the bytes from the first NUL
  of the data on are written as zeros. No other extent changes.
\<close>

theorem write_exact:
  assumes "y_content y i = Some buf" "i \<notin> set (y_held y)" and "nul \<in> set (data @ tail)"
    and "unat sz = length data" "unat offset + length data < 2 ^ 64"
  shows "\<exists>y'. yfs_write tm i (data @ tail) sz offset y = Inr y' \<and> y_held y' = y_held y
    \<and> y_content y' = (y_content y)(i \<mapsto> posix_write (nul_cut data) (unat offset) buf)"
proof -
  obtain w where "yfs_write tm i (data @ tail) sz offset y = Inr (y\<lparr>y_ext := w\<rparr>)"
    "ext_content w = (y_content y)(i \<mapsto> posix_write (nul_cut data) (unat offset) buf)"
    using assms by (rule yfs_write_content)
  then show ?thesis
    by simp
qed

text \<open>
  A read returns what was written last at the same place, for data without NUL bytes.
\<close>

theorem read_after_write:
  assumes "y_content y i = Some buf" "i \<notin> set (y_held y)" and "nul \<notin> set data" "nul \<in> set tail"
    and "unat sz = length data" "unat offset + length data < 2 ^ 64"
  shows "\<exists>y' y''. yfs_write tm i (data @ tail) sz offset y = Inr y' \<and> yfs_read t i offset sz y' = Inr (data, y'')"
proof -
  obtain w where w: "yfs_write tm i (data @ tail) sz offset y = Inr (y\<lparr>y_ext := w\<rparr>)"
    "ext_content w = (y_content y)(i \<mapsto> posix_write (nul_cut data) (unat offset) buf)"
    using assms by (auto intro: yfs_write_content [of y i buf data tail sz offset tm])
  have "y_content (y\<lparr>y_ext := w\<rparr>) i = Some (posix_write data (unat offset) buf)" "i \<notin> set (y_held (y\<lparr>y_ext := w\<rparr>))"
    using w(2) assms(2) by (simp_all add: nul_cut_id [OF assms(3)])
  then obtain w' where w': "get_file t i (y\<lparr>y_ext := w\<rparr>) = Inr (posix_write data (unat offset) buf, y\<lparr>y_ext := w\<rparr>\<lparr>y_ext := w'\<rparr>)"
    by (rule get_file_content)
  have "read_at offset sz (posix_write data (unat offset) buf) = data"
    using read_posix_write [of data "unat offset" buf] assms(5) by (cases "data = []") (auto simp: read_at_def)
  then show ?thesis
    using w(1) w' by (simp add: yfs_read_def)
qed

definition ex_file :: yfs where
  "ex_file = \<lparr>y_ext = ([5 \<mapsto> \<lparr>c_content = ''hello'',
      c_attr = \<lparr>a_atime = 0, a_mtime = 0, a_ctime = 0, a_size = 5\<rparr>, c_is_dirty = True, c_is_removed = False\<rparr>],
      Map.empty), y_held = []\<rparr>"

lemma ex_file_content: "y_content ex_file 5 = Some ''hello''" "5 \<notin> set (y_held ex_file)"
  by (simp_all add: ex_file_def ext_content_def)

theorem write_exact_witness:
  "\<exists>y'. yfs_write (\<lambda>_. ex_times) 5 ([CHR ''a'', nul, CHR ''b''] @ []) 3 7 ex_file = Inr y'
     \<and> y_content y' 5 = Some (''hello'' @ [nul, nul, CHR ''a'', nul, nul])"
proof -
  have "nul \<in> set ([CHR ''a'', nul, CHR ''b''] @ [])" "unat (3::u64) = length [CHR ''a'', nul, CHR ''b'']"
      "unat (7::u64) + length [CHR ''a'', nul, CHR ''b''] < 2 ^ 64"
    by simp_all
  note w = write_exact [OF ex_file_content this, of "\<lambda>_. ex_times"]
  have "replicate 2 nul = [nul, nul]" "CHR ''a'' \<noteq> nul"
    by (simp_all add: numeral_2_eq_2 nul_def)
  then show ?thesis
    using w by (auto simp: posix_write_def nul_cut_def)
qed

theorem read_after_write_witness:
  "\<exists>y' y''. yfs_write (\<lambda>_. ex_times) 5 (''XY'' @ [nul]) 2 1 ex_file = Inr y' \<and> yfs_read ex_times 5 1 2 y' = Inr (''XY'', y'')"
  by (rule read_after_write [OF ex_file_content]) (simp_all add: nul_def)

text \<open>
  \<^verbatim>\<open>setattr\<close> can lose a write: whatever another thread writes to the file between the two critical
  sections of \<^verbatim>\<open>setattr\<close> is gone when it returns, although both hold the lock of the file
  whenever they use its extent.
\<close>

theorem setattr_loses_write:
  assumes "y_content y i = Some buf" "i \<notin> set (y_held y)" and "nul \<in> set (data @ tail)"
    and "unat sz = length data" "unat offset + length data < 2 ^ 64"
  shows "\<exists>y1 y2 y3. get_file (tm 0) i y = Inr (buf, y1) \<and> yfs_write tm' i (data @ tail) sz offset y1 = Inr y2
    \<and> setattr_put (tm 1) i n buf y2 = Inr (ext_OK, y3) \<and> y_content y3 i = Some (set_size n buf)"
proof -
  obtain w1 where w1: "get_file (tm 0) i y = Inr (buf, y\<lparr>y_ext := w1\<rparr>)" "ext_content w1 = y_content y"
    using assms(1,2) by (rule get_file_content)
  have "y_content (y\<lparr>y_ext := w1\<rparr>) i = Some buf" "i \<notin> set (y_held (y\<lparr>y_ext := w1\<rparr>))"
    using assms w1 by simp_all
  then obtain w2 where w2: "yfs_write tm' i (data @ tail) sz offset (y\<lparr>y_ext := w1\<rparr>) = Inr (y\<lparr>y_ext := w1\<rparr>\<lparr>y_ext := w2\<rparr>)"
    using assms(3-5) by (rule yfs_write_content)
  obtain w3 where w3: "y_put (tm 1) i (set_size n buf) (y\<lparr>y_ext := w2, y_held := i # y_held y\<rparr>)
      = (ext_OK, y\<lparr>y_ext := w2, y_held := i # y_held y\<rparr>\<lparr>y_ext := w3\<rparr>)"
      "ext_content w3 = (ext_content w2)(i \<mapsto> set_size n buf)"
    using y_put_content [of "tm 1" i "set_size n buf" "y\<lparr>y_ext := w2, y_held := i # y_held y\<rparr>"] by auto
  then have "setattr_put (tm 1) i n buf (y\<lparr>y_ext := w2\<rparr>) = Inr (ext_OK, y\<lparr>y_ext := w3\<rparr>)"
    using assms(2) by (cases y) (simp add: setattr_put_def y_acquire_def y_release_def)
  then show ?thesis
    using w1(1) w2 w3(2)
    by (intro exI [of _ "y\<lparr>y_ext := w1\<rparr>"] exI [of _ "y\<lparr>y_ext := w2\<rparr>"] exI [of _ "y\<lparr>y_ext := w3\<rparr>"]) simp
qed

theorem setattr_loses_write_witness:
  "\<exists>y1 y2 y3. get_file ex_times 5 ex_file = Inr (''hello'', y1)
     \<and> yfs_write (\<lambda>_. ex_times) 5 (''XY'' @ [nul]) 2 0 y1 = Inr y2
     \<and> setattr_put ex_times 5 4 ''hello'' y2 = Inr (ext_OK, y3) \<and> y_content y3 5 = Some (set_size 4 ''hello'')"
  by (rule setattr_loses_write [OF ex_file_content, where tm = "\<lambda>_. ex_times"]) (simp_all add: nul_def)

section \<open>Mounting, and kinds of file numbers\<close>

text \<open>
  Mounting empties the root directory: the constructor of \<^verbatim>\<open>yfs_client\<close> puts an empty content to
  extent 1 without looking at it, so a second client, or a restarted one, loses all names in the
  root; nothing else changes.
\<close>

theorem mount_empties_root:
  "\<exists>y. yfs_client_new t w = Inr y \<and> y_held y = [] \<and> y_content y = (ext_content w)(1 \<mapsto> [])"
proof -
  obtain w' where "y_put t 1 [] \<lparr>y_ext = w, y_held = [1]\<rparr> = (ext_OK, \<lparr>y_ext = w, y_held = [1]\<rparr>\<lparr>y_ext := w'\<rparr>)"
      "ext_content w' = (y_content \<lparr>y_ext = w, y_held = [1]\<rparr>)(1 \<mapsto> [])"
    by (rule y_put_content)
  then show ?thesis
    by (simp add: yfs_client_new_def y_acquire_def y_release_def)
qed

text \<open>
  C37: Every number that \<^verbatim>\<open>create\<close> generates is one of a file and every number that \<^verbatim>\<open>create_dir\<close>
  generates is one of a directory, for the client and for the server, whatever \<^verbatim>\<open>rand\<close> returns.
\<close>

theorem inum_kinds:
  "isfile (generate_file_inum rnd) \<and> es_isfile (generate_file_inum rnd)
   \<and> isdir (generate_dir_inum rnd) \<and> es_isdir (generate_dir_inum rnd)"
proof -
  have "bit (generate_file_inum rnd AND 0x80000000) 31"
    by (simp add: generate_file_inum_def bit_simps)
  then have "generate_file_inum rnd AND 0x80000000 \<noteq> 0"
    by (metis bit_0_eq bot_apply bot_bool_def)
  moreover have "generate_dir_inum rnd AND 0x80000000 = 0"
    by (simp add: generate_dir_inum_def and.assoc)
  ultimately show ?thesis
    by (simp add: isfile_def isdir_def es_isfile_def es_isdir_def)
qed

text \<open>
  The size that \<^verbatim>\<open>getfile\<close> reports is the length of the content of the file, reduced to 32 bits
  on its way through the attributes, and it leaves the locks as they were.
\<close>

theorem getfile_size:
  assumes "ext_ok (y_ext y)" "y_content y i = Some buf" "i \<notin> set (y_held y)"
  shows "\<exists>fin. getfile i y = Inr (yfs_OK, fin, y) \<and> unat (fi_size fin) = length buf mod 2 ^ 32"
proof -
  obtain a where "ec_getattr i (y_ext y) = Inr (a, y_ext y)" "a_size a = of_nat (length buf)"
    using ec_store.getattr_size [OF assms(1,2)] by blast
  moreover have "length buf mod 4294967296 < 4294967296"
    by simp
  then have "take_bit 64 (length buf mod 4294967296) = length buf mod 4294967296"
    by (simp add: take_bit_nat_eq_self_iff)
  ultimately show ?thesis
    using assms(3)
    by (cases y) (simp add: getfile_def y_getattr_def y_acquire_def y_release_def unsigned_ucast_eq unat_of_nat)
qed

theorem getfile_size_witness:
  "\<exists>fin. getfile 5 ex_file = Inr (yfs_OK, fin, ex_file) \<and> unat (fi_size fin) = length ''hello'' mod 2 ^ 32"
  by (rule getfile_size [OF _ ex_file_content]) (simp add: ex_file_def ext_ok_def)

end
