(* ===== verification/Fuse.thy ===== *)
theory Fuse
  imports Yfs_Client
begin

text \<open>
  The handlers that answer the requests of the kernel (\<^verbatim>\<open>fuse.cc\<close>), over the file system client. A
  handler takes a request and ends in one reply. The library that encodes directory entries and
  names the bits of \<^verbatim>\<open>setattr\<close> is a parameter, the record \<open>fuse_lib\<close>.
\<close>

section \<open>Attributes and replies\<close>

definition ENOENT :: i32 where "ENOENT = 2"
definition EEXIST :: i32 where "EEXIST = 17"
definition ENOTDIR :: i32 where "ENOTDIR = 20"
definition ENOSYS :: i32 where "ENOSYS = 38"

definition S_IFREG :: u32 where "S_IFREG = 0x8000"
definition S_IFDIR :: u32 where "S_IFDIR = 0x4000"

record stat_t =
  st_ino :: u64
  st_mode :: u32
  st_nlink :: u64
  st_atime :: u64
  st_mtime :: u64
  st_ctime :: u64
  st_size :: u64

record fuse_entry_param =
  e_ino :: u64
  e_generation :: u64
  e_attr :: stat_t
  e_attr_timeout :: nat
  e_entry_timeout :: nat

record statvfs =
  f_namemax :: u64
  f_bsize :: u64

datatype fuse_reply =
    Reply_err i32
  | Reply_attr stat_t
  | Reply_buf string
  | Reply_write u64
  | Reply_create fuse_entry_param
  | Reply_entry fuse_entry_param
  | Reply_open
  | Reply_statfs statvfs

text \<open>
  What the program uses of the library: the size of the directory entry of a name, the bytes
  that \<^verbatim>\<open>fuse_add_dirent\<close> writes for a name, a number and an offset, and the bit of \<^verbatim>\<open>setattr\<close> that
  stands for the size. By its documentation an entry has the size announced for its name.
\<close>

record fuse_lib =
  fl_dirent_size :: "nat \<Rightarrow> nat"
  fl_add_dirent :: "string \<Rightarrow> u64 \<Rightarrow> nat \<Rightarrow> string"
  fl_set_attr_size :: i32

definition lib_ok :: "fuse_lib \<Rightarrow> bool" where
  "lib_ok fl \<longleftrightarrow> (\<forall>n i off. length (fl_add_dirent fl n i off) = fl_dirent_size fl (length n))"

section \<open>The handlers\<close>

definition stat_zero :: stat_t where
  "stat_zero = \<lparr>st_ino = 0, st_mode = 0, st_nlink = 0, st_atime = 0, st_mtime = 0, st_ctime = 0, st_size = 0\<rparr>"

definition getattr :: "inum \<Rightarrow> yfs \<Rightarrow> (i32 \<times> stat_t \<times> yfs) res" where
  "getattr i y =
     (let st = stat_zero\<lparr>st_ino := i\<rparr> in
      if isfile i then
        bindR (getfile i y) (\<lambda>(ret, info, y).
          if ret \<noteq> yfs_OK then Inr (ret, st, y)
          else Inr (yfs_OK, st\<lparr>st_mode := S_IFREG OR 0x1B6, st_nlink := 1, st_atime := fi_atime info,
                 st_mtime := fi_mtime info, st_ctime := fi_ctime info, st_size := fi_size info\<rparr>, y))
      else
        bindR (getdir i y) (\<lambda>(ret, info, y).
          if ret \<noteq> yfs_OK then Inr (ret, st, y)
          else Inr (yfs_OK, st\<lparr>st_mode := S_IFDIR OR 0x1FF, st_nlink := 2, st_atime := di_atime info,
                 st_mtime := di_mtime info, st_ctime := di_ctime info\<rparr>, y)))"

definition fuseserver_getattr :: "inum \<Rightarrow> yfs \<Rightarrow> (fuse_reply \<times> yfs) res" where
  "fuseserver_getattr ino y =
     bindR (getattr ino y) (\<lambda>(ret, st, y).
       if ret \<noteq> yfs_OK then Inr (Reply_err ENOENT, y) else Inr (Reply_attr st, y))"

text \<open>\<^verbatim>\<open>attr->st_size\<close> is narrowed to the \<^verbatim>\<open>unsigned int\<close> that \<^verbatim>\<open>yfs_client::setattr\<close> takes.\<close>

definition fuseserver_setattr ::
  "fuse_lib \<Rightarrow> (nat \<Rightarrow> ext_times) \<Rightarrow> inum \<Rightarrow> u64 \<Rightarrow> i32 \<Rightarrow> yfs \<Rightarrow> (fuse_reply \<times> yfs) res" where
  "fuseserver_setattr fl tm ino size_attr to_set y =
     (if fl_set_attr_size fl AND to_set \<noteq> 0 then
        bindR (yfs_setattr tm ino (ucast size_attr) y) (\<lambda>(status, y).
          if status = yfs_OK then bindR (getattr ino y) (\<lambda>(r, st, y). Inr (Reply_attr st, y))
          else Inr (Reply_err ENOSYS, y))
      else Inr (Reply_err ENOSYS, y))"

definition fuseserver_read :: "(nat \<Rightarrow> ext_times) \<Rightarrow> inum \<Rightarrow> u64 \<Rightarrow> u64 \<Rightarrow> yfs \<Rightarrow> (fuse_reply \<times> yfs) res" where
  "fuseserver_read tm ino sz off y = bindR (yfs_read (tm 0) ino off sz y) (\<lambda>(buf, y). Inr (Reply_buf buf, y))"

definition fuseserver_write ::
  "(nat \<Rightarrow> ext_times) \<Rightarrow> inum \<Rightarrow> string \<Rightarrow> u64 \<Rightarrow> u64 \<Rightarrow> yfs \<Rightarrow> (fuse_reply \<times> yfs) res" where
  "fuseserver_write tm ino mem sz off y = bindR (yfs_write tm ino mem sz off y) (\<lambda>y. Inr (Reply_write sz, y))"

text \<open>In \<^verbatim>\<open>yfs\<close> the timeouts and the generation are always 0.\<close>

definition entry_of :: "inum \<Rightarrow> stat_t \<Rightarrow> fuse_entry_param" where
  "entry_of i st = \<lparr>e_ino = i, e_generation = 0, e_attr = st, e_attr_timeout = 0, e_entry_timeout = 0\<rparr>"

definition fuseserver_createhelper ::
  "(nat \<Rightarrow> ext_times) \<Rightarrow> i32 \<Rightarrow> inum \<Rightarrow> string \<Rightarrow> yfs \<Rightarrow> (i32 \<times> fuse_entry_param option \<times> yfs) res" where
  "fuseserver_createhelper tm rnd parent name y =
     bindR (yfs_create tm rnd parent name y) (\<lambda>(status, fileinum, y).
       if status = yfs_OK then
         bindR (getattr fileinum y) (\<lambda>(r, st, y). Inr (status, Some (entry_of fileinum st), y))
       else Inr (status, None, y))"

text \<open>The two handlers that create a file differ in the reply for success only.\<close>

definition fuseserver_create ::
  "(nat \<Rightarrow> ext_times) \<Rightarrow> i32 \<Rightarrow> inum \<Rightarrow> string \<Rightarrow> yfs \<Rightarrow> (fuse_reply \<times> yfs) res" where
  "fuseserver_create tm rnd parent name y =
     bindR (fuseserver_createhelper tm rnd parent name y) (\<lambda>(ret, e, y).
       if ret = yfs_OK then (case e of Some e \<Rightarrow> Inr (Reply_create e, y) | None \<Rightarrow> Inl UninitRead)
       else if ret = yfs_EXIST then Inr (Reply_err EEXIST, y) else Inr (Reply_err ENOENT, y))"

definition fuseserver_mknod ::
  "(nat \<Rightarrow> ext_times) \<Rightarrow> i32 \<Rightarrow> inum \<Rightarrow> string \<Rightarrow> yfs \<Rightarrow> (fuse_reply \<times> yfs) res" where
  "fuseserver_mknod tm rnd parent name y =
     bindR (fuseserver_createhelper tm rnd parent name y) (\<lambda>(ret, e, y).
       if ret = yfs_OK then (case e of Some e \<Rightarrow> Inr (Reply_entry e, y) | None \<Rightarrow> Inl UninitRead)
       else if ret = yfs_EXIST then Inr (Reply_err EEXIST, y) else Inr (Reply_err ENOENT, y))"

definition fuseserver_lookup :: "(nat \<Rightarrow> ext_times) \<Rightarrow> inum \<Rightarrow> string \<Rightarrow> yfs \<Rightarrow> (fuse_reply \<times> yfs) res" where
  "fuseserver_lookup tm parent name y =
     bindR (yfs_lookup (tm 0) parent name y) (\<lambda>(status, file_ino, y).
       if status = yfs_OK then
         (case file_ino of
            Some i \<Rightarrow> bindR (getattr i y) (\<lambda>(r, st, y). Inr (Reply_entry (entry_of i st), y))
          | None \<Rightarrow> Inl UninitRead)
       else Inr (Reply_err ENOENT, y))"

section \<open>Listing a directory\<close>

text \<open>
  A \<^verbatim>\<open>dirbuf\<close> is its bytes; \<^verbatim>\<open>size\<close> is their number. The name is a C string. The offset of an
  entry is the size of the buffer after it. That \<^verbatim>\<open>realloc\<close> runs out of memory is not modelled.
\<close>

definition dirbuf_add :: "fuse_lib \<Rightarrow> string \<Rightarrow> string \<Rightarrow> inum \<Rightarrow> string res" where
  "dirbuf_add fl b name ino =
     (let nm = takeWhile (\<lambda>c. c \<noteq> nul) name;
          sz = length b + fl_dirent_size fl (length nm);
          d = fl_add_dirent fl nm ino sz in
      if sz < length b + length d then Inl OutOfBounds
      else if length b + length d < sz then Inl UninitRead
      else Inr (b @ d))"

definition reply_buf_limited :: "string \<Rightarrow> u64 \<Rightarrow> u64 \<Rightarrow> fuse_reply" where
  "reply_buf_limited buf off maxsize =
     (if unat off < length buf then
        Reply_buf (take (min (length buf - unat off) (unat maxsize)) (drop (unat off) buf))
      else Reply_buf [])"

text \<open>
  The locals of the loop over the text of the directory: \<^verbatim>\<open>start_pos + 1\<close>, \<^verbatim>\<open>delim_pos\<close>, which has no
  value before the first colon, \<^verbatim>\<open>file_inum\<close> and the buffer. The text is shorter than \<open>2 ^ 31\<close>.
\<close>

record dir_scan =
  ds_start :: nat
  ds_delim :: "nat option"
  ds_inum :: string
  ds_b :: string

definition readdir_char :: "fuse_lib \<Rightarrow> string \<Rightarrow> nat \<Rightarrow> dir_scan \<Rightarrow> dir_scan res" where
  "readdir_char fl buffer i s =
     (let s = (if buffer ! i = CHR '':''
               then s\<lparr>ds_delim := Some i, ds_inum := take (i - ds_start s) (drop (ds_start s) buffer)\<rparr> else s) in
      if buffer ! i = CHR '';'' then
        (case ds_delim s of
           None \<Rightarrow> Inl UninitRead
         | Some d \<Rightarrow>
             bindR (dirbuf_add fl (ds_b s) (take (i - d - 1) (drop (d + 1) buffer)) (n2i (ds_inum s))) (\<lambda>b.
               Inr (s\<lparr>ds_b := b, ds_start := i + 1\<rparr>)))
      else Inr s)"

fun readdir_loop :: "fuse_lib \<Rightarrow> string \<Rightarrow> nat list \<Rightarrow> dir_scan \<Rightarrow> dir_scan res" where
  "readdir_loop fl buffer [] s = Inr s"
| "readdir_loop fl buffer (i # is) s = bindR (readdir_char fl buffer i s) (readdir_loop fl buffer is)"

definition fuseserver_readdir ::
  "fuse_lib \<Rightarrow> (nat \<Rightarrow> ext_times) \<Rightarrow> inum \<Rightarrow> u64 \<Rightarrow> u64 \<Rightarrow> yfs \<Rightarrow> (fuse_reply \<times> yfs) res" where
  "fuseserver_readdir fl tm ino sz off y =
     (if \<not> isdir ino then Inr (Reply_err ENOTDIR, y)
      else
        bindR (yfs_readdir (tm 0) ino y) (\<lambda>(buffer, y).
        bindR (readdir_loop fl buffer [0..<length buffer]
                 \<lparr>ds_start = 0, ds_delim = None, ds_inum = [], ds_b = []\<rparr>) (\<lambda>s.
          Inr (reply_buf_limited (ds_b s) off sz, y))))"

section \<open>Directories and removal\<close>

definition fuseserver_open :: "inum \<Rightarrow> yfs \<Rightarrow> (fuse_reply \<times> yfs) res" where
  "fuseserver_open ino y = Inr (Reply_open, y)"

definition fuseserver_mkdir ::
  "(nat \<Rightarrow> ext_times) \<Rightarrow> i32 \<Rightarrow> inum \<Rightarrow> string \<Rightarrow> yfs \<Rightarrow> (fuse_reply \<times> yfs) res" where
  "fuseserver_mkdir tm rnd parent name y =
     bindR (yfs_create_dir tm rnd parent name y) (\<lambda>(status, dirinum, y).
       if status = yfs_OK then
         bindR (getattr dirinum y) (\<lambda>(r, st, y). Inr (Reply_entry (entry_of dirinum st), y))
       else if status = yfs_EXIST then Inr (Reply_err EEXIST, y)
       else Inr (Reply_err ENOSYS, y))"

definition fuseserver_unlink :: "(nat \<Rightarrow> ext_times) \<Rightarrow> inum \<Rightarrow> string \<Rightarrow> yfs \<Rightarrow> (fuse_reply \<times> yfs) res" where
  "fuseserver_unlink tm parent name y =
     bindR (yfs_unlink tm parent name y) (\<lambda>(status, y).
       if status = yfs_OK then Inr (Reply_err 0, y) else Inr (Reply_err ENOENT, y))"

definition fuseserver_statfs :: "yfs \<Rightarrow> (fuse_reply \<times> yfs) res" where
  "fuseserver_statfs y = Inr (Reply_statfs \<lparr>f_namemax = 255, f_bsize = 512\<rparr>, y)"

section \<open>The session\<close>

text \<open>
  \<^verbatim>\<open>main\<close> registers one handler for each kind of request and serves the requests one after
  the other. The arguments of \<open>fuseserver_oper\<close> besides the request are what the handler finds:
  the environment of its calls of the extent client and the result of \<^verbatim>\<open>rand()\<close>.
\<close>

datatype fuse_req =
    Getattr inum
  | Statfs
  | Readdir inum u64 u64
  | Lookup inum string
  | Create inum string
  | Mknod inum string
  | Open inum
  | Read inum u64 u64
  | Write inum string u64 u64
  | Setattr inum u64 i32
  | Unlink inum string
  | Mkdir inum string

fun fuseserver_oper ::
  "fuse_lib \<Rightarrow> (nat \<Rightarrow> ext_times) \<Rightarrow> i32 \<Rightarrow> fuse_req \<Rightarrow> yfs \<Rightarrow> (fuse_reply \<times> yfs) res" where
  "fuseserver_oper fl tm rnd (Getattr i) = fuseserver_getattr i"
| "fuseserver_oper fl tm rnd Statfs = fuseserver_statfs"
| "fuseserver_oper fl tm rnd (Readdir i sz off) = fuseserver_readdir fl tm i sz off"
| "fuseserver_oper fl tm rnd (Lookup d n) = fuseserver_lookup tm d n"
| "fuseserver_oper fl tm rnd (Create d n) = fuseserver_create tm rnd d n"
| "fuseserver_oper fl tm rnd (Mknod d n) = fuseserver_mknod tm rnd d n"
| "fuseserver_oper fl tm rnd (Open i) = fuseserver_open i"
| "fuseserver_oper fl tm rnd (Read i sz off) = fuseserver_read tm i sz off"
| "fuseserver_oper fl tm rnd (Write i mem sz off) = fuseserver_write tm i mem sz off"
| "fuseserver_oper fl tm rnd (Setattr i sz to_set) = fuseserver_setattr fl tm i sz to_set"
| "fuseserver_oper fl tm rnd (Unlink d n) = fuseserver_unlink tm d n"
| "fuseserver_oper fl tm rnd (Mkdir d n) = fuseserver_mkdir tm rnd d n"

text \<open>The checks and the start of \<^verbatim>\<open>main\<close>; \<open>None\<close> is the exit with a usage message.\<close>

definition fuse_main :: "string list \<Rightarrow> ext_times \<Rightarrow> ext_world \<Rightarrow> yfs res option" where
  "fuse_main argv t w = (if length argv \<noteq> 4 then None else Some (yfs_client_new t w))"

inductive fuse_session :: "fuse_lib \<Rightarrow> yfs \<Rightarrow> bool" for fl where
  mounted: "fuse_main argv t w = Some (Inr y) \<Longrightarrow> ext_ok w \<Longrightarrow> fuse_session fl y"
| request: "fuse_session fl y \<Longrightarrow> fuseserver_oper fl tm rnd req y = Inr (rep, y') \<Longrightarrow> fuse_session fl y'"

section \<open>Locks and sizes over a session\<close>

text \<open>
  What every operation of the client leaves as it was: the locks that the thread holds, and the
  agreement of the size fields with the contents.
\<close>

definition y_keeps :: "yfs \<Rightarrow> yfs \<Rightarrow> bool" where
  "y_keeps y y' \<longleftrightarrow> y_held y' = y_held y \<and> (ext_ok (y_ext y) \<longrightarrow> ext_ok (y_ext y'))"

named_theorems keeps "operations that leave locks and sizes in order"

lemma y_keeps_refl [simp, keeps]: "y_keeps y y"
  by (simp add: y_keeps_def)

lemma y_keeps_trans: "y_keeps x y \<Longrightarrow> y_keeps y z \<Longrightarrow> y_keeps x z"
  by (simp add: y_keeps_def)

lemma y_section: "y_acquire i y = Inr y1 \<Longrightarrow> y_keeps y1 y2 \<Longrightarrow> y_keeps y (y_release i y2)"
  by (auto simp: y_keeps_def y_acquire_def split: if_splits)

lemma y_get_keeps [keeps]: "y_get t i y = Inr (buf, y') \<Longrightarrow> y_keeps y y'"
  using ec_store.get_keeps by (fastforce simp: y_get_def returns y_keeps_def)

lemma y_put_keeps [keeps]: "y_put t i buf y = (r, y') \<Longrightarrow> y_keeps y y'"
  using ec_store.put_content by (fastforce simp: y_put_def y_keeps_def split: prod.splits)

lemma ec_remove_ok: "ext_ok w \<Longrightarrow> ext_ok (snd (ec_remove i w))"
  by (cases w) (auto simp: ext_ok_def ec_remove_def split: option.splits)

lemma y_getattr_keeps [keeps]: "y_getattr i y = Inr (a, y') \<Longrightarrow> y_keeps y y'"
  by (cases y)
    (auto simp: y_getattr_def returns y_keeps_def ec_getattr_def y_acquire_def y_release_def
      split: if_splits option.splits prod.splits)

lemma getfile_keeps [keeps]: "getfile i y = Inr (r, a, y') \<Longrightarrow> y_keeps y y'"
  by (auto simp: getfile_def returns intro: keeps)

lemma getdir_keeps [keeps]: "getdir i y = Inr (r, a, y') \<Longrightarrow> y_keeps y y'"
  by (auto simp: getdir_def returns intro: keeps)

lemma get_file_keeps [keeps]: "get_file t i y = Inr (buf, y') \<Longrightarrow> y_keeps y y'"
  by (auto simp: get_file_def returns intro: y_section [OF _ y_get_keeps])

lemma yfs_readdir_keeps [keeps]: "yfs_readdir t i y = Inr (buf, y') \<Longrightarrow> y_keeps y y'"
  by (auto simp: yfs_readdir_def returns intro: y_section [OF _ y_get_keeps])

lemma y_put_snd_keeps: "y_keeps x y \<Longrightarrow> y_keeps x (snd (y_put t i buf y))"
  by (rule y_keeps_trans [OF _ y_put_keeps]) (auto simp: prod_eq_iff)

lemma y_inner_section: "y_keeps x y \<Longrightarrow> y_acquire i y = Inr y1 \<Longrightarrow> y_keeps y1 y2 \<Longrightarrow> y_keeps x (y_release i y2)"
  using y_section y_keeps_trans by blast

lemma create_entry_keeps [keeps]:
  assumes "create_entry tm d name new y = Inr (r, y')"
  shows "y_keeps y y'"
proof -
  obtain y1 buf y2 where 1: "y_acquire d y = Inr y1" and g: "y_get (tm 0) d y1 = Inr (buf, y2)"
    using assms by (auto simp: create_entry_def elim!: bindR_InrE)
  note sec = y_section [OF 1] y_get_keeps [OF g]
  show ?thesis
  proof (cases "str_find name buf")
    case None
    then obtain y3 where y3: "y_acquire new y2 = Inr y3"
        "y' = y_release d (snd (y_put (tm 2) d (new_entry new name buf) (y_release new (snd (y_put (tm 1) new [] y3)))))"
      using assms 1 g by (auto simp: create_entry_def Let_def case_prod_beta elim!: bindR_InrE)
    show ?thesis
      unfolding y3(2) by (intro sec(1) y_put_snd_keeps y_inner_section [OF sec(2) y3(1)] y_keeps_refl)
  next
    case (Some p)
    then show ?thesis
      using assms 1 g sec by (auto simp: create_entry_def)
  qed
qed

lemma yfs_create_keeps [keeps]:
  "yfs_create tm rnd d name y = Inr (r, i, y') \<Longrightarrow> y_keeps y y'"
  "yfs_create_dir tm rnd d name y = Inr (r, i, y') \<Longrightarrow> y_keeps y y'"
  by (auto simp: yfs_create_def yfs_create_dir_def Let_def returns intro: keeps)

lemma yfs_lookup_keeps [keeps]: "yfs_lookup t d name y = Inr (r, i, y') \<Longrightarrow> y_keeps y y'"
  by (auto simp: yfs_lookup_def returns Let_def split: option.splits intro: y_section [OF _ y_get_keeps])

lemma removeFiles_keeps [keeps]: "removeFiles i y = Inr y' \<Longrightarrow> y_keeps y y'"
  by (auto simp: removeFiles_def returns y_keeps_def y_acquire_def ec_remove_ok split: if_splits)

lemma yfs_unlink_keeps [keeps]:
  assumes "yfs_unlink tm d name y = Inr (r, y')"
  shows "y_keeps y y'"
proof -
  obtain status found y1 where 1: "yfs_lookup (tm 0) d name y = Inr (status, found, y1)"
    using assms by (auto simp: yfs_unlink_def elim: bindR_InrE)
  have "y_keeps y1 y'"
    using assms 1 unfolding yfs_unlink_def Let_def case_prod_beta
    by (auto elim!: bindR_InrE split: option.splits
        intro: y_section [OF _ y_keeps_trans [OF y_put_snd_keeps [OF y_get_keeps] removeFiles_keeps]])
  then show ?thesis
    using yfs_lookup_keeps [OF 1] by (rule y_keeps_trans [rotated])
qed

lemma yfs_setattr_keeps [keeps]: "yfs_setattr tm i sz y = Inr (r, y') \<Longrightarrow> y_keeps y y'"
  by (auto simp: yfs_setattr_def setattr_put_def returns Let_def case_prod_beta
      intro: y_keeps_trans [OF get_file_keeps y_section [OF _ y_put_snd_keeps [OF y_keeps_refl]]])

lemma yfs_read_keeps [keeps]: "yfs_read t i off sz y = Inr (buf, y') \<Longrightarrow> y_keeps y y'"
  by (auto simp: yfs_read_def returns intro: keeps)

lemma yfs_write_keeps [keeps]: "yfs_write tm i mem sz off y = Inr y' \<Longrightarrow> y_keeps y y'"
  by (auto simp: yfs_write_def returns Let_def case_prod_beta
      intro: y_section [OF _ y_put_snd_keeps [OF y_get_keeps]])

lemma getattr_keeps [keeps]: "getattr i y = Inr (r, st, y') \<Longrightarrow> y_keeps y y'"
  by (auto simp: getattr_def returns Let_def split: if_splits intro: keeps)

lemma createhelper_keeps [keeps]: "fuseserver_createhelper tm rnd d name y = Inr (r, e, y') \<Longrightarrow> y_keeps y y'"
  by (auto simp: fuseserver_createhelper_def elim!: bindR_InrE split: if_splits
      intro: yfs_create_keeps y_keeps_trans [OF yfs_create_keeps(1) getattr_keeps])

lemma handler_keeps:
  "fuseserver_getattr i y = Inr (rep, y') \<Longrightarrow> y_keeps y y'"
  "fuseserver_setattr fl tm i asz to_set y = Inr (rep, y') \<Longrightarrow> y_keeps y y'"
  "fuseserver_read tm i sz off y = Inr (rep, y') \<Longrightarrow> y_keeps y y'"
  "fuseserver_write tm i mem sz off y = Inr (rep, y') \<Longrightarrow> y_keeps y y'"
  "fuseserver_create tm rnd d name y = Inr (rep, y') \<Longrightarrow> y_keeps y y'"
  "fuseserver_mknod tm rnd d name y = Inr (rep, y') \<Longrightarrow> y_keeps y y'"
  "fuseserver_lookup tm d name y = Inr (rep, y') \<Longrightarrow> y_keeps y y'"
  "fuseserver_readdir fl tm i sz off y = Inr (rep, y') \<Longrightarrow> y_keeps y y'"
  "fuseserver_mkdir tm rnd d name y = Inr (rep, y') \<Longrightarrow> y_keeps y y'"
  "fuseserver_unlink tm d name y = Inr (rep, y') \<Longrightarrow> y_keeps y y'"
  by (auto simp: fuseserver_getattr_def fuseserver_setattr_def fuseserver_read_def fuseserver_write_def
      fuseserver_create_def fuseserver_mknod_def fuseserver_lookup_def fuseserver_readdir_def fuseserver_mkdir_def fuseserver_unlink_def
      elim!: bindR_InrE split: if_splits option.splits
      intro: y_keeps_trans [OF yfs_setattr_keeps getattr_keeps] y_keeps_trans [OF yfs_lookup_keeps getattr_keeps]
        y_keeps_trans [OF yfs_create_keeps(2) getattr_keeps] keeps)

lemma oper_keeps: "fuseserver_oper fl tm rnd req y = Inr (rep, y') \<Longrightarrow> y_keeps y y'"
  by (cases req) (auto dest: handler_keeps simp: fuseserver_open_def fuseserver_statfs_def)

text \<open>A thread without locks is blocked by itself only where an operation takes two locks.\<close>

named_theorems free "operations that do not wait when the thread holds no lock"

lemma y_get_waits [simp]: "y_get t i y \<noteq> Inl Deadlock"
  by (cases "y_ext y") (auto simp: y_get_def bindR_Inl_iff ec_get_def ec_getattr_def split: option.splits if_splits prod.splits)

lemma y_acquire_free [simp]: "y_held y = [] \<Longrightarrow> y_acquire i y = Inr (y\<lparr>y_held := [i]\<rparr>)"
  by (simp add: y_acquire_def)

lemma getattr_free [free]: "y_held y = [] \<Longrightarrow> getattr i y \<noteq> Inl Deadlock"
  by (cases "y_ext y")
    (auto simp: getattr_def getfile_def getdir_def y_getattr_def bindR_Inl_iff ec_getattr_def Let_def
      split: if_splits option.splits prod.splits)

lemma get_file_free [free]: "y_held y = [] \<Longrightarrow> get_file t i y \<noteq> Inl Deadlock" "y_held y = [] \<Longrightarrow> yfs_readdir t i y \<noteq> Inl Deadlock"
  by (auto simp: get_file_def yfs_readdir_def bindR_Inl_iff)

lemma lookup_free [free]: "y_held y = [] \<Longrightarrow> yfs_lookup t d name y \<noteq> Inl Deadlock"
  by (auto simp: yfs_lookup_def bindR_Inl_iff Let_def split: option.splits)

lemma y_keeps_free: "y_keeps y y' \<Longrightarrow> y_held y = [] \<Longrightarrow> y_held y' = []"
  by (simp add: y_keeps_def)

lemma setattr_free [free]: "y_held y = [] \<Longrightarrow> yfs_setattr tm i sz y \<noteq> Inl Deadlock"
  using y_keeps_free [OF get_file_keeps]
  by (fastforce simp: yfs_setattr_def setattr_put_def bindR_Inl_iff get_file_free Let_def split: prod.splits)

lemma read_free [free]: "y_held y = [] \<Longrightarrow> yfs_read t i off sz y \<noteq> Inl Deadlock"
  by (auto simp: yfs_read_def bindR_Inl_iff get_file_free)

lemma write_free [free]: "y_held y = [] \<Longrightarrow> yfs_write tm i mem sz off y \<noteq> Inl Deadlock"
  by (auto simp: yfs_write_def bindR_Inl_iff c_string_def Let_def split: if_splits prod.splits)

lemma create_entry_free:
  assumes "y_held y = []" "new \<noteq> d"
  shows "create_entry tm d name new y \<noteq> Inl Deadlock"
proof
  assume "create_entry tm d name new y = Inl Deadlock"
  then obtain buf y2 where "y_get (tm 0) d (y\<lparr>y_held := [d]\<rparr>) = Inr (buf, y2)" "y_acquire new y2 = Inl Deadlock"
    using assms(1) by (auto simp: create_entry_def bindR_Inl_iff Let_def case_prod_beta split: if_splits)
  moreover from this(1) have "y_held y2 = [d]"
    using y_get_keeps by (fastforce simp: y_keeps_def)
  ultimately show False
    using assms(2) by (simp add: y_acquire_def)
qed

lemma dirbuf_add_free [free]: "dirbuf_add fl b n i \<noteq> Inl Deadlock"
  by (simp add: dirbuf_add_def Let_def)

lemma readdir_loop_free [free]: "readdir_loop fl buffer is s \<noteq> Inl Deadlock"
proof (induction "is" arbitrary: s)
  case (Cons i "is")
  have "readdir_char fl buffer i s \<noteq> Inl Deadlock"
    by (auto simp: readdir_char_def Let_def bindR_Inl_iff dirbuf_add_free split: option.splits)
  then show ?case
    using Cons by (auto simp: bindR_Inl_iff)
qed simp

lemma unlink_free:
  assumes "y_held y = []" "yfs_unlink tm d name y = Inl Deadlock"
  shows "\<exists>buf. y_content y d = Some buf \<and> lookup_entry name buf = Some d"
proof -
  obtain status i y1 where l: "yfs_lookup (tm 0) d name y = Inr (status, Some i, y1)"
    and u: "bindR (y_acquire d y1) (\<lambda>y. bindR (y_get (tm 1) d y) (\<lambda>(buffer, y). bindR (unlink_entry name i buffer) (\<lambda>dir_list.
      let (r, y) = y_put (tm 2) d dir_list y in bindR (removeFiles i y) (\<lambda>y. Inr (yfs_OK, y_release d y))))) = Inl Deadlock"
    using assms lookup_free [OF assms(1)] by (auto simp: yfs_unlink_def bindR_Inl_iff split: option.splits)
  have h: "y_held y1 = []"
    using y_keeps_free [OF yfs_lookup_keeps [OF l] assms(1)] .
  have ue: "unlink_entry name i buf \<noteq> Inl Deadlock" for buf
    by (auto simp: unlink_entry_def Let_def split: option.splits)
  obtain buf y2 b where "y_get (tm 1) d (y1\<lparr>y_held := [d]\<rparr>) = Inr (buf, y2)" and r: "removeFiles i (snd (y_put (tm 2) d b y2)) = Inl Deadlock"
    using u h ue by (fastforce simp: bindR_Inl_iff Let_def case_prod_beta)
  then have "y_keeps (y1\<lparr>y_held := [d]\<rparr>) (snd (y_put (tm 2) d b y2))"
    by (intro y_put_snd_keeps y_get_keeps)
  then have "i = d"
    using r by (auto simp: y_keeps_def removeFiles_def bindR_Inl_iff y_acquire_def split: if_splits)
  moreover obtain buf y2 where "y_get (tm 0) d (y\<lparr>y_held := [d]\<rparr>) = Inr (buf, y2)" "lookup_entry name buf = Some i"
    using l assms(1) by (auto simp: yfs_lookup_def Let_def elim!: bindR_InrE split: option.splits)
  moreover from this(1) have "y_content y d = Some buf"
    using ec_get_content(1) by (fastforce simp: y_get_def elim!: bindR_InrE)
  ultimately show ?thesis
    by blast
qed

text \<open>
  The requests that block the thread: a new file or directory draws the number of the directory
  it goes into, or a directory has an entry for itself, which is unlinked.
\<close>

fun waits_for_itself :: "i32 \<Rightarrow> fuse_req \<Rightarrow> yfs \<Rightarrow> bool" where
  "waits_for_itself rnd (Create d n) y \<longleftrightarrow> generate_file_inum rnd = d"
| "waits_for_itself rnd (Mknod d n) y \<longleftrightarrow> generate_file_inum rnd = d"
| "waits_for_itself rnd (Mkdir d n) y \<longleftrightarrow> generate_dir_inum rnd = d"
| "waits_for_itself rnd (Unlink d n) y \<longleftrightarrow> (\<exists>buf. y_content y d = Some buf \<and> lookup_entry n buf = Some d)"
| "waits_for_itself rnd _ y \<longleftrightarrow> False"

lemma createhelper_free:
  assumes "y_held y = []"
  shows "fuseserver_createhelper tm rnd d name y = Inl Deadlock \<Longrightarrow> generate_file_inum rnd = d"
  using create_entry_free [OF assms] getattr_free [OF y_keeps_free [OF yfs_create_keeps(1) assms]]
  by (auto simp: fuseserver_createhelper_def bindR_Inl_iff yfs_create_def Let_def split: if_splits)

lemma mkdir_free:
  assumes "y_held y = []"
  shows "fuseserver_mkdir tm rnd d name y = Inl Deadlock \<Longrightarrow> generate_dir_inum rnd = d"
  using create_entry_free [OF assms] getattr_free [OF y_keeps_free [OF yfs_create_keeps(2) assms]]
  by (auto simp: fuseserver_mkdir_def bindR_Inl_iff yfs_create_dir_def Let_def split: if_splits)

lemma oper_free:
  assumes "y_held y = []" "fuseserver_oper fl tm rnd req y = Inl Deadlock"
  shows "waits_for_itself rnd req y"
proof (cases req)
  case (Setattr i sz to_set)
  have "getattr i y' \<noteq> Inl Deadlock" if "yfs_setattr tm i s y = Inr (r, y')" for s r y'
    using that by (intro getattr_free y_keeps_free [OF yfs_setattr_keeps assms(1)])
  then show ?thesis
    using assms Setattr setattr_free [OF assms(1)]
    by (auto simp: fuseserver_setattr_def bindR_Inl_iff split: if_splits)
next
  case (Lookup d n)
  have "getattr i y' \<noteq> Inl Deadlock" if "yfs_lookup (tm 0) d n y = Inr (r, j, y')" for i r j y'
    using that by (intro getattr_free y_keeps_free [OF yfs_lookup_keeps assms(1)])
  then show ?thesis
    using assms Lookup lookup_free [OF assms(1)]
    by (auto simp: fuseserver_lookup_def bindR_Inl_iff split: if_splits option.splits)
next
  case (Unlink d n)
  then have "yfs_unlink tm d n y = Inl Deadlock"
    using assms(2) by (auto simp: fuseserver_unlink_def bindR_Inl_iff split: if_splits)
  then show ?thesis
    using unlink_free [OF assms(1)] Unlink by simp
qed (use assms createhelper_free [OF assms(1)] mkdir_free [OF assms(1)] in \<open>auto simp: fuseserver_getattr_def fuseserver_statfs_def fuseserver_readdir_def
  fuseserver_create_def fuseserver_mknod_def fuseserver_open_def fuseserver_read_def fuseserver_write_def bindR_Inl_iff free
  split: if_splits option.splits\<close>)

text \<open>
  C13: Between two requests the file system client holds no lock, and every size it reports is that of the
  content; so a request never waits for an earlier one, and waits for itself only when the number it draws is
  that of the parent directory, or a directory that contains itself is unlinked.
\<close>

theorem fuse_session_locks:
  assumes "fuse_session fl y"
  shows "y_held y = [] \<and> ext_ok (y_ext y)
    \<and> (\<forall>tm rnd req. fuseserver_oper fl tm rnd req y = Inl Deadlock \<longrightarrow> waits_for_itself rnd req y)"
  using assms
proof induction
  case (mounted argv t w y)
  then obtain r y1 where p: "y_put t 1 [] \<lparr>y_ext = w, y_held = [1]\<rparr> = (r, y1)" "y = y_release 1 y1"
    by (auto simp: fuse_main_def yfs_client_new_def split: if_splits prod.splits)
  then have "y_held y = [] \<and> ext_ok (y_ext y)"
    using y_put_keeps [OF p(1)] mounted(2) by (simp add: y_keeps_def)
  then show ?case
    using oper_free by blast
next
  case (request y tm rnd req rep y')
  then have "y_held y' = [] \<and> ext_ok (y_ext y')"
    using oper_keeps [OF request(2)] by (simp add: y_keeps_def)
  then show ?case
    using oper_free by blast
qed

section \<open>Attributes\<close>

text \<open>What the attributes of an extent with a given content are: the kind follows from the number alone.\<close>

definition attr_of :: "inum \<Rightarrow> string \<Rightarrow> stat_t \<Rightarrow> bool" where
  "attr_of i buf st \<longleftrightarrow> st_ino st = i \<and>
     (if isfile i then st_mode st = S_IFREG OR 0x1B6 \<and> st_nlink st = 1 \<and> unat (st_size st) = length buf mod 2 ^ 32
      else st_mode st = S_IFDIR OR 0x1FF \<and> st_nlink st = 2 \<and> st_size st = 0)"

lemma getattr_content:
  assumes "ext_ok (y_ext y)" "y_content y i = Some buf" "y_held y = []"
  obtains st where "getattr i y = Inr (yfs_OK, st, y)" "attr_of i buf st"
proof (cases "isfile i")
  case True
  obtain fin where "getfile i y = Inr (yfs_OK, fin, y)" "unat (fi_size fin) = length buf mod 2 ^ 32"
    using getfile_size [OF assms(1,2)] assms(3) by auto
  then show thesis
    using True that by (simp add: getattr_def attr_of_def stat_zero_def)
next
  case False
  obtain a where "ec_getattr i (y_ext y) = Inr (a, y_ext y)"
    using ec_store.getattr_size [OF assms(1,2)] by blast
  then have "y_getattr i y = Inr (a, y)"
    using assms(3) by (cases y) (simp add: y_getattr_def y_release_def)
  then show thesis
    using False that by (simp add: getattr_def getdir_def attr_of_def stat_zero_def)
qed

section \<open>Names\<close>

lemma lookup_entry_None:
  assumes "\<And>e. e \<in> set es \<Longrightarrow> CHR '';'' \<notin> set (snd e) \<and> \<not> suffix n (snd e)" "CHR '';'' \<notin> set n" "CHR '':'' \<notin> set n"
  shows "lookup_entry n (render es) = None"
  using assms str_find_prefix [of es n "[]"] suffix_entry [OF assms(3)] by (simp add: lookup_entry_def)

lemma fuse_lookup_entry:
  assumes ok: "ext_ok (y_ext y)" "y_held y = []" and dir: "y_content y d = Some (render es)" "dir_ok es"
    and i: "dir_map es n = Some i" "y_content y i = Some buf"
  obtains st y' where "fuseserver_lookup tm d n y = Inr (Reply_entry (entry_of i st), y')" "attr_of i buf st"
    "y_content y' = y_content y"
proof -
  obtain y1 where y1: "yfs_lookup (tm 0) d n y = Inr (yfs_OK, Some i, y1)" "y_content y1 = y_content y"
    using yfs_lookup_content [OF dir(2,1) _ i(1)] ok(2) by auto
  then have k: "ext_ok (y_ext y1)" "y_held y1 = []" "y_content y1 i = Some buf"
    using yfs_lookup_keeps [OF y1(1)] ok i(2) by (simp_all add: y_keeps_def)
  obtain st where "getattr i y1 = Inr (yfs_OK, st, y1)" "attr_of i buf st"
    using getattr_content [OF k(1,3,2)] .
  then show thesis
    using that y1 by (simp add: fuseserver_lookup_def)
qed

lemma fuse_lookup_absent:
  assumes "y_held y = []" "y_content y d = Some (render es)" "dir_ok es" "name_ok n" "\<forall>e \<in> set es. \<not> suffix n (snd e)"
  obtains y' where "fuseserver_lookup tm d n y = Inr (Reply_err ENOENT, y')" "y_content y' = y_content y"
proof -
  have none: "lookup_entry n (render es) = None"
    using assms(3-5) by (intro lookup_entry_None) (auto simp: dir_ok_def name_ok_def)
  obtain w where "y_get (tm 0) d (y\<lparr>y_held := [d]\<rparr>) = Inr (render es, y\<lparr>y_held := [d], y_ext := w\<rparr>)"
      "ext_content w = y_content y"
    using y_get_content [of "y\<lparr>y_held := [d]\<rparr>" d "render es" "tm 0"] assms(2) by auto
  then show thesis
    using that assms(1) none
    by (simp add: fuseserver_lookup_def yfs_lookup_def y_release_def yfs_OK_def yfs_IOERR_def)
qed

text \<open>
  C9: A file that was created is there: when no entry of a directory contains the name, \<^verbatim>\<open>create\<close> answers with an empty
  regular file under the number that was drawn, and a \<^verbatim>\<open>lookup\<close> of the name answers with that file. Every other name still leads to the file
  it led to before, unless that is the very number that was drawn.
\<close>

theorem fuse_create_lookup:
  assumes ok: "ext_ok (y_ext y)" "y_held y = []" and dir: "y_content y d = Some (render es)" "dir_ok es"
    and name: "name_ok name" "\<forall>e \<in> set es. \<not> sublist name (dir_entry e)" and new: "generate_file_inum rnd \<noteq> d"
  shows "\<exists>st y1. fuseserver_create tm rnd d name y = Inr (Reply_create (entry_of (generate_file_inum rnd) st), y1)
    \<and> attr_of (generate_file_inum rnd) [] st
    \<and> (\<exists>st' y2. fuseserver_lookup tm' d name y1 = Inr (Reply_entry (entry_of (generate_file_inum rnd) st'), y2)
        \<and> attr_of (generate_file_inum rnd) [] st')
    \<and> (\<forall>n i buf. dir_map es n = Some i \<and> y_content y i = Some buf \<and> i \<noteq> d \<and> i \<noteq> generate_file_inum rnd \<longrightarrow>
        (\<exists>st' y2. fuseserver_lookup tm' d n y1 = Inr (Reply_entry (entry_of i st'), y2) \<and> attr_of i buf st'))"
proof -
  let ?new = "generate_file_inum rnd" and ?es = "es @ [(generate_file_inum rnd, name)]"
  have "\<not> sublist name (render es)"
    using name sublist_render [of name es] by (simp add: name_ok_def)
  then obtain w where w: "create_entry tm d name ?new y = Inr (yfs_OK, y\<lparr>y_ext := w\<rparr>)"
      "ext_content w = (y_content y)(?new \<mapsto> [], d \<mapsto> new_entry ?new name (render es))"
    using create_entry_new [OF dir(1) _ _ new, of name tm] ok(2) by auto
  let ?y = "y\<lparr>y_ext := w\<rparr>"
  have k: "ext_ok (y_ext ?y)" "y_held ?y = []"
    using create_entry_keeps [OF w(1)] ok by (simp_all add: y_keeps_def)
  have c: "y_content ?y ?new = Some []" "y_content ?y d = Some (render ?es)"
    using w(2) new new_entry_render [of ?new name es] by simp_all
  have ok': "dir_ok ?es"
    using dir(2) name by (intro dir_ok_append) auto
  then have m: "dir_map ?es = (dir_map es)(name \<mapsto> ?new)"
    using dir_map_split [of es ?new name "[]"] by (auto simp: fun_eq_iff)
  obtain st where st: "getattr ?new ?y = Inr (yfs_OK, st, ?y)" "attr_of ?new [] st"
    using getattr_content [OF k(1) c(1) k(2)] .
  have "fuseserver_create tm rnd d name y = Inr (Reply_create (entry_of ?new st), ?y)"
    using w(1) st(1) by (simp add: fuseserver_create_def fuseserver_createhelper_def yfs_create_def)
  moreover have "\<exists>st' y2. fuseserver_lookup tm' d name ?y = Inr (Reply_entry (entry_of ?new st'), y2) \<and> attr_of ?new [] st'"
    using fuse_lookup_entry [OF k c(2) ok' _ c(1), of name tm'] m by (metis fun_upd_same)
  moreover have "\<exists>st' y2. fuseserver_lookup tm' d n ?y = Inr (Reply_entry (entry_of i st'), y2) \<and> attr_of i buf st'"
    if "dir_map es n = Some i" "y_content y i = Some buf" "i \<noteq> d" "i \<noteq> ?new" for n i buf
  proof -
    have "n \<noteq> name"
      using that(1) name(2) not_sublist_entry(2) by (elim dir_map_entry) force
    then have "dir_map ?es n = Some i" "y_content ?y i = Some buf"
      using that m w(2) by simp_all
    then show ?thesis
      using fuse_lookup_entry [OF k c(2) ok', of n i buf tm'] by metis
  qed
  ultimately show ?thesis
    using st(2) by blast
qed

section \<open>The listing of a directory\<close>

text \<open>What a listing is: one entry after the other, each with the position of the next one.\<close>

fun dirents :: "fuse_lib \<Rightarrow> nat \<Rightarrow> (inum \<times> string) list \<Rightarrow> string" where
  "dirents fl off [] = []"
| "dirents fl off ((i, n) # es) =
     (let off' = off + fl_dirent_size fl (length n) in fl_add_dirent fl n i off' @ dirents fl off' es)"

lemma length_dirents: "lib_ok fl \<Longrightarrow> length (dirents fl off es) = (\<Sum>e \<leftarrow> es. fl_dirent_size fl (length (snd e)))"
  by (induction fl off es rule: dirents.induct) (auto simp: lib_ok_def Let_def)

lemma dirents_append:
  assumes "lib_ok fl"
  shows "dirents fl off (us @ vs) = dirents fl off us @ dirents fl (off + length (dirents fl off us)) vs"
  using assms
  by (induction fl off us rule: dirents.induct) (auto simp: lib_ok_def Let_def add.assoc)

lemma readdir_loop_append:
  "readdir_loop fl buffer (is @ js) s = bindR (readdir_loop fl buffer is s) (readdir_loop fl buffer js)"
  by (induction "is" arbitrary: s) (auto simp: bindR_assoc intro: bindR_cong)

lemma readdir_loop_plain:
  assumes "CHR '':'' \<notin> set x" "CHR '';'' \<notin> set x"
  shows "readdir_loop fl (pre @ x @ r) [length pre..<length pre + length x] s = Inr s"
  using assms
proof (induction x arbitrary: pre)
  case (Cons c x)
  have "[length pre..<length pre + length (c # x)] = length pre # [length (pre @ [c])..<length (pre @ [c]) + length x]"
    by (simp add: upt_conv_Cons del: upt_Suc)
  then show ?case
    using Cons.IH [of "pre @ [c]"] Cons.prems by (auto simp: readdir_char_def nth_append Let_def simp del: upt_Suc)
qed simp

lemma dirbuf_add_ok:
  assumes "lib_ok fl" "nul \<notin> set n"
  shows "dirbuf_add fl b n i = Inr (b @ dirents fl (length b) [(i, n)])"
proof -
  have "takeWhile (\<lambda>c. c \<noteq> nul) n = n"
    using assms(2) by (auto simp: takeWhile_eq_all_conv)
  then show ?thesis
    using assms(1) unfolding dirbuf_add_def Let_def by (simp only:) (simp add: lib_ok_def)
qed

text \<open>The scan of one entry, from its start to behind the semicolon.\<close>

lemma readdir_loop_entry:
  assumes "lib_ok fl" "CHR '':'' \<notin> set n" "CHR '';'' \<notin> set n" "nul \<notin> set n" "ds_start s = length pre"
  shows "readdir_loop fl (pre @ dir_entry (i, n) @ CHR '';'' # r) [length pre..<length pre + Suc (length (dir_entry (i, n)))] s =
    Inr \<lparr>ds_start = length pre + Suc (length (dir_entry (i, n))), ds_delim = Some (length pre + length (filename i)),
      ds_inum = filename i, ds_b = ds_b s @ dirents fl (length (ds_b s)) [(i, n)]\<rparr>"
proof -
  let ?f = "filename i" and ?buf = "pre @ dir_entry (i, n) @ CHR '';'' # r"
  let ?p = "length pre + length (filename i)"
  let ?q = "Suc ?p + length n"
  have "[?p..<Suc ?q] = [?p] @ [Suc ?p..<?q] @ [?q]"
    by (subst upt_conv_Cons) simp_all
  then have upt: "[length pre..<Suc ?q] = [length pre..<?p] @ [?p] @ [Suc ?p..<?q] @ [?q]"
    using upt_add_eq_append [of "length pre" ?p "Suc (Suc (length n))"] by (simp del: upt_Suc)
  have buf: "?buf = pre @ ?f @ CHR '':'' # n @ CHR '';'' # r"
    by (simp add: dir_entry_def)
  have 1: "readdir_loop fl ?buf [length pre..<?p] s = Inr s"
    unfolding buf by (rule readdir_loop_plain) (simp_all add: filename_chars)
  have 2: "readdir_loop fl ?buf [?p] s = Inr (s\<lparr>ds_delim := Some ?p, ds_inum := ?f\<rparr>)"
    unfolding buf using assms(5) by (simp add: readdir_char_def nth_append)
  have 3: "readdir_loop fl ?buf [Suc ?p..<?q] s' = Inr s'" for s'
    using readdir_loop_plain [OF assms(2,3), of fl "pre @ ?f @ '':''" "CHR '';'' # r" s'] by (simp add: buf)
  have 4: "readdir_loop fl ?buf [?q] (s\<lparr>ds_delim := Some ?p, ds_inum := ?f\<rparr>) =
    Inr \<lparr>ds_start = Suc ?q, ds_delim = Some ?p, ds_inum = ?f, ds_b = ds_b s @ dirents fl (length (ds_b s)) [(i, n)]\<rparr>"
    unfolding buf using dirbuf_add_ok [OF assms(1,4)] by (cases s) (simp add: readdir_char_def nth_append del: dirents.simps)
  have "length pre + Suc (length (dir_entry (i, n))) = Suc ?q"
    by (simp add: dir_entry_def)
  then show ?thesis
    by (simp only: upt readdir_loop_append 1 2 3 4 bindR.simps)
qed

lemma readdir_loop_render:
  assumes "lib_ok fl" "\<forall>e \<in> set es. name_ok (snd e) \<and> nul \<notin> set (snd e)" "ds_start s = length pre"
  shows "\<exists>s'. readdir_loop fl (pre @ render es) [length pre..<length pre + length (render es)] s = Inr s'
    \<and> ds_b s' = ds_b s @ dirents fl (length (ds_b s)) es"
  using assms(2,3)
proof (induction es arbitrary: pre s)
  case (Cons e es)
  obtain i n where e: "e = (i, n)"
    by (cases e)
  let ?x = "dir_entry (i, n)"
  let ?k = "length pre + Suc (length ?x)"
  let ?s = "\<lparr>ds_start = ?k, ds_delim = Some (length pre + length (filename i)), ds_inum = filename i,
    ds_b = ds_b s @ dirents fl (length (ds_b s)) [(i, n)]\<rparr>"
  have "readdir_loop fl (pre @ ?x @ CHR '';'' # render es) [length pre..<?k] s = Inr ?s"
    using Cons.prems assms(1) by (intro readdir_loop_entry) (auto simp: e name_ok_def)
  moreover have "\<exists>s'. readdir_loop fl ((pre @ ?x @ '';'') @ render es) [?k..<?k + length (render es)] ?s = Inr s'
      \<and> ds_b s' = ds_b ?s @ dirents fl (length (ds_b ?s)) es"
    using Cons.IH [of ?s "pre @ ?x @ '';''"] Cons.prems(1) by simp
  moreover have "[length pre..<length pre + length (render (e # es))] = [length pre..<?k] @ [?k..<?k + length (render es)]"
    using upt_add_eq_append [of "length pre" ?k "length (render es)"] by (simp add: e add.assoc del: upt_Suc)
  ultimately show ?case
    using assms(1) dirents_append [OF assms(1), of "length (ds_b s)" "[(i, n)]" es]
    by (auto simp: e readdir_loop_append simp del: upt_Suc)
qed simp

text \<open>
  C14: The listing of a directory is complete and can be read in pieces: \<^verbatim>\<open>readdir\<close> answers with the bytes from the offset that was asked
  for, at most as many as were asked for, of the listing of exactly the entries of the directory in their order; and where the listing of the
  first entries ends, which is the offset that the last of them carries, the listing of the others starts.
\<close>

theorem fuse_readdir_lists:
  assumes "lib_ok fl" "y_held y = []" "isdir d" "y_content y d = Some (render es)"
    and names: "\<forall>e \<in> set es. name_ok (snd e) \<and> nul \<notin> set (snd e)"
  shows "\<exists>y'. fuseserver_readdir fl tm d sz off y = Inr (Reply_buf (take (unat sz) (drop (unat off) (dirents fl 0 es))), y')
    \<and> y_content y' = y_content y
    \<and> (\<forall>us vs. es = us @ vs \<longrightarrow>
        drop (length (dirents fl 0 us)) (dirents fl 0 es) = dirents fl (length (dirents fl 0 us)) vs)"
proof -
  obtain w where "y_get (tm 0) d (y\<lparr>y_held := [d]\<rparr>) = Inr (render es, y\<lparr>y_held := [d], y_ext := w\<rparr>)"
      "ext_content w = y_content y"
    using y_get_content [of "y\<lparr>y_held := [d]\<rparr>" d "render es" "tm 0"] assms(4) by auto
  then have "yfs_readdir (tm 0) d y = Inr (render es, y\<lparr>y_ext := w\<rparr>)" "ext_content w = y_content y"
    using assms(2) by (simp_all add: yfs_readdir_def y_release_def)
  moreover obtain s' where "readdir_loop fl (render es) [0..<length (render es)]
      \<lparr>ds_start = 0, ds_delim = None, ds_inum = [], ds_b = []\<rparr> = Inr s'" "ds_b s' = dirents fl 0 es"
    using readdir_loop_render [OF assms(1) names, of "\<lparr>ds_start = 0, ds_delim = None, ds_inum = [], ds_b = []\<rparr>" "[]"] by auto
  moreover have "drop (length (dirents fl 0 us)) (dirents fl 0 (us @ vs)) = dirents fl (length (dirents fl 0 us)) vs" for us vs
    using dirents_append [OF assms(1), of 0 us vs] by simp
  ultimately show ?thesis
    using assms(3) by (auto simp: fuseserver_readdir_def reply_buf_limited_def min_def)
qed

section \<open>File contents\<close>

lemma fuse_getattr_content:
  assumes "ext_ok (y_ext y)" "y_content y i = Some buf" "y_held y = []"
  obtains st where "fuseserver_getattr i y = Inr (Reply_attr st, y)" "attr_of i buf st"
proof -
  obtain st where "getattr i y = Inr (yfs_OK, st, y)" "attr_of i buf st"
    using getattr_content [OF assms] .
  then show thesis
    using that by (simp add: fuseserver_getattr_def)
qed

lemma length_posix_write: "length (posix_write data off buf) = max (length buf) (off + length data)"
  by (simp add: posix_write_def)

text \<open>
  C15: What one process writes the next one reads: after a \<^verbatim>\<open>write\<close> of data without NUL bytes at any offset of a file, a \<^verbatim>\<open>read\<close> at the
  offset answers with the data, and \<^verbatim>\<open>getattr\<close> with a size that covers the old content and the data (reduced to 32 bits); no other
  file or directory changes.
\<close>

theorem fuse_write_read:
  assumes ok: "ext_ok (y_ext y)" "y_held y = []" and i: "isfile i" "y_content y i = Some buf"
    and data: "nul \<notin> set data" "nul \<in> set tail" "unat sz = length data" "unat off + length data < 2 ^ 64"
  shows "\<exists>y1. fuseserver_write tm i (data @ tail) sz off y = Inr (Reply_write sz, y1)
    \<and> (\<exists>y2. fuseserver_read tm' i sz off y1 = Inr (Reply_buf data, y2))
    \<and> (\<exists>st. fuseserver_getattr i y1 = Inr (Reply_attr st, y1)
        \<and> unat (st_size st) = max (length buf) (unat off + length data) mod 2 ^ 32)
    \<and> (\<forall>j. j \<noteq> i \<longrightarrow> y_content y1 j = y_content y j)"
proof -
  let ?new = "posix_write data (unat off) buf"
  obtain w where w: "yfs_write tm i (data @ tail) sz off y = Inr (y\<lparr>y_ext := w\<rparr>)"
    "ext_content w = (y_content y)(i \<mapsto> ?new)"
  proof -
    have "i \<notin> set (y_held y)" "nul \<in> set (data @ tail)"
      using ok(2) data(2) by simp_all
    from yfs_write_content [OF i(2) this data(3,4), of tm, unfolded nul_cut_id [OF data(1)]] show thesis
      using that by blast
  qed
  let ?y = "y\<lparr>y_ext := w\<rparr>"
  have k: "ext_ok (y_ext ?y)" "y_held ?y = []" "y_content ?y i = Some ?new"
    using yfs_write_keeps [OF w(1)] ok w(2) by (simp_all add: y_keeps_def)
  have h: "i \<notin> set (y_held ?y)"
    using ok(2) by simp
  obtain w' where w': "get_file (tm' 0) i ?y = Inr (?new, ?y\<lparr>y_ext := w'\<rparr>)"
    using get_file_content [OF k(3) h, of "tm' 0"] by blast
  have "read_at off sz ?new = data"
    using read_posix_write [of data "unat off" buf] data(3) by (cases "data = []") (auto simp: read_at_def)
  then have "fuseserver_read tm' i sz off ?y = Inr (Reply_buf data, ?y\<lparr>y_ext := w'\<rparr>)"
    using w' by (simp add: fuseserver_read_def yfs_read_def)
  moreover obtain st where "fuseserver_getattr i ?y = Inr (Reply_attr st, ?y)" "attr_of i ?new st"
    using fuse_getattr_content [OF k(1,3,2)] .
  moreover have "fuseserver_write tm i (data @ tail) sz off y = Inr (Reply_write sz, ?y)"
    using w(1) by (simp add: fuseserver_write_def)
  ultimately show ?thesis
    using i(1) w(2) by (auto simp: attr_of_def length_posix_write)
qed

lemma set_size_eq: "set_size sz buf = take (unat sz) buf @ replicate (unat sz - length buf) nul"
  by (simp add: set_size_def)

lemma yfs_setattr_content:
  assumes "y_content y i = Some buf" "y_held y = []"
  obtains w where "yfs_setattr tm i sz y = Inr (ext_OK, y\<lparr>y_ext := w\<rparr>)" "ext_content w = (y_content y)(i \<mapsto> set_size sz buf)"
proof -
  obtain w1 where w1: "get_file (tm 0) i y = Inr (buf, y\<lparr>y_ext := w1\<rparr>)" "ext_content w1 = y_content y"
    using get_file_content [OF assms(1), of "tm 0"] assms(2) by auto
  obtain w2 where "y_put (tm 1) i (set_size sz buf) (y\<lparr>y_ext := w1, y_held := [i]\<rparr>) = (ext_OK, y\<lparr>y_ext := w1, y_held := [i]\<rparr>\<lparr>y_ext := w2\<rparr>)"
      "ext_content w2 = (ext_content w1)(i \<mapsto> set_size sz buf)"
    using y_put_content [of "tm 1" i "set_size sz buf" "y\<lparr>y_ext := w1, y_held := [i]\<rparr>"] by auto
  then show thesis
    using that [of w2] w1 assms(2) by (cases y) (simp add: yfs_setattr_def setattr_put_def y_release_def)
qed

text \<open>
  C40: A request for a new size of a file works on the low 32 bits of the size: the file is cut or filled with zeros to that length, and the
  attributes in the answer say so; so a file that is to become larger than 4 GB is cut instead. Requests to set anything else are refused.
\<close>

theorem fuse_setattr_size:
  assumes ok: "ext_ok (y_ext y)" "y_held y = []" and i: "isfile i" "y_content y i = Some buf"
    and n_def: "n = unat size_attr mod 2 ^ 32"
  shows "\<exists>rep y'. fuseserver_setattr fl tm i size_attr to_set y = Inr (rep, y') \<and>
    (if fl_set_attr_size fl AND to_set \<noteq> 0
     then y_content y' = (y_content y)(i \<mapsto> take n buf @ replicate (n - length buf) nul)
       \<and> (\<exists>st. rep = Reply_attr st \<and> unat (st_size st) = n)
     else y' = y \<and> rep = Reply_err ENOSYS)"
proof (cases "fl_set_attr_size fl AND to_set = 0")
  case True
  then show ?thesis
    by (simp add: fuseserver_setattr_def)
next
  case False
  have n: "unat (ucast size_attr :: u32) = n"
    by (simp add: n_def unsigned_ucast_eq take_bit_eq_mod)
  obtain w where w: "yfs_setattr tm i (ucast size_attr) y = Inr (ext_OK, y\<lparr>y_ext := w\<rparr>)"
      "ext_content w = (y_content y)(i \<mapsto> take n buf @ replicate (n - length buf) nul)"
    using yfs_setattr_content [OF i(2) ok(2), of tm "ucast size_attr"] by (auto simp: set_size_eq n)
  let ?y = "y\<lparr>y_ext := w\<rparr>"
  have k: "ext_ok (y_ext ?y)" "y_held ?y = []" "y_content ?y i = Some (take n buf @ replicate (n - length buf) nul)"
    using yfs_setattr_keeps [OF w(1)] ok w(2) by (simp_all add: y_keeps_def)
  obtain st where st: "getattr i ?y = Inr (yfs_OK, st, ?y)" "attr_of i (take n buf @ replicate (n - length buf) nul) st"
    using getattr_content [OF k(1,3,2)] .
  have "n < 2 ^ 32"
    by (simp add: n_def)
  then have "unat (st_size st) = n"
    using st(2) i(1) by (simp add: attr_of_def)
  then show ?thesis
    using False w st(1) by (simp add: fuseserver_setattr_def ext_OK_def yfs_OK_def)
qed

section \<open>Removal\<close>

text \<open>
  A name that was unlinked is gone: \<^verbatim>\<open>unlink\<close> answers 0, a \<^verbatim>\<open>lookup\<close> of the name answers \<^verbatim>\<open>ENOENT\<close>, and the contents of everything but the
  parent directory stay. This holds as well when the name is that of a directory, whatever is in it, although
  directories are not to be unlinked. It rests on the digits of the number not occurring in an earlier entry, and on no later name ending with the name.
\<close>

theorem fuse_unlink_gone:
  assumes held: "y_held y = []" and ok: "dir_ok (us @ (i, name) # vs)"
    and dir: "y_content y d = Some (render (us @ (i, name) # vs))" "i \<noteq> d"
    and digits: "\<forall>e \<in> set us. \<not> sublist (filename i) (dir_entry e)" and later: "\<forall>e \<in> set vs. \<not> suffix name (snd e)"
  shows "\<exists>y1 y2. fuseserver_unlink tm d name y = Inr (Reply_err 0, y1)
    \<and> fuseserver_lookup tm' d name y1 = Inr (Reply_err ENOENT, y2)
    \<and> y_content y2 = (y_content y)(d \<mapsto> render (us @ vs))"
proof -
  have "d \<notin> set (y_held y)" "i \<notin> set (d # y_held y)"
    using held dir(2) by simp_all
  from yfs_unlink_content [OF ok dir(1) this digits, of tm] obtain y1 where y1: "yfs_unlink tm d name y = Inr (yfs_OK, y1)"
      "y_held y1 = []" "y_content y1 = (y_content y)(d \<mapsto> render (us @ vs))"
    using held by auto
  have "\<not> suffix name (snd e)" if "e \<in> set us" for e
    using dir_ok_split(3) [OF ok that] not_sublist_entry(1) by blast
  then have "\<forall>e \<in> set (us @ vs). \<not> suffix name (snd e)"
    using later by auto
  then obtain y2 where "fuseserver_lookup tm' d name y1 = Inr (Reply_err ENOENT, y2)" "y_content y2 = y_content y1"
    using fuse_lookup_absent [OF y1(2) _ dir_ok_split(2) [OF ok] dir_ok_split(1) [OF ok], of d tm'] y1(3) by auto
  then show ?thesis
    using y1 by (simp add: fuseserver_unlink_def)
qed

section \<open>Examples\<close>

definition ex_lib :: fuse_lib where
  "ex_lib = \<lparr>fl_dirent_size = (\<lambda>n. n + 16), fl_add_dirent = (\<lambda>n i off. n @ replicate 16 nul), fl_set_attr_size = 8\<rparr>"

definition ex_fs :: yfs where
  "ex_fs = \<lparr>y_ext = ([0x80000005 \<mapsto> \<lparr>c_content = ''hello'',
      c_attr = \<lparr>a_atime = 0, a_mtime = 0, a_ctime = 0, a_size = 5\<rparr>, c_is_dirty = True, c_is_removed = False\<rparr>],
      Map.empty), y_held = []\<rparr>"

lemma ex_fs_ok: "ext_ok (y_ext ex_fs)" "y_held ex_fs = []" "isfile 0x80000005" "y_content ex_fs 0x80000005 = Some ''hello''"
  by (simp_all add: ex_fs_def ext_ok_def ext_content_def isfile_def)

lemma ex_yfs_ok: "ext_ok (y_ext ex_yfs)"
proof -
  have "length (render [(7, ''bar''), (12, ''xfoo'')]) = 14"
    using ex_dir(4,5) by simp
  then show ?thesis
    by (simp add: ex_yfs_def ext_ok_def del: render_simps)
qed

theorem fuse_session_locks_witness:
  "\<exists>y. fuse_session ex_lib y \<and> y_content y 1 = Some [] \<and> y_held y = [] \<and> ext_ok (y_ext y)"
proof -
  obtain w where w: "fuse_main [''yfs'', ''/mnt'', ''1'', ''2''] ex_times (Map.empty, Map.empty) = Some (Inr \<lparr>y_ext = w, y_held = []\<rparr>)"
      "ext_content w 1 = Some []"
    by (simp add: fuse_main_def yfs_client_new_def y_put_def y_release_def ec_put_def ext_content_def)
  moreover have "ext_ok (Map.empty, Map.empty)"
    by (simp add: ext_ok_def)
  ultimately have "fuse_session ex_lib \<lparr>y_ext = w, y_held = []\<rparr>"
    by (intro fuse_session.mounted)
  then show ?thesis
    using fuse_session_locks w(2) by (metis yfs.select_convs(1))
qed

theorem fuse_create_lookup_witness:
  "\<exists>st y1 st' y2. fuseserver_create (\<lambda>_. ex_times) 5 1 ''q'' ex_yfs = Inr (Reply_create (entry_of 0x80000005 st), y1)
     \<and> fuseserver_lookup (\<lambda>_. ex_times) 1 ''q'' y1 = Inr (Reply_entry (entry_of 0x80000005 st'), y2)"
proof -
  have new: "generate_file_inum 5 = 0x80000005"
    by (simp add: generate_file_inum_def generate_inum_def)
  have "name_ok ''q''" "\<forall>e \<in> set [(7, ''bar''), (12, ''xfoo'')]. \<not> sublist ''q'' (dir_entry e)" "generate_file_inum 5 \<noteq> 1"
    by (simp_all add: name_ok_def new ex_dir(4,5) sublist_Cons_right)
  from fuse_create_lookup [OF ex_yfs_ok ex_dir(3,2,1) this, of "\<lambda>_. ex_times" "\<lambda>_. ex_times"] show ?thesis
    unfolding new by blast
qed

theorem fuse_readdir_lists_witness:
  "\<exists>y'. fuseserver_readdir ex_lib (\<lambda>_. ex_times) 1 100 19 ex_yfs = Inr (Reply_buf (''xfoo'' @ replicate 16 nul), y')"
proof -
  have "lib_ok ex_lib" "isdir 1" "\<forall>e \<in> set [(7 :: inum, ''bar''), (12, ''xfoo'')]. name_ok (snd e) \<and> nul \<notin> set (snd e)"
    by (simp_all add: lib_ok_def ex_lib_def isdir_def isfile_def name_ok_def nul_def)
  from fuse_readdir_lists [OF this(1) ex_dir(3) this(2) ex_dir(2) this(3), of "\<lambda>_. ex_times" 100 19] show ?thesis
    by (auto simp: ex_lib_def)
qed

theorem fuse_write_read_witness:
  "\<exists>y1 y2. fuseserver_write (\<lambda>_. ex_times) 0x80000005 (''abc'' @ [nul]) 3 7 ex_fs = Inr (Reply_write 3, y1)
     \<and> fuseserver_read (\<lambda>_. ex_times) 0x80000005 3 7 y1 = Inr (Reply_buf ''abc'', y2)"
  using fuse_write_read [OF ex_fs_ok, of "''abc''" "[nul]" 3 7 "\<lambda>_. ex_times" "\<lambda>_. ex_times"] by (auto simp: nul_def)

theorem fuse_setattr_size_witness:
  "\<exists>st y'. fuseserver_setattr ex_lib (\<lambda>_. ex_times) 0x80000005 0x100000002 8 ex_fs = Inr (Reply_attr st, y')
     \<and> unat (st_size st) = 2 \<and> y_content y' 0x80000005 = Some ''he''"
proof -
  have "2 = unat (0x100000002 :: u64) mod 2 ^ 32"
    by simp
  note set = fuse_setattr_size [OF ex_fs_ok this, of ex_lib "\<lambda>_. ex_times" 8]
  have "fl_set_attr_size ex_lib AND 8 \<noteq> 0" "take 2 ''hello'' = ''he''"
    by (simp_all add: ex_lib_def)
  with set show ?thesis
    by auto
qed

theorem fuse_unlink_gone_witness:
  "\<exists>y1 y2. fuseserver_unlink (\<lambda>_. ex_times) 1 ''bar'' ex_yfs = Inr (Reply_err 0, y1)
     \<and> fuseserver_lookup (\<lambda>_. ex_times) 1 ''bar'' y1 = Inr (Reply_err ENOENT, y2) \<and> isdir 7"
proof -
  have "\<forall>e \<in> set [(12 :: inum, ''xfoo'')]. \<not> suffix ''bar'' (snd e)"
    by (simp add: suffix_Cons)
  then show ?thesis
    using fuse_unlink_gone [of ex_yfs "[]" 7 "''bar''" "[(12, ''xfoo'')]" 1 "\<lambda>_. ex_times" "\<lambda>_. ex_times"] ex_dir(1,2,3)
    by (auto simp: isdir_def isfile_def)
qed

end
