(* ===== verification/Paxos_Log.thy ===== *)
theory Paxos_Log
  imports Text_Stream Marshall "HOL-Library.Char_ord" "HOL-Library.List_Lexorder"
begin

text \<open>
  The durable state of a Paxos acceptor (\<^verbatim>\<open>log.cc\<close>): records are appended to a text file and read
  back when the acceptor starts. The file is part of the acceptor's state here. The main result
  is that reading the log gives back what was logged; proposal numbers (\<^verbatim>\<open>prop_t\<close>) with their order
  are defined here as well.
\<close>

section \<open>Proposal numbers\<close>

datatype prop_t = Prop (p_n: u32) (p_m: string)

definition prop_gt :: "prop_t \<Rightarrow> prop_t \<Rightarrow> bool" where
  "prop_gt a b \<longleftrightarrow> p_n a > p_n b \<or> p_n a = p_n b \<and> p_m a > p_m b"

definition prop_ge :: "prop_t \<Rightarrow> prop_t \<Rightarrow> bool" where
  "prop_ge a b \<longleftrightarrow> p_n a > p_n b \<or> p_n a = p_n b \<and> p_m a \<ge> p_m b"

text \<open>The two comparisons of the program make proposal numbers a linear order.\<close>

instantiation prop_t :: linorder
begin

definition less_prop_t :: "prop_t \<Rightarrow> prop_t \<Rightarrow> bool" where
  "less_prop_t a b \<longleftrightarrow> prop_gt b a"

definition less_eq_prop_t :: "prop_t \<Rightarrow> prop_t \<Rightarrow> bool" where
  "less_eq_prop_t a b \<longleftrightarrow> prop_ge b a"

instance
  by intro_classes (auto simp: less_prop_t_def less_eq_prop_t_def prop_gt_def prop_ge_def prop_t.expand)

end

section \<open>The acceptor's state and its log\<close>

record acceptor =
  ac_me :: string
  n_h :: prop_t
  n_a :: prop_t
  v_a :: string
  instance_h :: u32
  ac_values :: "u32 \<rightharpoonup> string"
  ac_log :: string

definition loginstance :: "u32 \<Rightarrow> string \<Rightarrow> acceptor \<Rightarrow> acceptor" where
  "loginstance i v a = a\<lparr>ac_log := ac_log a @ ''done'' @ '' '' @ decimal (unat i) @ '' '' @ v @ [newline]\<rparr>"

definition logprop :: "prop_t \<Rightarrow> acceptor \<Rightarrow> acceptor" where
  "logprop n a = a\<lparr>ac_log := ac_log a @ ''propseen'' @ '' '' @ decimal (unat (p_n n)) @ '' '' @ p_m n @ [newline]\<rparr>"

definition logaccept :: "prop_t \<Rightarrow> string \<Rightarrow> acceptor \<Rightarrow> acceptor" where
  "logaccept n v a =
     a\<lparr>ac_log := ac_log a @ ''accepted'' @ '' '' @ decimal (unat (p_n n)) @ '' '' @ p_m n @ '' '' @ v @ [newline]\<rparr>"

definition read_done :: "acceptor \<Rightarrow> string \<Rightarrow> acceptor \<times> string" where
  "read_done a s =
     (let (i, s) = read_uint s; (v, s) = get_line (drop 1 s) in
      (a\<lparr>ac_values := (ac_values a)(i \<mapsto> v), instance_h := i, v_a := [],
         n_h := Prop 0 (p_m (n_h a)), n_a := Prop 0 (p_m (n_a a))\<rparr>, s))"

definition read_prop :: "prop_t \<Rightarrow> string \<Rightarrow> prop_t \<times> string" where
  "read_prop p s =
     (let (n, s) = read_uint s; (m, s) = read_word s in
      (Prop n (case m of None \<Rightarrow> p_m p | Some m \<Rightarrow> m), s))"

definition read_propseen :: "acceptor \<Rightarrow> string \<Rightarrow> acceptor \<times> string" where
  "read_propseen a s = (let (p, s) = read_prop (n_h a) s in (a\<lparr>n_h := p\<rparr>, s))"

definition read_accepted :: "acceptor \<Rightarrow> string \<Rightarrow> acceptor \<times> string" where
  "read_accepted a s =
     (let (p, s) = read_prop (n_a a) s; (v, s) = get_line (drop 1 s) in (a\<lparr>n_a := p, v_a := v\<rparr>, s))"

text \<open>One round of the loop of \<^verbatim>\<open>logread\<close>; \<open>None\<close> is its end.\<close>

definition read_record :: "acceptor \<Rightarrow> string \<Rightarrow> (acceptor \<times> string) option res" where
  "read_record a s =
     (case read_word s of
        (None, s) \<Rightarrow> Inr None
      | (Some type, s) \<Rightarrow>
          if type = ''done'' then Inr (Some (read_done a s))
          else if type = ''propseen'' then Inr (Some (read_propseen a s))
          else if type = ''accepted'' then Inr (Some (read_accepted a s))
          else Inl VerifyFailed)"

lemma read_prop_length: "read_prop p s = (q, s') \<Longrightarrow> length s' \<le> length s"
  by (auto simp: read_prop_def split: prod.splits dest!: read_uint_length read_word_length(1))

lemma read_record_length:
  assumes "read_record a s = Inr (Some (a', s'))"
  shows "length s' < length s"
proof -
  obtain t u where w: "read_word s = (Some t, u)"
    using assms by (auto simp: read_record_def split: prod.splits option.splits)
  have "length s' \<le> length u"
    using assms w
    by (auto simp: read_record_def read_done_def read_propseen_def read_accepted_def
        split: prod.splits if_splits dest!: read_uint_length get_line_length read_prop_length)
  then show ?thesis
    using read_word_length(2) [OF w] by simp
qed

function logread_from :: "acceptor \<Rightarrow> string \<Rightarrow> acceptor res" where
  "logread_from a s =
     (case read_record a s of
        Inl e \<Rightarrow> Inl e
      | Inr None \<Rightarrow> Inr a
      | Inr (Some (a', s')) \<Rightarrow> logread_from a' s')"
  by auto
termination
  by (relation "measure (\<lambda>(a, s). length s)") (auto dest: read_record_length)

declare logread_from.simps [simp del]

definition logread :: "acceptor \<Rightarrow> acceptor res" where
  "logread a = logread_from a (ac_log a)"

text \<open>\<^verbatim>\<open>dump\<close> copies the file line by line, so a missing last newline is added.\<close>

definition log_dump :: "acceptor \<Rightarrow> string" where
  "log_dump a = (if ac_log a = [] \<or> last (ac_log a) = newline then ac_log a else ac_log a @ [newline])"

definition log_restore :: "string \<Rightarrow> acceptor \<Rightarrow> acceptor" where
  "log_restore s a = a\<lparr>ac_log := s\<rparr>"

section \<open>Reading back what was logged\<close>

datatype log_ev = LDone u32 string | LProp prop_t | LAccept prop_t string

fun log_event :: "log_ev \<Rightarrow> acceptor \<Rightarrow> acceptor" where
  "log_event (LDone i v) a = loginstance i v a"
| "log_event (LProp n) a = logprop n a"
| "log_event (LAccept n v) a = logaccept n v a"

text \<open>What a record means for the state of the acceptor.\<close>

fun replay :: "log_ev \<Rightarrow> acceptor \<Rightarrow> acceptor" where
  "replay (LDone i v) a = a\<lparr>ac_values := (ac_values a)(i \<mapsto> v), instance_h := i, v_a := [],
     n_h := Prop 0 (p_m (n_h a)), n_a := Prop 0 (p_m (n_a a))\<rparr>"
| "replay (LProp n) a = a\<lparr>n_h := n\<rparr>"
| "replay (LAccept n v) a = a\<lparr>n_a := n, v_a := v\<rparr>"

fun ev_ok :: "log_ev \<Rightarrow> bool" where
  "ev_ok (LDone i v) \<longleftrightarrow> newline \<notin> set v"
| "ev_ok (LProp n) \<longleftrightarrow> word_ok (p_m n)"
| "ev_ok (LAccept n v) \<longleftrightarrow> word_ok (p_m n) \<and> newline \<notin> set v"

fun ev_text :: "log_ev \<Rightarrow> string" where
  "ev_text (LDone i v) = ''done '' @ decimal (unat i) @ CHR '' '' # v @ [newline]"
| "ev_text (LProp n) = ''propseen '' @ decimal (unat (p_n n)) @ CHR '' '' # p_m n @ [newline]"
| "ev_text (LAccept n v) = ''accepted '' @ decimal (unat (p_n n)) @ CHR '' '' # p_m n @ CHR '' '' # v @ [newline]"

lemma log_event_text: "log_event e a = a\<lparr>ac_log := ac_log a @ ev_text e\<rparr>"
  by (cases e) (simp_all add: loginstance_def logprop_def logaccept_def)

lemma fold_log_event: "ac_log (fold log_event es a) = ac_log a @ concat (map ev_text es)"
  by (induction es arbitrary: a) (simp_all add: log_event_text)

lemma unat_u32_less: "unat (i :: u32) < 2 ^ 32"
  using unsigned_less [of i, where ?'a = nat] by simp

lemma read_word_skip: "list_all is_space ws \<Longrightarrow> read_word (ws @ s) = read_word s"
  by (induction ws) (auto simp: read_word_def)

lemma read_prop_text:
  assumes "word_ok m" "is_space c"
  shows "read_prop p (CHR '' '' # decimal (unat n) @ CHR '' '' # m @ c # rest) = (Prop n m, c # rest)"
  using assms by (simp add: read_prop_def read_uint_decimal [OF unat_u32_less] read_word_word)

lemma read_record_event:
  assumes "ev_ok e" "list_all is_space ws"
  shows "\<exists>ws'. list_all is_space ws' \<and>
    read_record a (ws @ ev_text e @ rest) = Inr (Some (replay e a, ws' @ rest))"
proof -
  have kinds: "word_ok ''done''" "word_ok ''propseen''" "word_ok ''accepted''"
    by (simp_all add: word_ok_def is_space_def)
  note w = kinds [THEN read_word_word(1), of "CHR '' ''", simplified]
  show ?thesis
  proof (cases e)
    case (LDone i v)
    then show ?thesis
      using assms w(1)
      by (intro exI [of _ "[]"])
        (simp add: read_word_skip read_record_def read_done_def read_uint_decimal [OF unat_u32_less] get_line_line)
  next
    case (LProp n)
    then show ?thesis
      using assms w(2)
      by (intro exI [of _ "[newline]"])
        (simp add: read_word_skip read_record_def read_propseen_def read_prop_text)
  next
    case (LAccept n v)
    then show ?thesis
      using assms w(3)
      by (intro exI [of _ "[]"])
        (simp add: read_word_skip read_record_def read_accepted_def read_prop_text get_line_line)
  qed
qed

lemma logread_events:
  assumes "list_all ev_ok es" "list_all is_space ws"
  shows "logread_from a (ws @ concat (map ev_text es)) = Inr (fold replay es a)"
  using assms
proof (induction es arbitrary: a ws)
  case Nil
  have "read_word (ws @ []) = (None, [])"
    using Nil.prems(2) by (simp only: read_word_skip) (simp add: read_word_def)
  then show ?case
    by (subst logread_from.simps) (simp add: read_record_def)
next
  case (Cons e es)
  then obtain ws' where "list_all is_space ws'"
      "read_record a (ws @ ev_text e @ concat (map ev_text es)) = Inr (Some (replay e a, ws' @ concat (map ev_text es)))"
    using read_record_event [of e ws a "concat (map ev_text es)"] by auto
  then show ?case
    using Cons by (subst logread_from.simps) simp
qed

text \<open>
  C38: The log keeps the durable state of an acceptor: after any sequence of calls that log decided
  instances, proposals seen and proposals accepted, reading the file back gives the state that
  the recorded events stand for, in order. Values may contain anything but newlines, node names
  anything but white space.
\<close>

theorem log_roundtrip:
  assumes "list_all ev_ok es" and "ac_log a = []"
  shows "logread_from b (ac_log (fold log_event es a)) = Inr (fold replay es b)"
  using logread_events [OF assms(1), of "[]"] by (simp add: fold_log_event assms(2))

definition ex_acceptor :: acceptor where
  "ex_acceptor = \<lparr>ac_me = ''n1'', n_h = Prop 0 ''n1'', n_a = Prop 0 ''n1'', v_a = [], instance_h = 0,
     ac_values = Map.empty, ac_log = []\<rparr>"

theorem log_roundtrip_witness:
  "logread_from ex_acceptor (ac_log (fold log_event [LProp (Prop 3 ''n2''), LAccept (Prop 3 ''n2'') ''n1 n2'', LDone 1 ''n1 n2''] ex_acceptor))
   = Inr (fold replay [LProp (Prop 3 ''n2''), LAccept (Prop 3 ''n2'') ''n1 n2'', LDone 1 ''n1 n2''] ex_acceptor)"
  by (rule log_roundtrip) (simp_all add: ex_acceptor_def word_ok_def is_space_def newline_def)

text \<open>
  The log is not written atomically: when the node stops while the word \<^verbatim>\<open>done\<close> of a record is being
  written, the next start finds an unknown record and aborts, whatever was logged before.
\<close>

theorem log_torn_record:
  assumes "list_all ev_ok es" "0 < k" "k < 4"
  shows "logread_from a (concat (map ev_text es) @ take k (ev_text (LDone i v))) = Inl VerifyFailed"
proof -
  have "logread_from a (ws @ take k ''done'') = Inl VerifyFailed" if "list_all is_space ws" for a ws
  proof -
    have "take k ''done'' \<in> {''d'', ''do'', ''don''}"
      using assms(2,3) by (auto simp: take_Cons' numeral_eq_Suc less_Suc_eq)
    then have "read_word (take k ''done'') = (Some (take k ''done''), [])" "take k ''done'' \<noteq> ''done''"
        "take k ''done'' \<noteq> ''propseen''" "take k ''done'' \<noteq> ''accepted''"
      by (auto simp: read_word_def is_space_def)
    then show ?thesis
      using that by (subst logread_from.simps) (simp add: read_record_def read_word_skip)
  qed
  then have torn: "logread_from a (ws @ concat (map ev_text es) @ take k ''done'') = Inl VerifyFailed"
    if "list_all is_space ws" for a ws
    using assms(1) that
  proof (induction es arbitrary: a ws)
    case (Cons e es)
    then obtain ws' where "list_all is_space ws'"
        "read_record a (ws @ ev_text e @ concat (map ev_text es) @ take k ''done'')
          = Inr (Some (replay e a, ws' @ concat (map ev_text es) @ take k ''done''))"
      using read_record_event [of e ws a "concat (map ev_text es) @ take k ''done''"] by auto
    then show ?case
      using Cons by (subst logread_from.simps) simp
  qed simp
  have "take k (ev_text (LDone i v)) = take k ''done''"
    using assms(3) by (simp add: take_Cons')
  then show ?thesis
    using torn [of "[]"] by simp
qed

theorem log_torn_record_witness:
  "logread_from ex_acceptor (concat (map ev_text [LDone 1 ''n1'']) @ take 2 (ev_text (LDone 2 ''n1 n2''))) = Inl VerifyFailed"
  by (rule log_torn_record) (simp_all add: newline_def)

end
