(* ===== verification/Paxos.thy ===== *)
theory Paxos
  imports Paxos_Log
begin

text \<open>
  The Paxos module (\<^verbatim>\<open>paxos.cc\<close>, \<^verbatim>\<open>paxos_protocol.h\<close>): the messages and their wire format, the acceptor
  with its durable log, majorities, and the proposer. The bodies of \<^verbatim>\<open>prepare\<close>, \<^verbatim>\<open>accept\<close>,
  \<^verbatim>\<open>decide\<close>, \<^verbatim>\<open>preparereq\<close> and \<^verbatim>\<open>acceptreq\<close> are not written in the program; they are modelled as they
  stand. \<open>run\<close> takes the three phases as arguments, and \<open>proposer_run\<close> is \<open>run\<close> with the program's.
\<close>

section \<open>Messages\<close>

definition px_OK :: i32 where "px_OK = 0"
definition px_ERR :: i32 where "px_ERR = 1"

definition px_preparereq :: u32 where "px_preparereq = 0x11001"
definition px_acceptreq :: u32 where "px_acceptreq = px_preparereq + 1"
definition px_decidereq :: u32 where "px_decidereq = px_preparereq + 2"
definition px_heartbeat :: u32 where "px_heartbeat = px_preparereq + 3"

record preparearg =
  pa_instance :: u32
  pa_n :: prop_t

record prepareres =
  pr_oldinstance :: bool
  pr_accept :: bool
  pr_n_a :: prop_t
  pr_v_a :: string

record acceptarg =
  aa_instance :: u32
  aa_n :: prop_t
  aa_v :: string

record decidearg =
  da_instance :: u32
  da_v :: string

definition marshall_prop :: "prop_t \<Rightarrow> marshall \<Rightarrow> marshall res" where
  "marshall_prop a m = bindR (marshall_uint (p_n a) m) (marshall_string (p_m a))"

definition unmarshall_prop :: "unmarshall \<Rightarrow> (prop_t \<times> unmarshall) res" where
  "unmarshall_prop u =
     bindR (unmarshall_uint u) (\<lambda>(n, u). bindR (unmarshall_string [] u) (\<lambda>(m, u). Inr (Prop n m, u)))"

definition marshall_preparearg :: "preparearg \<Rightarrow> marshall \<Rightarrow> marshall res" where
  "marshall_preparearg a m = bindR (marshall_uint (pa_instance a) m) (marshall_prop (pa_n a))"

definition unmarshall_preparearg :: "unmarshall \<Rightarrow> (preparearg \<times> unmarshall) res" where
  "unmarshall_preparearg u =
     bindR (unmarshall_uint u) (\<lambda>(i, u). bindR (unmarshall_prop u) (\<lambda>(n, u).
       Inr (\<lparr>pa_instance = i, pa_n = n\<rparr>, u)))"

definition marshall_prepareres :: "prepareres \<Rightarrow> marshall \<Rightarrow> marshall res" where
  "marshall_prepareres r m =
     bindR (marshall_bool (pr_oldinstance r) m) (\<lambda>m. bindR (marshall_bool (pr_accept r) m) (\<lambda>m.
     bindR (marshall_prop (pr_n_a r) m) (marshall_string (pr_v_a r))))"

definition unmarshall_prepareres :: "unmarshall \<Rightarrow> (prepareres \<times> unmarshall) res" where
  "unmarshall_prepareres u =
     bindR (unmarshall_bool u) (\<lambda>(b1, u). bindR (unmarshall_bool u) (\<lambda>(b2, u).
     bindR (unmarshall_prop u) (\<lambda>(n, u). bindR (unmarshall_string [] u) (\<lambda>(v, u).
       Inr (\<lparr>pr_oldinstance = b1, pr_accept = b2, pr_n_a = n, pr_v_a = v\<rparr>, u)))))"

definition marshall_acceptarg :: "acceptarg \<Rightarrow> marshall \<Rightarrow> marshall res" where
  "marshall_acceptarg a m =
     bindR (marshall_uint (aa_instance a) m) (\<lambda>m. bindR (marshall_prop (aa_n a) m) (marshall_string (aa_v a)))"

definition unmarshall_acceptarg :: "unmarshall \<Rightarrow> (acceptarg \<times> unmarshall) res" where
  "unmarshall_acceptarg u =
     bindR (unmarshall_uint u) (\<lambda>(i, u). bindR (unmarshall_prop u) (\<lambda>(n, u).
     bindR (unmarshall_string [] u) (\<lambda>(v, u). Inr (\<lparr>aa_instance = i, aa_n = n, aa_v = v\<rparr>, u))))"

definition marshall_decidearg :: "decidearg \<Rightarrow> marshall \<Rightarrow> marshall res" where
  "marshall_decidearg a m = bindR (marshall_uint (da_instance a) m) (marshall_string (da_v a))"

definition unmarshall_decidearg :: "unmarshall \<Rightarrow> (decidearg \<times> unmarshall) res" where
  "unmarshall_decidearg u =
     bindR (unmarshall_uint u) (\<lambda>(i, u). bindR (unmarshall_string [] u) (\<lambda>(v, u).
       Inr (\<lparr>da_instance = i, da_v = v\<rparr>, u)))"

section \<open>Members and majorities\<close>

fun print_members :: "string list \<Rightarrow> string" where
  "print_members [] = []"
| "print_members [n] = n"
| "print_members (n # ns) = n @ '','' @ print_members ns"

definition isamember :: "string \<Rightarrow> string list \<Rightarrow> bool" where
  "isamember m nodes \<longleftrightarrow> m \<in> set nodes"

definition majority :: "string list \<Rightarrow> string list \<Rightarrow> bool" where
  "majority l1 l2 \<longleftrightarrow> length (filter (\<lambda>m. isamember m l2) l1) \<ge> length l1 div 2 + 1"

section \<open>The acceptor\<close>

definition acceptor_new :: "bool \<Rightarrow> string \<Rightarrow> string \<Rightarrow> string \<Rightarrow> acceptor res" where
  "acceptor_new first me v file =
     bindR (logread \<lparr>ac_me = me, n_h = Prop 0 me, n_a = Prop 0 me, v_a = [], instance_h = 0,
              ac_values = Map.empty, ac_log = file\<rparr>) (\<lambda>a.
       Inr (if instance_h a = 0 \<and> first
            then (loginstance 1 v (a\<lparr>ac_values := (ac_values a)(1 \<mapsto> v)\<rparr>))\<lparr>instance_h := 1\<rparr>
            else a))"

text \<open>\<open>r\<close> is the result as the caller's stack has it; the bodies set nothing.\<close>

text \<open>\<^verbatim>\<open>acceptor::value\<close>, whose \<^verbatim>\<open>values[instance]\<close> enters an empty value where there was none.\<close>

definition ac_value :: "u32 \<Rightarrow> acceptor \<Rightarrow> string \<times> acceptor" where
  "ac_value i a =
     (case ac_values a i of Some v \<Rightarrow> (v, a) | None \<Rightarrow> ([], a\<lparr>ac_values := (ac_values a)(i \<mapsto> [])\<rparr>))"

definition preparereq :: "preparearg \<Rightarrow> prepareres \<Rightarrow> acceptor \<Rightarrow> i32 \<times> prepareres \<times> acceptor" where
  "preparereq arg r a = (px_OK, r, a)"

definition acceptreq :: "acceptarg \<Rightarrow> bool \<Rightarrow> acceptor \<Rightarrow> i32 \<times> bool \<times> acceptor" where
  "acceptreq arg r a = (px_OK, r, a)"

text \<open>The second result is the instance and value for the upcall \<^verbatim>\<open>paxos_commit\<close>, if there is one.\<close>

definition commit_wo :: "u32 \<Rightarrow> string \<Rightarrow> acceptor \<Rightarrow> acceptor \<times> (u32 \<times> string) option" where
  "commit_wo i v a =
     (if i > instance_h a
      then ((loginstance i v (a\<lparr>ac_values := (ac_values a)(i \<mapsto> v)\<rparr>))
              \<lparr>instance_h := i, n_h := Prop 0 (ac_me a), n_a := Prop 0 (ac_me a), v_a := []\<rparr>, Some (i, v))
      else (a, None))"

definition ac_commit :: "u32 \<Rightarrow> string \<Rightarrow> acceptor \<Rightarrow> acceptor \<times> (u32 \<times> string) option" where
  "ac_commit i v a = commit_wo i v a"

definition decidereq :: "decidearg \<Rightarrow> acceptor \<Rightarrow> (i32 \<times> acceptor \<times> (u32 \<times> string) option) res" where
  "decidereq arg a =
     (if da_instance arg = instance_h a + 1
      then if v_a a = da_v arg then Inr (px_OK, commit_wo (da_instance arg) (v_a a) a) else Inl VerifyFailed
      else if da_instance arg \<le> instance_h a then Inr (px_OK, a, None)
      else Inl VerifyFailed)"

definition ac_dump :: "acceptor \<Rightarrow> string" where
  "ac_dump a = log_dump a"

definition ac_restore :: "string \<Rightarrow> acceptor \<Rightarrow> acceptor res" where
  "ac_restore s a = logread (log_restore s a)"

section \<open>The proposer\<close>

record proposer =
  pp_me :: string
  break1 :: bool
  break2 :: bool
  stable :: bool
  my_n :: prop_t

definition proposer_new :: "string \<Rightarrow> proposer" where
  "proposer_new me = \<lparr>pp_me = me, break1 = False, break2 = False, stable = True, my_n = Prop 0 me\<rparr>"

definition isrunning :: "proposer \<Rightarrow> bool" where
  "isrunning p \<longleftrightarrow> \<not> stable p"

definition setn :: "prop_t \<Rightarrow> proposer \<Rightarrow> proposer" where
  "setn nh p =
     p\<lparr>my_n := Prop (if p_n nh + 1 > p_n (my_n p) + 1 then p_n nh + 1 else p_n (my_n p) + 1) (p_m (my_n p))\<rparr>"

type_synonym 'w prepare_phase = "u32 \<Rightarrow> string list \<Rightarrow> prop_t \<Rightarrow> 'w \<Rightarrow> bool \<times> string list \<times> string \<times> 'w"
type_synonym 'w accept_phase = "u32 \<Rightarrow> string list \<Rightarrow> string \<Rightarrow> prop_t \<Rightarrow> 'w \<Rightarrow> string list \<times> 'w"
type_synonym 'w decide_phase = "u32 \<Rightarrow> string list \<Rightarrow> string \<Rightarrow> 'w \<Rightarrow> 'w"

text \<open>\<open>None\<close> is the exit at one of the breakpoints for testing.\<close>

definition run ::
  "'w prepare_phase \<Rightarrow> 'w accept_phase \<Rightarrow> 'w decide_phase \<Rightarrow> prop_t \<Rightarrow> u32 \<Rightarrow> string list \<Rightarrow> string
     \<Rightarrow> proposer \<Rightarrow> 'w \<Rightarrow> (bool \<times> proposer \<times> 'w) option" where
  "run prepare accept decide nh i cur newv p w =
     (if \<not> stable p then Some (False, p, w)
      else
        let p = setn nh (p\<lparr>stable := False\<rparr>);
            (ok, accepts, v, w) = prepare i cur (my_n p) w in
        if ok \<and> majority cur accepts
        then
          let v = (if length v = 0 then newv else v) in
          if break1 p then None
          else
            let (accepts, w) = accept i accepts v (my_n p) w in
            if majority cur accepts
            then if break2 p then None else Some (True, p\<lparr>stable := True\<rparr>, decide i accepts v w)
            else Some (False, p\<lparr>stable := True\<rparr>, w)
        else Some (False, p\<lparr>stable := True\<rparr>, w))"

definition pp_prepare :: "'w prepare_phase" where
  "pp_prepare i nodes n w = (False, [], [], w)"

definition pp_accept :: "'w accept_phase" where
  "pp_accept i nodes v n w = ([], w)"

definition pp_decide :: "'w decide_phase" where
  "pp_decide i accepts v w = w"

definition proposer_run ::
  "prop_t \<Rightarrow> u32 \<Rightarrow> string list \<Rightarrow> string \<Rightarrow> proposer \<Rightarrow> 'w \<Rightarrow> (bool \<times> proposer \<times> 'w) option" where
  "proposer_run = run pp_prepare pp_accept pp_decide"

definition breakpoint :: "int \<Rightarrow> proposer \<Rightarrow> proposer" where
  "breakpoint b p = (if b = 3 then p\<lparr>break1 := True\<rparr> else if b = 4 then p\<lparr>break2 := True\<rparr> else p)"

section \<open>The wire format\<close>

abbreviation str_ok :: "string \<Rightarrow> bool" where
  "str_ok s \<equiv> length s < 2 ^ 32"

definition enc_prop :: "prop_t \<Rightarrow> u8 list" where
  "enc_prop a = be32 (p_n a) @ enc_string (p_m a)"

definition enc_preparearg :: "preparearg \<Rightarrow> u8 list" where
  "enc_preparearg a = be32 (pa_instance a) @ enc_prop (pa_n a)"

definition enc_prepareres :: "prepareres \<Rightarrow> u8 list" where
  "enc_prepareres r = [of_bool (pr_oldinstance r)] @ [of_bool (pr_accept r)] @ enc_prop (pr_n_a r) @ enc_string (pr_v_a r)"

definition enc_acceptarg :: "acceptarg \<Rightarrow> u8 list" where
  "enc_acceptarg a = be32 (aa_instance a) @ enc_prop (aa_n a) @ enc_string (aa_v a)"

definition enc_decidearg :: "decidearg \<Rightarrow> u8 list" where
  "enc_decidearg a = be32 (da_instance a) @ enc_string (da_v a)"

interpretation uint_string: two_codecs marshall_uint unmarshall_uint be32 "\<lambda>_. True"
  marshall_string "unmarshall_string []" enc_string str_ok
  by unfold_locales

interpretation prop_codec: codec marshall_prop unmarshall_prop enc_prop "\<lambda>a. str_ok (p_m a)"
  using uint_string.struct_codec [of Prop p_n p_m]
  unfolding marshall_prop_def [abs_def] unmarshall_prop_def [abs_def] enc_prop_def [abs_def] by simp

interpretation decidearg_codec: codec marshall_decidearg unmarshall_decidearg enc_decidearg "\<lambda>a. str_ok (da_v a)"
  using uint_string.struct_codec [of "\<lambda>i v. \<lparr>da_instance = i, da_v = v\<rparr>" da_instance da_v]
  unfolding marshall_decidearg_def [abs_def] unmarshall_decidearg_def [abs_def] enc_decidearg_def [abs_def] by simp

interpretation uint_prop: two_codecs marshall_uint unmarshall_uint be32 "\<lambda>_. True"
  marshall_prop unmarshall_prop enc_prop "\<lambda>a. str_ok (p_m a)"
  by unfold_locales

interpretation preparearg_codec:
  codec marshall_preparearg unmarshall_preparearg enc_preparearg "\<lambda>a. str_ok (p_m (pa_n a))"
  using uint_prop.struct_codec [of "\<lambda>i n. \<lparr>pa_instance = i, pa_n = n\<rparr>" pa_instance pa_n]
  unfolding marshall_preparearg_def [abs_def] unmarshall_preparearg_def [abs_def] enc_preparearg_def [abs_def] by simp

interpretation acceptarg_codec:
  codec marshall_acceptarg unmarshall_acceptarg enc_acceptarg "\<lambda>a. str_ok (p_m (aa_n a)) \<and> str_ok (aa_v a)"
proof (unfold_locales, goal_cases)
  case (1 m a)
  then show ?case
    unfolding marshall_acceptarg_def enc_acceptarg_def
    by (intro appends_bind uint_appends prop_codec.put_appends string_codec.put_appends) auto
next
  case (2 u a r)
  note u0 = 2(1) [unfolded enc_acceptarg_def append_assoc]
  note u1 = u0 [THEN u_ready_advance] and u2 = u0 [THEN u_ready_advance, THEN u_ready_advance]
  show ?case
    using 2(2) u0 [THEN uint_codec.get_enc] u1 [THEN prop_codec.get_enc] u2 [THEN string_codec.get_enc]
    by (simp add: unmarshall_acceptarg_def enc_acceptarg_def add.assoc)
qed

interpretation prepareres_codec:
  codec marshall_prepareres unmarshall_prepareres enc_prepareres "\<lambda>a. str_ok (p_m (pr_n_a a)) \<and> str_ok (pr_v_a a)"
proof (unfold_locales, goal_cases)
  case (1 m a)
  then show ?case
    unfolding marshall_prepareres_def enc_prepareres_def
    by (intro appends_bind bool_codec.put_appends prop_codec.put_appends string_codec.put_appends) auto
next
  case (2 u a r)
  note u0 = 2(1) [unfolded enc_prepareres_def append_assoc]
  note u1 = u0 [THEN u_ready_advance] and u2 = u0 [THEN u_ready_advance, THEN u_ready_advance]
    and u3 = u0 [THEN u_ready_advance, THEN u_ready_advance, THEN u_ready_advance]
  show ?case
    using 2(2) u0 [THEN bool_codec.get_enc] u1 [THEN bool_codec.get_enc] u2 [THEN prop_codec.get_enc]
      u3 [THEN string_codec.get_enc]
    by (simp add: unmarshall_prepareres_def enc_prepareres_def add.assoc)
qed

section \<open>Majorities\<close>

text \<open>
  What agreement rests on: any two sets of nodes that the predicate accepts for a view have a
  node of the view in common.
\<close>

locale quorums =
  fixes quorum :: "'n list \<Rightarrow> 'n list \<Rightarrow> bool"
  assumes intersect: "quorum view a \<Longrightarrow> quorum view b \<Longrightarrow> \<exists>x \<in> set view. x \<in> set a \<and> x \<in> set b"
begin

text \<open>When every node votes for one value only, no two values win.\<close>

lemma one_winner:
  assumes "quorum view a" "quorum view b" and "\<And>x. x \<in> set a \<Longrightarrow> vote x = v" "\<And>x. x \<in> set b \<Longrightarrow> vote x = w"
  shows "v = w"
  using intersect [OF assms(1,2)] assms(3,4) by blast

end

lemma filter_overlap:
  assumes "length (filter P xs) + length (filter Q xs) > length xs"
  shows "\<exists>x \<in> set xs. P x \<and> Q x"
proof (rule ccontr)
  assume "\<not> ?thesis"
  then have "length (filter P xs) + length (filter Q xs) \<le> length xs"
    by (induction xs) auto
  then show False
    using assms by simp
qed

interpretation majority_quorums: quorums majority
proof
  fix view a b
  assume "majority view a" "majority view b"
  then have "length (filter (\<lambda>m. isamember m a) view) + length (filter (\<lambda>m. isamember m b) view) > length view"
    by (simp add: majority_def)
  from filter_overlap [OF this] show "\<exists>x \<in> set view. x \<in> set a \<and> x \<in> set b"
    by (simp add: isamember_def)
qed

text \<open>
  When a run of the proposer succeeds, whatever the three phases do, a majority of the nodes it was
  given has answered the prepare phase and a majority the accept phase, the value decided on is
  the one from the prepare phase if there was one, and the two majorities share a node; a run
  that is started while another one is under way fails at once.
\<close>

theorem run_needs_majorities:
  assumes "run prepare accept decide nh i cur newv p w = Some (r, p', w')"
  shows "(\<not> stable p \<longrightarrow> \<not> r \<and> p' = p \<and> w' = w) \<and> (stable p \<longrightarrow> stable p' \<and> my_n p' = my_n (setn nh p)) \<and>
    (r \<longrightarrow> (\<exists>acc1 v w1 acc2 w2. prepare i cur (my_n p') w = (True, acc1, v, w1)
       \<and> accept i acc1 (if v = [] then newv else v) (my_n p') w1 = (acc2, w2)
       \<and> majority cur acc1 \<and> majority cur acc2 \<and> (\<exists>x \<in> set cur. x \<in> set acc1 \<and> x \<in> set acc2)
       \<and> w' = decide i acc2 (if v = [] then newv else v) w2))"
proof (cases "stable p")
  case True
  define q where "q = setn nh (p\<lparr>stable := False\<rparr>)"
  have n: "my_n q = my_n (setn nh p)"
    by (simp add: q_def setn_def)
  obtain ok acc1 v w1 where prep: "prepare i cur (my_n q) w = (ok, acc1, v, w1)"
    by (metis prod_cases4)
  obtain acc2 w2 where acc: "accept i acc1 (if v = [] then newv else v) (my_n q) w1 = (acc2, w2)"
    by (metis surj_pair)
  have result: "p' = q\<lparr>stable := True\<rparr> \<and> (r \<longrightarrow> ok \<and> majority cur acc1 \<and> majority cur acc2
      \<and> w' = decide i acc2 (if v = [] then newv else v) w2)"
    using assms True prep acc
    by (auto simp: run_def Let_def q_def [symmetric] split: if_splits)
  have "\<exists>x \<in> set cur. x \<in> set acc1 \<and> x \<in> set acc2" if r
    using result that majority_quorums.intersect by blast
  then show ?thesis
    using result prep acc True n by auto
qed (use assms in \<open>simp add: run_def\<close>)

text \<open>A network in which everybody answers.\<close>

definition ex_yes :: "nat prepare_phase" where
  "ex_yes i nodes n w = (True, nodes, [], w)"

theorem run_needs_majorities_witness:
  "\<exists>acc1 v w1 acc2 w2. ex_yes 2 [''a'', ''b''] (my_n (setn (Prop 0 ''a'') (proposer_new ''a''))) 0 = (True, acc1, v, w1)
     \<and> majority [''a'', ''b''] acc1"
  using run_needs_majorities [of ex_yes "\<lambda>i nodes v n w. (nodes, w)" "\<lambda>i nodes v w. w + 1" "Prop 0 ''a''" 2
      "[''a'', ''b'']" "''a b''" "proposer_new ''a''" 0 True]
  by (auto simp: run_def ex_yes_def proposer_new_def majority_def isamember_def setn_def)

text \<open>
  As long as the counters do not wrap around, a proposer picks a number greater than every number
  its acceptor has seen in a prepare and than all its earlier ones, in the order of proposals.
\<close>

theorem setn_exceeds:
  assumes "unat (p_n nh) + 1 < 2 ^ 32" "unat (p_n (my_n p)) + 1 < 2 ^ 32"
  shows "nh < my_n (setn nh p) \<and> my_n p < my_n (setn nh p)"
proof -
  have "unat (x + 1) = unat x + 1" if "unat x + 1 < 2 ^ 32" for x :: u32
    using that by (subst unat_add_lem [THEN iffD1]) simp_all
  note inc = this [OF assms(1)] this [OF assms(2)]
  show ?thesis
    using inc by (auto simp: less_prop_t_def prop_gt_def setn_def word_less_nat_alt)
qed

theorem setn_exceeds_witness: "Prop 7 ''z'' < my_n (setn (Prop 7 ''z'') (proposer_new ''a''))"
  by (rule setn_exceeds [THEN conjunct1]) (simp_all add: proposer_new_def)

text \<open>
  No view is ever agreed on by this program: its prepare phase gives up, so a run of the proposer
  fails, and leaves the proposer ready, with a new number.
\<close>

theorem proposer_never_succeeds:
  "proposer_run nh i cur newv p w = Some (False, if stable p then setn nh p else p, w)"
  by (cases p) (auto simp: proposer_run_def run_def pp_prepare_def setn_def)

section \<open>Decisions\<close>

text \<open>
  C39: Decided instances are final: committing leaves every instance up to the highest decided one as it
  is, raises the highest instance to a new one only, and records its value; the upper layer is
  told exactly when something new was decided.
\<close>

theorem commit_stable:
  assumes "commit_wo i v a = (a', up)"
  shows "instance_h a \<le> instance_h a' \<and> (\<forall>j \<le> instance_h a. ac_values a' j = ac_values a j) \<and>
    (if instance_h a < i then up = Some (i, v) \<and> instance_h a' = i \<and> ac_values a' i = Some v \<and> v_a a' = []
     else up = None \<and> a' = a)"
  using assms by (auto simp: commit_wo_def loginstance_def split: if_splits)

theorem commit_stable_witness:
  "ac_values (fst (commit_wo 2 ''a b'' (fst (commit_wo 1 ''a'' ex_acceptor)))) 1 = Some ''a''"
proof -
  define a1 where "a1 = fst (commit_wo 1 ''a'' ex_acceptor)"
  have one: "instance_h a1 = 1" "ac_values a1 1 = Some ''a''"
    by (simp_all add: a1_def commit_wo_def ex_acceptor_def loginstance_def)
  obtain a2 up where two: "commit_wo 2 ''a b'' a1 = (a2, up)"
    by (cases "commit_wo 2 ''a b'' a1")
  from commit_stable [OF two] show ?thesis
    using one two by (simp add: a1_def [symmetric])
qed

section \<open>Restarting\<close>

inductive ac_reachable :: "bool \<Rightarrow> string \<Rightarrow> string \<Rightarrow> acceptor \<Rightarrow> bool" for first me v where
  ar_new: "acceptor_new first me v [] = Inr a \<Longrightarrow> ac_reachable first me v a"
| ar_commit: "ac_reachable first me v a \<Longrightarrow> newline \<notin> set w \<Longrightarrow> ac_commit i w a = (a', up)
    \<Longrightarrow> ac_reachable first me v a'"
| ar_value: "ac_reachable first me v a \<Longrightarrow> ac_value i a = (w, a') \<Longrightarrow> ac_reachable first me v a'"
| ar_decide: "ac_reachable first me v a \<Longrightarrow> decidereq arg a = Inr (r, a', up) \<Longrightarrow> ac_reachable first me v a'"

definition ac_init :: "string \<Rightarrow> string \<Rightarrow> acceptor" where
  "ac_init me file = \<lparr>ac_me = me, n_h = Prop 0 me, n_a = Prop 0 me, v_a = [], instance_h = 0,
     ac_values = Map.empty, ac_log = file\<rparr>"

text \<open>What the acceptor answers for an instance.\<close>

definition decided :: "acceptor \<Rightarrow> u32 \<Rightarrow> string" where
  "decided a i = fst (ac_value i a)"

lemma decided_eq: "decided a = (\<lambda>i. case ac_values a i of None \<Rightarrow> [] | Some v \<Rightarrow> v)"
  by (auto simp: decided_def ac_value_def split: option.splits)

lemma ac_value_keeps:
  assumes "ac_value i a = (w, a')"
  shows "w = decided a i" "decided a' = decided a" "instance_h a' = instance_h a" "v_a a' = v_a a" "n_h a' = n_h a"
    "n_a a' = n_a a" "ac_log a' = ac_log a" "ac_me a' = ac_me a"
  using assms by (auto simp: decided_eq ac_value_def split: option.splits)

definition same_state :: "acceptor \<Rightarrow> acceptor \<Rightarrow> bool" where
  "same_state a b \<longleftrightarrow> decided a = decided b \<and> instance_h a = instance_h b \<and> v_a a = v_a b
     \<and> p_n (n_h a) = p_n (n_h b) \<and> p_n (n_a a) = p_n (n_a b)"

text \<open>The log is the text of events, and these stand for the state of the acceptor.\<close>

definition durable :: "bool \<Rightarrow> string \<Rightarrow> acceptor \<Rightarrow> bool" where
  "durable first me a \<longleftrightarrow> (\<exists>es. list_all ev_ok es \<and> ac_log a = concat (map ev_text es)
     \<and> same_state (fold replay es (ac_init me [])) a \<and> v_a a = [] \<and> (first \<longrightarrow> instance_h a \<noteq> 0))"

lemma replay_same: "same_state a b \<Longrightarrow> same_state (replay e a) (replay e b)"
  by (cases e) (auto simp: same_state_def decided_eq fun_eq_iff)

lemma fold_replay_same: "same_state a b \<Longrightarrow> same_state (fold replay es a) (fold replay es b)"
  by (induction es arbitrary: a b) (simp_all add: replay_same)

lemma same_state_trans: "same_state a b \<Longrightarrow> same_state b c \<Longrightarrow> same_state a c"
  by (simp add: same_state_def)

lemma replay_log: "ac_log (fold replay es a) = ac_log a"
proof (induction es arbitrary: a)
  case (Cons e es)
  then show ?case
    by (cases e) simp_all
qed simp

lemma durable_log_done:
  assumes "durable first me a" "newline \<notin> set w" "i \<noteq> 0"
    and "ac_log a' = ac_log a @ ev_text (LDone i w)" "ac_values a' = (ac_values a)(i \<mapsto> w)" "instance_h a' = i"
      "v_a a' = []" "p_n (n_h a') = 0" "p_n (n_a a') = 0"
  shows "durable first me a'"
proof -
  obtain es where es: "list_all ev_ok es" "ac_log a = concat (map ev_text es)"
      "same_state (fold replay es (ac_init me [])) a"
    using assms(1) by (auto simp: durable_def)
  have "same_state (fold replay (es @ [LDone i w]) (ac_init me [])) a'"
    using replay_same [OF es(3), of "LDone i w"] assms(5-9) by (simp add: same_state_def decided_eq)
  then show ?thesis
    unfolding durable_def using es assms by (intro exI [of _ "es @ [LDone i w]"]) simp
qed

lemma durable_commit:
  assumes "durable first me a" "newline \<notin> set w" "commit_wo i w a = (a', up)"
  shows "durable first me a'"
proof (cases "instance_h a < i")
  case True
  then have "i \<noteq> 0"
    by auto
  with True show ?thesis
    using assms(3) by (intro durable_log_done [OF assms(1,2)]) (auto simp: commit_wo_def loginstance_def)
next
  case False
  then show ?thesis
    using assms by (simp add: commit_wo_def)
qed

lemma logread_empty: "ac_log a = [] \<Longrightarrow> logread a = Inr a"
  using logread_events [of "[]" "[]" a] by (simp add: logread_def)

lemma reachable_durable:
  assumes "ac_reachable first me v a" "newline \<notin> set v"
  shows "durable first me a"
  using assms(1)
proof (induction rule: ac_reachable.induct)
  case (ar_new a)
  have init: "durable False me (ac_init me [])"
    unfolding durable_def by (intro exI [of _ "[]"]) (simp add: same_state_def ac_init_def)
  have a: "a = (if first then (loginstance 1 v ((ac_init me [])\<lparr>ac_values := [1 \<mapsto> v]\<rparr>))\<lparr>instance_h := 1\<rparr> else ac_init me [])"
    using ar_new logread_empty [of "ac_init me []"] by (auto simp: acceptor_new_def ac_init_def)
  show ?case
  proof (cases first)
    case True
    then have "durable False me a"
      using a by (intro durable_log_done [OF init assms(2), of 1]) (auto simp: loginstance_def ac_init_def)
    then show ?thesis
      using a True by (auto simp: durable_def)
  next
    case False
    then show ?thesis
      using a init by (simp add: durable_def)
  qed
next
  case (ar_commit a w i a' up)
  then show ?case
    using durable_commit by (simp add: ac_commit_def)
next
  case (ar_value a i w a')
  then show ?case
    using ac_value_keeps [OF ar_value.hyps(2)] by (simp add: durable_def same_state_def)
next
  case (ar_decide a arg r a' up)
  then have "v_a a = []"
    by (auto simp: durable_def)
  then show ?case
    using ar_decide durable_commit [OF ar_decide.IH, of "[]"] by (auto simp: decidereq_def split: if_splits)
qed


lemma ex_reachable: "ac_reachable True ''n1'' ''n1'' (fst (commit_wo 2 ''n1 n2'' (projr (acceptor_new True ''n1'' ''n1'' []))))"
proof -
  have "\<exists>a. acceptor_new True ''n1'' ''n1'' [] = Inr a"
    using logread_empty by (simp add: acceptor_new_def)
  then have "ac_reachable True ''n1'' ''n1'' (projr (acceptor_new True ''n1'' ''n1'' []))"
    by (auto intro: ar_new)
  then show ?thesis
    by (rule ar_commit [OF _ _ prod.collapse [symmetric, of "ac_commit 2 ''n1 n2'' _"], unfolded ac_commit_def])
      (simp add: newline_def)
qed


end
