(* ===== verification/Handle.thy ===== *)
theory Handle
  imports Prelude
begin

text \<open>
  The cache of RPC clients (\<^verbatim>\<open>handle.cc\<close>): reference-counted \<^verbatim>\<open>hinfo\<close> records, one per destination, on an
  explicit heap, since records and clients are deleted. The main result is that no handle ever
  reaches a deleted record and no client is deleted while a handle can still use it.
\<close>

section \<open>State\<close>

text \<open>
  Records and RPC clients are named by numbers; \<open>hm_heap\<close> holds the live records, \<open>hm_clients\<close> the
  live clients, and a name below \<open>hm_next\<close> is never given out again.
\<close>

record hinfo =
  hi_cl :: "nat option"
  hi_refcnt :: int
  hi_del :: bool
  hi_m :: string

record handle_mgr =
  hmap :: "string \<rightharpoonup> nat"
  hm_heap :: "nat \<rightharpoonup> hinfo"
  hm_clients :: "nat set"
  hm_next :: nat

definition handle_mgr_new :: handle_mgr where
  "handle_mgr_new = \<lparr>hmap = Map.empty, hm_heap = Map.empty, hm_clients = {}, hm_next = 0\<rparr>"

definition set_hinfo :: "nat \<Rightarrow> hinfo \<Rightarrow> handle_mgr \<Rightarrow> handle_mgr" where
  "set_hinfo p h s = s\<lparr>hm_heap := (hm_heap s)(p \<mapsto> h)\<rparr>"

section \<open>Operations\<close>

text \<open>Also the constructor of \<^verbatim>\<open>handle\<close>; \<open>None\<close> is the null pointer.\<close>

definition get_handle :: "string \<Rightarrow> handle_mgr \<Rightarrow> (nat option \<times> handle_mgr) res" where
  "get_handle m s =
     (case hmap s m of
        None \<Rightarrow>
          let p = hm_next s in
          Inr (Some p, (set_hinfo p \<lparr>hi_cl = None, hi_refcnt = 1, hi_del = False, hi_m = m\<rparr> s)
                 \<lparr>hmap := (hmap s)(m \<mapsto> p), hm_next := p + 1\<rparr>)
      | Some p \<Rightarrow>
          (case hm_heap s p of
             None \<Rightarrow> Inl UseAfterFree
           | Some h \<Rightarrow>
               if \<not> hi_del h then Inr (Some p, set_hinfo p (h\<lparr>hi_refcnt := hi_refcnt h + 1\<rparr>) s)
               else Inr (None, s)))"

text \<open>\<open>ret\<close> is what \<^verbatim>\<open>bind\<close> returns, if the call gets that far.\<close>

definition safebind :: "i32 \<Rightarrow> nat option \<Rightarrow> handle_mgr \<Rightarrow> (nat option \<times> handle_mgr) res" where
  "safebind ret hp s =
     (case hp of
        None \<Rightarrow> Inr (None, s)
      | Some p \<Rightarrow>
          (case hm_heap s p of
             None \<Rightarrow> Inl UseAfterFree
           | Some h \<Rightarrow>
               if hi_del h then Inr (None, s)
               else if hi_cl h \<noteq> None then Inr (hi_cl h, s)
               else
                 let cl = hm_next s; s = s\<lparr>hm_next := cl + 1\<rparr> in
                 if ret <s 0
                 then let h = h\<lparr>hi_del := True\<rparr> in Inr (hi_cl h, set_hinfo p h s)
                 else let h = h\<lparr>hi_cl := Some cl\<rparr> in
                   Inr (hi_cl h, (set_hinfo p h s)\<lparr>hm_clients := insert cl (hm_clients s)\<rparr>)))"

definition delete_handle_wo :: "string \<Rightarrow> handle_mgr \<Rightarrow> handle_mgr res" where
  "delete_handle_wo m s =
     (case hmap s m of
        None \<Rightarrow> Inr s
      | Some p \<Rightarrow>
          (case hm_heap s p of
             None \<Rightarrow> Inl UseAfterFree
           | Some h \<Rightarrow>
               if hi_refcnt h = 0
               then
                 (case hi_cl h of
                    None \<Rightarrow> Inr (s\<lparr>hmap := (hmap s)(m := None), hm_heap := (hm_heap s)(p := None)\<rparr>)
                  | Some cl \<Rightarrow>
                      if cl \<notin> hm_clients s then Inl UseAfterFree
                      else Inr (s\<lparr>hmap := (hmap s)(m := None), hm_heap := (hm_heap s)(p := None),
                                  hm_clients := hm_clients s - {cl}\<rparr>))
               else Inr (set_hinfo p (h\<lparr>hi_del := True\<rparr>) s)))"

definition delete_handle :: "string \<Rightarrow> handle_mgr \<Rightarrow> handle_mgr res" where
  "delete_handle m s = delete_handle_wo m s"

text \<open>Called by the destructor of \<^verbatim>\<open>handle\<close> unless its pointer is null.\<close>

definition done_handle :: "nat \<Rightarrow> handle_mgr \<Rightarrow> handle_mgr res" where
  "done_handle p s =
     (case hm_heap s p of
        None \<Rightarrow> Inl UseAfterFree
      | Some h \<Rightarrow>
          let h = h\<lparr>hi_refcnt := hi_refcnt h - 1\<rparr>; s = set_hinfo p h s in
          if hi_refcnt h = 0 \<and> hi_del h then delete_handle_wo (hi_m h) s else Inr s)"

section \<open>All programs that use handles\<close>

text \<open>
  \<open>ho_live\<close> are the handles that have been constructed and not destroyed, by the record they point
  to, and \<open>ho_used\<close> the clients that \<^verbatim>\<open>safebind\<close> returned for them.
\<close>

record handle_use =
  hu_mgr :: handle_mgr
  hu_live :: "nat list"
  hu_used :: "(nat \<times> nat) set"

inductive handle_step :: "handle_use \<Rightarrow> handle_use \<Rightarrow> bool" where
  hs_get: "get_handle m (hu_mgr u) = Inr (Some p, s)
    \<Longrightarrow> handle_step u (u\<lparr>hu_mgr := s, hu_live := p # hu_live u\<rparr>)"
| hs_get_null: "get_handle m (hu_mgr u) = Inr (None, s) \<Longrightarrow> handle_step u (u\<lparr>hu_mgr := s\<rparr>)"
| hs_bind: "p \<in> set (hu_live u) \<Longrightarrow> safebind ret (Some p) (hu_mgr u) = Inr (r, s)
    \<Longrightarrow> handle_step u (u\<lparr>hu_mgr := s,
          hu_used := (case r of None \<Rightarrow> hu_used u | Some cl \<Rightarrow> insert (p, cl) (hu_used u))\<rparr>)"
| hs_done: "p \<in> set (hu_live u) \<Longrightarrow> done_handle p (hu_mgr u) = Inr s
    \<Longrightarrow> handle_step u (u\<lparr>hu_mgr := s, hu_live := remove1 p (hu_live u),
          hu_used := {(q, cl) \<in> hu_used u. q \<in> set (remove1 p (hu_live u))}\<rparr>)"
| hs_delete: "delete_handle m (hu_mgr u) = Inr s \<Longrightarrow> handle_step u (u\<lparr>hu_mgr := s\<rparr>)"

inductive handle_reachable :: "handle_use \<Rightarrow> bool" where
  hr_init: "handle_reachable \<lparr>hu_mgr = handle_mgr_new, hu_live = [], hu_used = {}\<rparr>"
| hr_next: "handle_reachable u \<Longrightarrow> handle_step u u' \<Longrightarrow> handle_reachable u'"

section \<open>Invariant\<close>

text \<open>
  Every record is the one its destination is mapped to, counts the live handles on it, and is
  not both marked for deletion and unused; its client is live, its own, and the one every live
  handle on it was given.
\<close>

definition hinfo_ok :: "handle_use \<Rightarrow> nat \<Rightarrow> hinfo \<Rightarrow> bool" where
  "hinfo_ok u p h \<longleftrightarrow>
     hmap (hu_mgr u) (hi_m h) = Some p \<and> hi_refcnt h = int (count_list (hu_live u) p)
     \<and> (hi_del h \<longrightarrow> hi_refcnt h \<noteq> 0) \<and> p < hm_next (hu_mgr u)
     \<and> (\<forall>cl. hi_cl h = Some cl \<longrightarrow> cl \<in> hm_clients (hu_mgr u) \<and> cl < hm_next (hu_mgr u))
     \<and> (\<forall>cl. (p, cl) \<in> hu_used u \<longrightarrow> hi_cl h = Some cl)"

definition handle_inv :: "handle_use \<Rightarrow> bool" where
  "handle_inv u \<longleftrightarrow>
     (\<forall>p h. hm_heap (hu_mgr u) p = Some h \<longrightarrow> hinfo_ok u p h)
     \<and> (\<forall>m p. hmap (hu_mgr u) m = Some p \<longrightarrow> (\<exists>h. hm_heap (hu_mgr u) p = Some h \<and> hi_m h = m))
     \<and> (\<forall>p \<in> set (hu_live u). hm_heap (hu_mgr u) p \<noteq> None)
     \<and> (\<forall>(p, cl) \<in> hu_used u. p \<in> set (hu_live u))
     \<and> (\<forall>p q h k cl. hm_heap (hu_mgr u) p = Some h \<and> hm_heap (hu_mgr u) q = Some k
          \<and> hi_cl h = Some cl \<and> hi_cl k = Some cl \<longrightarrow> p = q)"

lemma handle_invD:
  assumes "handle_inv u"
  shows "hm_heap (hu_mgr u) p = Some h \<Longrightarrow> hinfo_ok u p h"
    and "hmap (hu_mgr u) m = Some p \<Longrightarrow> \<exists>h. hm_heap (hu_mgr u) p = Some h \<and> hi_m h = m"
    and "p \<in> set (hu_live u) \<Longrightarrow> \<exists>h. hm_heap (hu_mgr u) p = Some h"
    and "(p, cl) \<in> hu_used u \<Longrightarrow> p \<in> set (hu_live u)"
    and "hm_heap (hu_mgr u) p = Some h \<Longrightarrow> hm_heap (hu_mgr u) q = Some k \<Longrightarrow> hi_cl h = Some cl
      \<Longrightarrow> hi_cl k = Some cl \<Longrightarrow> p = q"
  using assms unfolding handle_inv_def by blast+

text \<open>Changing the fields of one record, and with them what is live and used.\<close>

lemma handle_inv_set:
  assumes inv: "handle_inv u" and h: "hm_heap (hu_mgr u) p = Some h"
    and s: "hm_heap s = (hm_heap (hu_mgr u))(p \<mapsto> h')" "hmap s = hmap (hu_mgr u)"
      "hm_next (hu_mgr u) \<le> hm_next s" "hm_clients (hu_mgr u) \<subseteq> hm_clients s"
    and h': "hi_m h' = hi_m h" "hi_refcnt h' = int (count_list live p)" "hi_del h' \<longrightarrow> hi_refcnt h' \<noteq> 0"
    and live: "\<And>q. q \<noteq> p \<Longrightarrow> count_list live q = count_list (hu_live u) q"
    and cl: "hi_cl h' = hi_cl h \<or> hi_cl h = None \<and> (\<exists>cl. hi_cl h' = Some cl \<and> cl \<in> hm_clients s
      \<and> hm_next (hu_mgr u) \<le> cl \<and> cl < hm_next s)"
    and used: "\<And>q cl. (q, cl) \<in> used \<Longrightarrow> q \<in> set live \<and> ((q, cl) \<in> hu_used u \<or> q = p \<and> hi_cl h' = Some cl)"
  shows "handle_inv \<lparr>hu_mgr = s, hu_live = live, hu_used = used\<rparr>"
proof -
  note ok = handle_invD(1) [OF inv, unfolded hinfo_ok_def]
  have heap: "hm_heap s q = (if q = p then Some h' else hm_heap (hu_mgr u) q)" for q
    using s(1) by simp
  have 1: "hinfo_ok \<lparr>hu_mgr = s, hu_live = live, hu_used = used\<rparr> q k" if "hm_heap s q = Some k" for q k
  proof (cases "q = p")
    case True
    then have [simp]: "k = h'" "q = p"
      using that heap by auto
    have "hi_cl h' = Some c" if "(p, c) \<in> used" for c
      using used [OF that] ok [OF h] cl by fastforce
    moreover have "c \<in> hm_clients (hu_mgr u) \<and> c < hm_next (hu_mgr u)" if "hi_cl h = Some c" for c
      using that ok [OF h] by blast
    then have "c \<in> hm_clients s \<and> c < hm_next s" if "hi_cl h' = Some c" for c
      using that cl s(3,4) by (metis less_le_trans option.inject subsetD)
    ultimately show ?thesis
      using ok [OF h] h' s(2,3) unfolding hinfo_ok_def by simp
  next
    case False
    then have k: "hm_heap (hu_mgr u) q = Some k"
      using that heap by simp
    have "(q, c) \<in> hu_used u" if "(q, c) \<in> used" for c
      using used [OF that] False by blast
    then show ?thesis
      using ok [OF k] s(2-4) live [OF False] unfolding hinfo_ok_def by auto
  qed
  have 2: "\<exists>k. hm_heap s q = Some k \<and> hi_m k = m" if "hmap s m = Some q" for m q
    using handle_invD(2) [OF inv, of m q] that s(2) h h'(1) heap by auto
  have 3: "hm_heap s q \<noteq> None" if "q \<in> set live" for q
    using that live [of q] handle_invD(3) [OF inv, of q] heap by (metis count_list_0_iff option.distinct(1))
  have old: "cl < hm_next (hu_mgr u)" if "hm_heap (hu_mgr u) q = Some k" "hi_cl k = Some cl" for q k cl
    using ok [OF that(1)] that(2) by simp
  have 4: "q = r" if "hm_heap s q = Some k" "hm_heap s r = Some l" "hi_cl k = Some cl" "hi_cl l = Some cl" for q r k l cl
    using that heap [of q] heap [of r] cl handle_invD(5) [OF inv] h old
    by (auto split: if_splits dest: leD) (metis leD)+
  show ?thesis
    unfolding handle_inv_def using 1 2 3 4 used by auto
qed

lemma handle_inv_get:
  assumes inv: "handle_inv u" and g: "get_handle m (hu_mgr u) = Inr (Some p, s)"
  shows "handle_inv (u\<lparr>hu_mgr := s, hu_live := p # hu_live u\<rparr>)"
proof (cases "hmap (hu_mgr u) m")
  case None
  let ?h = "\<lparr>hi_cl = None, hi_refcnt = 1, hi_del = False, hi_m = m\<rparr>"
  have p: "p = hm_next (hu_mgr u)" "hm_heap s = (hm_heap (hu_mgr u))(p \<mapsto> ?h)" "hmap s = (hmap (hu_mgr u))(m \<mapsto> p)"
      "hm_next s = p + 1" "hm_clients s = hm_clients (hu_mgr u)"
    using g None by (auto simp: get_handle_def set_hinfo_def Let_def)
  have fresh: "hm_heap (hu_mgr u) p = None"
    using handle_invD(1) [OF inv, of p] p(1) by (cases "hm_heap (hu_mgr u) p") (auto simp: hinfo_ok_def)
  then have unused: "p \<notin> set (hu_live u)"
    using handle_invD(3) [OF inv, of p] by auto
  have "hi_m h \<noteq> m" if "hm_heap (hu_mgr u) q = Some h" for q h
    using handle_invD(1) [OF inv that] None by (auto simp: hinfo_ok_def)
  then have "hinfo_ok (u\<lparr>hu_mgr := s, hu_live := p # hu_live u\<rparr>) q h" if "hm_heap s q = Some h" for q h
    using that handle_invD(1) [OF inv, of q h] handle_invD(4) [OF inv, of p] p fresh unused
    by (auto simp: hinfo_ok_def count_list_0_iff split: if_splits)
  moreover have "\<exists>h. hm_heap s q = Some h \<and> hi_m h = n" if "hmap s n = Some q" for n q
    using that p fresh handle_invD(2) [OF inv, of n q] by (auto split: if_splits)
  ultimately show ?thesis
    using p fresh handle_invD(3-5) [OF inv] unfolding handle_inv_def by (auto split: if_splits)
next
  case (Some q)
  then obtain h where h: "hm_heap (hu_mgr u) q = Some h"
    using handle_invD(2) [OF inv] by blast
  then have g': "q = p" "\<not> hi_del h" "s = set_hinfo p (h\<lparr>hi_refcnt := hi_refcnt h + 1\<rparr>) (hu_mgr u)"
    using g Some by (auto simp: get_handle_def split: if_splits)
  have "handle_inv \<lparr>hu_mgr = s, hu_live = p # hu_live u, hu_used = hu_used u\<rparr>"
    using handle_invD(1) [OF inv h] handle_invD(4) [OF inv] g'
    by (intro handle_inv_set [OF inv h [unfolded g'(1)], of s "h\<lparr>hi_refcnt := hi_refcnt h + 1\<rparr>"])
      (auto simp: set_hinfo_def hinfo_ok_def)
  then show ?thesis
    by (cases u) simp
qed

lemma handle_inv_bind:
  assumes inv: "handle_inv u" and p: "p \<in> set (hu_live u)" and b: "safebind ret (Some p) (hu_mgr u) = Inr (r, s)"
  shows "handle_inv (u\<lparr>hu_mgr := s, hu_used := (case r of None \<Rightarrow> hu_used u | Some cl \<Rightarrow> insert (p, cl) (hu_used u))\<rparr>)"
proof -
  obtain h where h: "hm_heap (hu_mgr u) p = Some h"
    using handle_invD(3) [OF inv p] by blast
  have ok: "hi_refcnt h = int (count_list (hu_live u) p)" "hi_refcnt h \<noteq> 0" "\<And>cl. (p, cl) \<in> hu_used u \<Longrightarrow> hi_cl h = Some cl"
    using handle_invD(1) [OF inv h] p by (auto simp: hinfo_ok_def count_list_0_iff)
  obtain h' where h': "hm_heap s = (hm_heap (hu_mgr u))(p \<mapsto> h')" "hmap s = hmap (hu_mgr u)"
      "hm_next (hu_mgr u) \<le> hm_next s" "hm_clients (hu_mgr u) \<subseteq> hm_clients s"
      "hi_m h' = hi_m h" "hi_refcnt h' = hi_refcnt h"
      "hi_cl h' = hi_cl h \<or> hi_cl h = None \<and> (\<exists>cl. hi_cl h' = Some cl \<and> cl \<in> hm_clients s
        \<and> hm_next (hu_mgr u) \<le> cl \<and> cl < hm_next s)"
      "r = None \<or> r = hi_cl h'"
  proof (cases "hi_del h \<or> hi_cl h \<noteq> None")
    case True
    then have "s = hu_mgr u" "r = None \<or> r = hi_cl h"
      using b h by (auto simp: safebind_def split: if_splits)
    then show thesis
      using that [of h] h by (simp add: fun_upd_idem)
  next
    case False
    then show thesis
      using that [of "h\<lparr>hi_del := True\<rparr>"] that [of "h\<lparr>hi_cl := Some (hm_next (hu_mgr u))\<rparr>"] b h
      by (auto simp: safebind_def set_hinfo_def Let_def subset_insertI split: if_splits)
  qed
  have "handle_inv \<lparr>hu_mgr = s, hu_live = hu_live u, hu_used = (case r of None \<Rightarrow> hu_used u | Some cl \<Rightarrow> insert (p, cl) (hu_used u))\<rparr>"
    using ok h' p handle_invD(4) [OF inv]
    by (intro handle_inv_set [OF inv h, of s h']) (auto split: option.splits)
  then show ?thesis
    by (cases u) simp
qed

text \<open>Deleting a record that no handle uses, and the client it owns.\<close>

lemma handle_inv_free:
  assumes inv: "handle_inv u" and h: "hm_heap (hu_mgr u) p = Some h" "p \<notin> set (hu_live u)"
    and s: "hm_heap s = (hm_heap (hu_mgr u))(p := None)" "hmap s = (hmap (hu_mgr u))(hi_m h := None)"
      "hm_next s = hm_next (hu_mgr u)" "hm_clients s = hm_clients (hu_mgr u) - set_option (hi_cl h)"
  shows "handle_inv (u\<lparr>hu_mgr := s\<rparr>)"
proof -
  note ok = handle_invD(1) [OF inv, unfolded hinfo_ok_def]
  have "hmap (hu_mgr u) (hi_m h) = Some p"
    using ok [OF h(1)] by blast
  have 1: "hinfo_ok (u\<lparr>hu_mgr := s\<rparr>) q k" if "hm_heap s q = Some k" for q k
  proof -
    have q: "q \<noteq> p" and k: "hm_heap (hu_mgr u) q = Some k"
      using that s(1) by (auto split: if_splits)
    then have "hi_m k \<noteq> hi_m h"
      using ok [OF k] ok [OF h(1)] by auto
    moreover have "hi_cl h \<noteq> hi_cl k" if "hi_cl k \<noteq> None"
      using that handle_invD(5) [OF inv h(1) k] q by auto
    ultimately show ?thesis
      using ok [OF k] s unfolding hinfo_ok_def by (cases "hi_cl k") auto
  qed
  have 2: "\<exists>k. hm_heap s q = Some k \<and> hi_m k = m" if "hmap s m = Some q" for m q
  proof -
    have "m \<noteq> hi_m h" "hmap (hu_mgr u) m = Some q"
      using that s(2) by (auto split: if_splits)
    then show ?thesis
      using handle_invD(2) [OF inv, of m q] h(1) s(1) by auto
  qed
  have 3: "hm_heap s q \<noteq> None" if "q \<in> set (hu_live u)" for q
    using handle_invD(3) [OF inv that] h(2) s(1) that by auto
  have 4: "q = r" if "hm_heap s q = Some k" "hm_heap s r = Some l" "hi_cl k = Some cl" "hi_cl l = Some cl" for q r k l cl
    using that handle_invD(5) [OF inv, of q k r l cl] s(1) by (auto split: if_splits)
  show ?thesis
    unfolding handle_inv_def using 1 2 3 4 handle_invD(4) [OF inv] by auto
qed

lemma delete_handle_wo_free:
  assumes "hmap s m = Some p" "hm_heap s p = Some h" "hi_refcnt h = 0" "delete_handle_wo m s = Inr s'"
  shows "hm_heap s' = (hm_heap s)(p := None)" "hmap s' = (hmap s)(m := None)" "hm_next s' = hm_next s"
    "hm_clients s' = hm_clients s - set_option (hi_cl h)"
  using assms by (auto simp: delete_handle_wo_def split: option.splits if_splits)

lemma handle_inv_delete:
  assumes inv: "handle_inv u" and d: "delete_handle m (hu_mgr u) = Inr s"
  shows "handle_inv (u\<lparr>hu_mgr := s\<rparr>)"
proof (cases "hmap (hu_mgr u) m")
  case None
  then show ?thesis
    using inv d by (cases u) (simp add: delete_handle_def delete_handle_wo_def)
next
  case (Some p)
  then obtain h where h: "hm_heap (hu_mgr u) p = Some h" "hi_m h = m"
    using handle_invD(2) [OF inv] by blast
  note ok = handle_invD(1) [OF inv h(1), unfolded hinfo_ok_def]
  show ?thesis
  proof (cases "hi_refcnt h = 0")
    case True
    then have unused: "p \<notin> set (hu_live u)"
      using ok by (simp add: count_list_0_iff)
    note f = delete_handle_wo_free [OF Some h(1) True d [unfolded delete_handle_def]]
    show ?thesis
      by (rule handle_inv_free [OF inv h(1) unused f(1) _ f(3,4)]) (simp add: f(2) h(2))
  next
    case False
    then have s: "s = set_hinfo p (h\<lparr>hi_del := True\<rparr>) (hu_mgr u)"
      using d Some h by (simp add: delete_handle_def delete_handle_wo_def)
    have "handle_inv \<lparr>hu_mgr = s, hu_live = hu_live u, hu_used = hu_used u\<rparr>"
      using ok False s handle_invD(4) [OF inv]
      by (intro handle_inv_set [OF inv h(1), of s "h\<lparr>hi_del := True\<rparr>"]) (auto simp: set_hinfo_def)
    then show ?thesis
      by (cases u) simp
  qed
qed

lemma count_list_remove1: "count_list (remove1 p xs) q = count_list xs q - (if p = q \<and> p \<in> set xs then 1 else 0)"
  by (induction xs) (auto simp: count_list_0_iff)

lemma handle_inv_done:
  assumes inv: "handle_inv u" and p: "p \<in> set (hu_live u)" and d: "done_handle p (hu_mgr u) = Inr s"
  shows "handle_inv (u\<lparr>hu_mgr := s, hu_live := remove1 p (hu_live u),
    hu_used := {(q, cl) \<in> hu_used u. q \<in> set (remove1 p (hu_live u))}\<rparr>)"
proof -
  let ?live = "remove1 p (hu_live u)" and ?used = "{(q, cl) \<in> hu_used u. q \<in> set (remove1 p (hu_live u))}"
  obtain h where h: "hm_heap (hu_mgr u) p = Some h"
    using handle_invD(3) [OF inv p] by blast
  note ok = handle_invD(1) [OF inv h, unfolded hinfo_ok_def]
  define h1 where "h1 = h\<lparr>hi_refcnt := hi_refcnt h - 1\<rparr>"
  define s1 where "s1 = set_hinfo p h1 (hu_mgr u)"
  have "count_list (hu_live u) p \<noteq> 0"
    using p by (simp add: count_list_0_iff)
  then have cnt: "hi_refcnt h1 = int (count_list ?live p)"
    using ok p by (simp add: h1_def count_list_remove1)
  have kept: "handle_inv \<lparr>hu_mgr = set_hinfo p k (hu_mgr u), hu_live = ?live, hu_used = ?used\<rparr>"
    if "k = h1\<lparr>hi_del := b\<rparr>" "b \<longrightarrow> hi_refcnt h1 \<noteq> 0" for k b
  proof (rule handle_inv_set [OF inv h])
    show "hm_heap (set_hinfo p k (hu_mgr u)) = (hm_heap (hu_mgr u))(p \<mapsto> k)"
      by (simp add: set_hinfo_def)
    show "hi_m k = hi_m h" "hi_cl k = hi_cl h \<or> hi_cl h = None \<and> (\<exists>cl. hi_cl k = Some cl
        \<and> cl \<in> hm_clients (set_hinfo p k (hu_mgr u)) \<and> hm_next (hu_mgr u) \<le> cl \<and> cl < hm_next (set_hinfo p k (hu_mgr u)))"
      using that(1) by (simp_all add: h1_def)
    show "hi_refcnt k = int (count_list ?live p)" "hi_del k \<longrightarrow> hi_refcnt k \<noteq> 0"
      using that cnt by simp_all
  qed (auto simp: set_hinfo_def count_list_remove1)
  show ?thesis
  proof (cases "hi_refcnt h1 = 0 \<and> hi_del h1")
    case True
    have "handle_inv \<lparr>hu_mgr = set_hinfo p (h1\<lparr>hi_del := False\<rparr>) (hu_mgr u), hu_live = ?live, hu_used = ?used\<rparr>" (is "handle_inv ?v")
      using kept [of "h1\<lparr>hi_del := False\<rparr>" False] by simp
    moreover have "count_list ?live p = 0"
      using cnt True by linarith
    then have "p \<notin> set ?live"
      by (metis count_list_0_iff)
    moreover have "delete_handle_wo (hi_m h1) s1 = Inr s"
      using d h True by (simp add: done_handle_def h1_def s1_def Let_def)
    then have "hm_heap s = (hm_heap s1)(p := None)" "hmap s = (hmap s1)(hi_m h1 := None)" "hm_next s = hm_next s1"
        "hm_clients s = hm_clients s1 - set_option (hi_cl h1)"
      using delete_handle_wo_free [of s1 "hi_m h1" p h1 s] ok True by (auto simp: s1_def set_hinfo_def h1_def)
    ultimately have "handle_inv (?v\<lparr>hu_mgr := s\<rparr>)"
      by (intro handle_inv_free [of ?v p "h1\<lparr>hi_del := False\<rparr>"]) (auto simp: set_hinfo_def s1_def)
    then show ?thesis
      by (cases u) simp
  next
    case False
    then have "s = s1"
      using d h by (auto simp: done_handle_def h1_def s1_def Let_def)
    moreover have "hi_del h1 \<longrightarrow> hi_refcnt h1 \<noteq> 0"
      using False by blast
    ultimately show ?thesis
      using kept [of h1 "hi_del h1"] by (cases u) (simp add: s1_def)
  qed
qed

lemma handle_step_inv: "handle_step u u' \<Longrightarrow> handle_inv u \<Longrightarrow> handle_inv u'"
proof (induction rule: handle_step.induct)
  case (hs_get_null m u s)
  then have "s = hu_mgr u"
    by (auto simp: get_handle_def Let_def split: option.splits if_splits)
  then show ?case
    using hs_get_null.prems by (cases u) simp
qed (simp_all add: handle_inv_get handle_inv_bind handle_inv_done handle_inv_delete)

lemma handle_reachable_inv: "handle_reachable u \<Longrightarrow> handle_inv u"
proof (induction rule: handle_reachable.induct)
  case hr_init
  show ?case
    by (simp add: handle_inv_def handle_mgr_new_def)
next
  case (hr_next u u')
  then show ?case
    using handle_step_inv by blast
qed

section \<open>Safety of the reference counts\<close>

lemma delete_handle_total:
  assumes "handle_reachable u"
  shows "\<exists>s. delete_handle m (hu_mgr u) = Inr s"
proof (cases "hmap (hu_mgr u) m")
  case (Some p)
  have inv: "handle_inv u"
    using assms by (rule handle_reachable_inv)
  then obtain h where h: "hm_heap (hu_mgr u) p = Some h"
    using handle_invD(2) Some by blast
  then show ?thesis
    using handle_invD(1) [OF inv h] Some
    by (auto simp: delete_handle_def delete_handle_wo_def hinfo_ok_def split: option.splits)
qed (simp add: delete_handle_def delete_handle_wo_def)

lemma get_handle_total: "handle_reachable u \<Longrightarrow> \<exists>r. get_handle m (hu_mgr u) = Inr r"
  using handle_invD(2) [OF handle_reachable_inv, of u m] by (auto simp: get_handle_def Let_def split: option.splits)

lemma live_handle:
  assumes "handle_reachable u" "p \<in> set (hu_live u)"
  obtains h where "hm_heap (hu_mgr u) p = Some h" "hinfo_ok u p h"
  using handle_invD(1,3) [OF handle_reachable_inv [OF assms(1)]] assms(2) by blast

lemma safebind_total: "handle_reachable u \<Longrightarrow> p \<in> set (hu_live u) \<Longrightarrow> \<exists>r. safebind ret (Some p) (hu_mgr u) = Inr r"
  by (elim live_handle) (auto simp: safebind_def Let_def)

lemma done_handle_total: "handle_reachable u \<Longrightarrow> p \<in> set (hu_live u) \<Longrightarrow> \<exists>s. done_handle p (hu_mgr u) = Inr s"
  by (elim live_handle)
    (auto simp: done_handle_def Let_def hinfo_ok_def set_hinfo_def delete_handle_wo_def split: option.splits)

text \<open>
  C25: No use after free in the cache of RPC clients: whatever sequence of handles is constructed,
  bound, destroyed and deleted by name, every operation on a live handle, and every operation by
  name, finds its record alive, and a client that \<^verbatim>\<open>safebind\<close> returned stays alive as long as the
  handle does.
\<close>

theorem handles_safe:
  assumes "handle_reachable u"
  shows "(\<forall>m. \<exists>r. get_handle m (hu_mgr u) = Inr r) \<and> (\<forall>m. \<exists>s. delete_handle m (hu_mgr u) = Inr s)
    \<and> (\<forall>p \<in> set (hu_live u). (\<forall>ret. \<exists>r. safebind ret (Some p) (hu_mgr u) = Inr r) \<and> (\<exists>s. done_handle p (hu_mgr u) = Inr s))
    \<and> (\<forall>(p, cl) \<in> hu_used u. cl \<in> hm_clients (hu_mgr u))"
proof -
  have "cl \<in> hm_clients (hu_mgr u)" if "(p, cl) \<in> hu_used u" for p cl
    using handle_invD(1,3,4) [OF handle_reachable_inv [OF assms]] that unfolding hinfo_ok_def by metis
  then show ?thesis
    using get_handle_total [OF assms] delete_handle_total [OF assms] safebind_total [OF assms] done_handle_total [OF assms]
    by blast
qed

text \<open>One handle, bound to a client.\<close>

definition ex_hinfo :: hinfo where
  "ex_hinfo = \<lparr>hi_cl = Some 1, hi_refcnt = 1, hi_del = False, hi_m = ''n1''\<rparr>"

definition ex_mgr :: handle_mgr where
  "ex_mgr = \<lparr>hmap = [''n1'' \<mapsto> 0], hm_heap = [0 \<mapsto> ex_hinfo], hm_clients = {1}, hm_next = 2\<rparr>"

lemma ex_handle_reachable: "handle_reachable \<lparr>hu_mgr = ex_mgr, hu_live = [0], hu_used = {(0, 1)}\<rparr>"
proof -
  let ?u0 = "\<lparr>hu_mgr = handle_mgr_new, hu_live = [], hu_used = {}\<rparr>"
  let ?s1 = "\<lparr>hmap = [''n1'' \<mapsto> 0], hm_heap = [0 \<mapsto> ex_hinfo\<lparr>hi_cl := None\<rparr>], hm_clients = {}, hm_next = 1\<rparr>"
  let ?u1 = "\<lparr>hu_mgr = ?s1, hu_live = [0], hu_used = {}\<rparr>"
  have "get_handle ''n1'' (hu_mgr ?u0) = Inr (Some 0, ?s1)"
    by (simp add: get_handle_def handle_mgr_new_def set_hinfo_def ex_hinfo_def)
  then have "handle_step ?u0 (?u0\<lparr>hu_mgr := ?s1, hu_live := 0 # hu_live ?u0\<rparr>)"
    by (rule hs_get)
  then have "handle_reachable ?u1"
    using hr_next [OF hr_init] by simp
  moreover have "safebind 0 (Some 0) (hu_mgr ?u1) = Inr (Some 1, ex_mgr)"
    by (simp add: safebind_def set_hinfo_def ex_hinfo_def ex_mgr_def)
  then have "handle_step ?u1 (?u1\<lparr>hu_mgr := ex_mgr, hu_used := (case Some 1 of None \<Rightarrow> hu_used ?u1 | Some cl \<Rightarrow> insert (0, cl) (hu_used ?u1))\<rparr>)"
    by (intro hs_bind) simp_all
  ultimately show ?thesis
    using hr_next by fastforce
qed

theorem handles_safe_witness: "\<exists>s. done_handle 0 ex_mgr = Inr s"
  using handles_safe [OF ex_handle_reachable] by simp

end
