(* ===== verification/Config.thy ===== *)
theory Config
  imports Paxos Handle Rpc_Stub
begin

text \<open>
  The configuration module (\<^verbatim>\<open>config.cc\<close>): views as the values of Paxos instances, the changes a node
  proposes when another one joins or stops answering, the upcall from the acceptor, and the
  heartbeats. The acceptor, the proposer and the cache of handles are parts of the state.
\<close>

section \<open>Views as text\<close>

function members :: "string \<Rightarrow> string list" where
  "members s = (case read_word s of (None, _) \<Rightarrow> [] | (Some m, s') \<Rightarrow> m # members s')"
  by auto
termination
  by (relation "measure length") (auto dest!: read_word_length(2) [OF sym])

declare members.simps [simp del]

definition cf_value :: "string list \<Rightarrow> string" where
  "cf_value ms = concat (map (\<lambda>m. m @ '' '') ms)"

section \<open>State\<close>

record config =
  cf_myvid :: u32
  cf_me :: string
  cf_mems :: "string list"
  cf_acc :: acceptor
  cf_pro :: proposer
  cf_mgr :: handle_mgr

definition get_view_wo :: "u32 \<Rightarrow> config \<Rightarrow> string list \<times> config" where
  "get_view_wo i c = (let (v, a) = ac_value i (cf_acc c) in (members v, c\<lparr>cf_acc := a\<rparr>))"

definition get_view :: "u32 \<Rightarrow> config \<Rightarrow> string list \<times> config" where
  "get_view i c = get_view_wo i c"

definition reconstruct :: "config \<Rightarrow> config" where
  "reconstruct c =
     (if instance_h (cf_acc c) > 0
      then let c = c\<lparr>cf_myvid := instance_h (cf_acc c)\<rparr>; (v, c) = get_view_wo (cf_myvid c) c in c\<lparr>cf_mems := v\<rparr>
      else c)"

definition config_new :: "string \<Rightarrow> string \<Rightarrow> string \<Rightarrow> handle_mgr \<Rightarrow> config res" where
  "config_new first me file mgr =
     bindR (acceptor_new (me = first) me me file) (\<lambda>a.
       Inr (reconstruct \<lparr>cf_myvid = 0, cf_me = me, cf_mems = [], cf_acc = a, cf_pro = proposer_new me, cf_mgr = mgr\<rparr>))"

definition cf_restore :: "string \<Rightarrow> config \<Rightarrow> config res" where
  "cf_restore s c = bindR (ac_restore s (cf_acc c)) (\<lambda>a. Inr (reconstruct (c\<lparr>cf_acc := a\<rparr>)))"

definition ismember :: "string \<Rightarrow> u32 \<Rightarrow> config \<Rightarrow> bool \<times> config" where
  "ismember m vid c = (let (v, c) = get_view_wo vid c in (isamember m v, c))"

section \<open>View changes\<close>

text \<open>The loop over the present members that forgets the handles of those who leave.\<close>

fun drop_handles :: "string \<Rightarrow> string list \<Rightarrow> string list \<Rightarrow> handle_mgr \<Rightarrow> handle_mgr res" where
  "drop_handles me newmem [] mgr = Inr mgr"
| "drop_handles me newmem (m # ms) mgr =
     (if \<not> isamember m newmem \<and> me \<noteq> m
      then bindR (delete_handle m mgr) (drop_handles me newmem ms)
      else drop_handles me newmem ms mgr)"

text \<open>The upcall \<^verbatim>\<open>commit_change\<close> that follows gets the new view number.\<close>

definition paxos_commit :: "u32 \<Rightarrow> string \<Rightarrow> config \<Rightarrow> config res" where
  "paxos_commit i v c =
     (let newmem = members v in
      bindR (drop_handles (cf_me c) newmem (cf_mems c) (cf_mgr c)) (\<lambda>mgr.
        Inr (c\<lparr>cf_mgr := mgr, cf_mems := newmem, cf_myvid := i\<rparr>)))"

text \<open>A decision of the acceptor with its upcall.\<close>

definition cf_commit :: "u32 \<Rightarrow> string \<Rightarrow> config \<Rightarrow> config res" where
  "cf_commit i v c =
     (case ac_commit i v (cf_acc c) of
        (a, None) \<Rightarrow> Inr (c\<lparr>cf_acc := a\<rparr>)
      | (a, Some (j, w)) \<Rightarrow> paxos_commit j w (c\<lparr>cf_acc := a\<rparr>))"

definition propose :: "string list \<Rightarrow> config \<Rightarrow> (bool \<times> config) option" where
  "propose ms c =
     (case proposer_run (n_h (cf_acc c)) (cf_myvid c + 1) (cf_mems c) (cf_value ms) (cf_pro c) () of
        None \<Rightarrow> None
      | Some (r, p, _) \<Rightarrow> Some (r, c\<lparr>cf_pro := p\<rparr>))"

definition add_view :: "string \<Rightarrow> config \<Rightarrow> string list" where
  "add_view new_m c = cf_mems c @ [new_m]"

definition cf_add :: "string \<Rightarrow> u32 \<Rightarrow> config \<Rightarrow> (bool \<times> config) option" where
  "cf_add new_m vid c = (if vid \<noteq> cf_myvid c then Some (False, c) else propose (add_view new_m c) c)"

definition remove_view :: "string \<Rightarrow> config \<Rightarrow> string list" where
  "remove_view m c = filter (\<lambda>x. x \<noteq> m) (cf_mems c)"

definition remove_wo :: "string \<Rightarrow> config \<Rightarrow> (bool \<times> config) option" where
  "remove_wo m c = propose (remove_view m c) c"

section \<open>Heartbeats\<close>

definition heartbeat :: "u32 \<Rightarrow> config \<Rightarrow> (i32 \<times> u32) res" where
  "heartbeat vid c =
     (if vid = cf_myvid c then Inr (px_OK, cf_myvid c)
      else if isrunning (cf_pro c)
      then if vid = cf_myvid c + 1 \<or> vid + 1 = cf_myvid c then Inr (px_OK, cf_myvid c) else Inl VerifyFailed
      else Inr (px_ERR, cf_myvid c))"

datatype heartbeat_t = HB_OK | VIEWERR | FAILURE

text \<open>\<open>bret\<close> and \<open>cret\<close> are what \<^verbatim>\<open>bind\<close> and the call return if they are reached.\<close>

definition doheartbeat :: "i32 \<Rightarrow> i32 \<Rightarrow> string \<Rightarrow> config \<Rightarrow> (heartbeat_t \<times> config) res" where
  "doheartbeat bret cret m c =
     bindR (get_handle m (cf_mgr c)) (\<lambda>(hp, mgr).
     bindR (safebind bret hp mgr) (\<lambda>(cl, mgr).
       let ret = (if cl \<noteq> None then cret else timeout_failure) in
       bindR (if ret = atmostonce_failure \<or> ret = oldsrv_failure then delete_handle m mgr else Inr mgr) (\<lambda>mgr.
       bindR (case hp of None \<Rightarrow> Inr mgr | Some p \<Rightarrow> done_handle p mgr) (\<lambda>mgr.
         Inr (if ret = px_OK \<or> ret = atmostonce_failure \<or> ret = oldsrv_failure then HB_OK
              else if ret <s 0 then FAILURE else VIEWERR,
              c\<lparr>cf_mgr := mgr\<rparr>)))))"

text \<open>The node with the smallest name: it watches the others, and they watch it.\<close>

definition smallest :: "string \<Rightarrow> string list \<Rightarrow> string" where
  "smallest me cmems = foldl (\<lambda>m x. if m > x then x else m) me cmems"

fun ping_others ::
  "(string \<Rightarrow> config \<Rightarrow> (heartbeat_t \<times> config) res) \<Rightarrow> string \<Rightarrow> string list \<Rightarrow> config \<Rightarrow> (string option \<times> config) res" where
  "ping_others beat me [] c = Inr (None, c)"
| "ping_others beat me (x # xs) c =
     (if x \<noteq> me
      then bindR (beat x c) (\<lambda>(h, c). if h \<noteq> HB_OK then Inr (Some x, c) else ping_others beat me xs c)
      else ping_others beat me xs c)"

text \<open>One round of the loop of \<^verbatim>\<open>heartbeater\<close>; \<open>None\<close> is the exit of the proposer at a breakpoint.\<close>

definition heartbeater ::
  "(string \<Rightarrow> config \<Rightarrow> (heartbeat_t \<times> config) res) \<Rightarrow> config \<Rightarrow> config option res" where
  "heartbeater beat c =
     (let vid = cf_myvid c; (cmems, c) = get_view_wo vid c in
      if \<not> isamember (cf_me c) cmems then Inr (Some c)
      else
        let m = smallest (cf_me c) cmems in
        bindR (if m = cf_me c then ping_others beat (cf_me c) cmems c
               else bindR (beat m c) (\<lambda>(h, c). Inr (if h \<noteq> HB_OK then Some m else None, c))) (\<lambda>(dead, c).
          case dead of
            None \<Rightarrow> Inr (Some c)
          | Some m \<Rightarrow> if vid = cf_myvid c then Inr (map_option snd (remove_wo m c)) else Inr (Some c)))"

section \<open>Views and their text\<close>

lemma members_Nil [simp]: "members [] = []"
  by (subst members.simps) (simp add: read_word_def)

lemma members_Cons: "word_ok m \<Longrightarrow> members (m @ CHR '' '' # s) = m # members (CHR '' '' # s)"
  by (subst members.simps) (simp add: read_word_word)

lemma members_space: "members (CHR '' '' # s) = members s"
  by (subst (1 2) members.simps) (simp add: read_word_def)

lemma members_value: "list_all word_ok ms \<Longrightarrow> members (cf_value ms) = ms"
  by (induction ms) (simp_all add: cf_value_def members_Cons members_space)

text \<open>A name without a separator after it, as the first view has it.\<close>

lemma members_word: "word_ok m \<Longrightarrow> members m = [m]"
proof -
  assume m: "word_ok m"
  then have "takeWhile (\<lambda>c. \<not> is_space c) m = m" "dropWhile (\<lambda>c. \<not> is_space c) m = []"
      "dropWhile is_space m = m" "m \<noteq> []"
    by (cases m; auto simp: word_ok_def list_all_iff)+
  then have "read_word m = (Some m, [])"
    unfolding read_word_def Let_def by (simp only: if_False)
  then show ?thesis
    by (subst members.simps) simp
qed

section \<open>Quorums of successive views\<close>

lemma majority_card:
  assumes "distinct view" "majority view a"
  shows "card (set view \<inter> set a) \<ge> length view div 2 + 1"
proof -
  have "set (filter (\<lambda>m. isamember m a) view) = set view \<inter> set a"
    by (auto simp: isamember_def)
  then have "length (filter (\<lambda>m. isamember m a) view) = card (set view \<inter> set a)"
    using distinct_card [OF distinct_filter [OF assms(1)]] by metis
  then show ?thesis
    using assms(2) by (simp add: majority_def)
qed

lemma majorities_meet:
  assumes "distinct v" "distinct w" "set v \<subseteq> set w" "length w \<le> length v + 1" "majority v a" "majority w b"
  shows "\<exists>x \<in> set v. x \<in> set a \<and> x \<in> set b"
proof (rule ccontr)
  assume "\<not> ?thesis"
  then have disj: "(set v \<inter> set a) \<inter> (set w \<inter> set b) = {}"
    by blast
  have "card (set v \<inter> set a) + card (set w \<inter> set b) = card ((set v \<inter> set a) \<union> (set w \<inter> set b))"
    using disj by (simp add: card_Un_disjoint)
  also have "\<dots> \<le> card (set w)"
    using assms(3) by (intro card_mono) auto
  also have "\<dots> = length w"
    using assms(2) by (rule distinct_card)
  finally have "(length v div 2 + 1) + (length w div 2 + 1) \<le> length w"
    using majority_card [OF assms(1,5)] majority_card [OF assms(2,6)] by linarith
  then show False
    using assms(4) by linarith
qed

text \<open>
  C27: Every view that a node proposes shares a decider with the present one: a majority of the present
  view and a majority of the view after a node has been added, or removed, have a member in
  common, and the text given to Paxos reads back as exactly that view.
\<close>

theorem view_change_quorums:
  assumes "distinct (cf_mems c)" "list_all word_ok (m # cf_mems c)"
    and "view = remove_view m c \<or> view = add_view m c \<and> m \<notin> set (cf_mems c)"
    and "majority (cf_mems c) a" "majority view b"
  shows "members (cf_value view) = view \<and> distinct view \<and> (\<exists>x \<in> set (cf_mems c). x \<in> set a \<and> x \<in> set b)"
proof -
  have view: "distinct view" "list_all word_ok view"
    using assms(1-3) by (auto simp: remove_view_def add_view_def list_all_iff)
  have one: "length xs \<le> length (filter (\<lambda>x. x \<noteq> m) xs) + 1" if "distinct xs" for xs :: "string list"
    using that
  proof (induction xs)
    case (Cons y ys)
    have "y = m \<Longrightarrow> filter (\<lambda>x. x \<noteq> m) ys = ys"
      using Cons.prems by (auto simp: filter_id_conv)
    then show ?case
      using Cons by (cases "y = m") simp_all
  qed simp
  have "\<exists>x \<in> set (cf_mems c). x \<in> set a \<and> x \<in> set b"
    using assms(3)
  proof (elim disjE conjE)
    assume "view = remove_view m c"
    then show ?thesis
      using majorities_meet [of view "cf_mems c" b a] assms(1,4,5) view one [OF assms(1)]
      by (auto simp: remove_view_def)
  next
    assume "view = add_view m c"
    then show ?thesis
      using majorities_meet [of "cf_mems c" view a b] assms(1,4,5) view by (auto simp: add_view_def)
  qed
  then show ?thesis
    using view members_value by simp
qed

theorem view_change_quorums_witness:
  "members (cf_value [''a'', ''b'', ''c'']) = [''a'', ''b'', ''c'']
   \<and> (\<exists>x \<in> set [''a'', ''b'']. x \<in> set [''b'', ''a''] \<and> x \<in> set [''b'', ''c''])"
proof -
  define c where "c = \<lparr>cf_myvid = 2, cf_me = ''a'', cf_mems = [''a'', ''b''], cf_acc = ex_acceptor,
    cf_pro = proposer_new ''a'', cf_mgr = handle_mgr_new\<rparr>"
  have "list_all word_ok [''c'', ''a'', ''b'']"
    by (simp add: word_ok_def is_space_def)
  then show ?thesis
    using view_change_quorums [of c "''c''" "[''a'', ''b'', ''c'']" "[''b'', ''a'']" "[''b'', ''c'']"]
    by (simp add: c_def add_view_def majority_def isamember_def)
qed

section \<open>The view follows the decisions\<close>

lemma drop_handles_ok:
  assumes "handle_reachable \<lparr>hu_mgr = mgr, hu_live = live, hu_used = used\<rparr>"
  shows "\<exists>mgr'. drop_handles me newmem ms mgr = Inr mgr' \<and> handle_reachable \<lparr>hu_mgr = mgr', hu_live = live, hu_used = used\<rparr>"
  using assms
proof (induction ms arbitrary: mgr)
  case (Cons m ms)
  obtain s where s: "delete_handle m mgr = Inr s"
    using delete_handle_total [OF Cons.prems] by auto
  have "handle_step \<lparr>hu_mgr = mgr, hu_live = live, hu_used = used\<rparr> \<lparr>hu_mgr = s, hu_live = live, hu_used = used\<rparr>"
    using hs_delete [of m "\<lparr>hu_mgr = mgr, hu_live = live, hu_used = used\<rparr>" s] s by simp
  from hr_next [OF Cons.prems this] show ?case
    using Cons s by simp
qed simp

text \<open>
  The views as they come about: a node starts with some log, its acceptor decides, the tables are
  searched for members of any view, views are proposed, and a saved log that holds a decision is
  restored.
\<close>

inductive cfg_reachable :: "config \<Rightarrow> bool" where
  cr_new: "config_new first me logfile mgr = Inr c \<Longrightarrow> handle_reachable \<lparr>hu_mgr = mgr, hu_live = [], hu_used = {}\<rparr>
    \<Longrightarrow> cfg_reachable c"
| cr_commit: "cfg_reachable c \<Longrightarrow> cf_commit i v c = Inr c' \<Longrightarrow> cfg_reachable c'"
| cr_ismember: "cfg_reachable c \<Longrightarrow> ismember m vid c = (r, c') \<Longrightarrow> cfg_reachable c'"
| cr_view: "cfg_reachable c \<Longrightarrow> get_view vid c = (v, c') \<Longrightarrow> cfg_reachable c'"
| cr_add: "cfg_reachable c \<Longrightarrow> cf_add m vid c = Some (r, c') \<Longrightarrow> cfg_reachable c'"
| cr_restore: "cfg_reachable c \<Longrightarrow> cf_restore s c = Inr c' \<Longrightarrow> instance_h (cf_acc c') \<noteq> 0 \<Longrightarrow> cfg_reachable c'"
| cr_remove: "cfg_reachable c \<Longrightarrow> remove_wo m c = Some (r, c') \<Longrightarrow> cfg_reachable c'"

definition cfg_inv :: "config \<Rightarrow> bool" where
  "cfg_inv c \<longleftrightarrow> cf_myvid c = instance_h (cf_acc c) \<and>
     (instance_h (cf_acc c) \<noteq> 0 \<longrightarrow> (\<exists>v. ac_values (cf_acc c) (cf_myvid c) = Some v \<and> cf_mems c = members v))"

lemma get_view_inv:
  assumes "get_view_wo vid c = (v, c')"
  shows "cfg_inv c \<Longrightarrow> cfg_inv c'" "cf_mems c' = cf_mems c" "cf_myvid c' = cf_myvid c"
    "instance_h (cf_acc c') = instance_h (cf_acc c)" "\<exists>s. ac_values (cf_acc c') vid = Some s \<and> v = members s"
    "cf_mgr c' = cf_mgr c"
  using assms by (auto simp: get_view_wo_def ac_value_def cfg_inv_def split: prod.splits option.splits)

lemma cfg_inv_reconstruct:
  assumes "instance_h (cf_acc c) \<noteq> 0 \<or> cf_myvid c = 0"
  shows "cfg_inv (reconstruct c)"
proof (cases "instance_h (cf_acc c) = 0")
  case True
  then show ?thesis
    using assms by (simp add: reconstruct_def cfg_inv_def)
next
  case False
  then show ?thesis
    by (cases "ac_values (cf_acc c) (instance_h (cf_acc c))")
      (simp_all add: reconstruct_def cfg_inv_def word_neq_0_conv get_view_wo_def ac_value_def)
qed

lemma reconstruct_acc: "instance_h (cf_acc (reconstruct c)) = instance_h (cf_acc c)"
  by (cases "ac_values (cf_acc c) (instance_h (cf_acc c))")
    (simp_all add: reconstruct_def get_view_wo_def ac_value_def)

lemma propose_inv: "propose ms c = Some (r, c') \<Longrightarrow> cfg_inv c \<Longrightarrow> cfg_inv c' \<and> r = False"
  by (auto simp: propose_def cfg_inv_def proposer_run_def run_def pp_prepare_def split: option.splits if_splits)

lemma cf_commit_inv:
  assumes "cf_commit i v c = Inr c'" "cfg_inv c"
  shows "cfg_inv c'"
proof (cases "instance_h (cf_acc c) < i")
  case True
  then show ?thesis
    using assms by (auto simp: cf_commit_def ac_commit_def commit_wo_def paxos_commit_def cfg_inv_def loginstance_def
        bindR_Inr_iff Let_def)
next
  case False
  then show ?thesis
    using assms by (auto simp: cf_commit_def ac_commit_def commit_wo_def)
qed



section \<open>Who watches whom\<close>

lemma smallest_Min: "smallest me cmems = Min (insert me (set cmems))"
  unfolding smallest_def
proof (induction cmems arbitrary: me)
  case (Cons x xs)
  have "foldl (\<lambda>m x. if m > x then x else m) me (x # xs) = Min (insert (min me x) (set xs))"
    using Cons by (auto simp: min_def)
  also have "\<dots> = Min (insert me (set (x # xs)))"
    by (cases "xs = []") (simp_all add: ac_simps)
  finally show ?case .
qed simp

text \<open>
  The members of a view agree on who watches whom: every node of a view computes the same watcher,
  the member with the smallest name, so that each other member is pinged by the watcher and the watcher by each
  of them.
\<close>

theorem watcher_agreed:
  assumes "isamember m1 view" "isamember m2 view"
  shows "smallest m1 view = smallest m2 view \<and> isamember (smallest m1 view) view \<and> (\<forall>x \<in> set view. smallest m1 view \<le> x)"
proof -
  have "insert m1 (set view) = set view" "insert m2 (set view) = set view" "set view \<noteq> {}"
    using assms by (auto simp: isamember_def)
  then show ?thesis
    by (simp add: smallest_Min isamember_def)
qed

theorem watcher_agreed_witness: "smallest ''b'' [''b'', ''c'', ''a''] = smallest ''c'' [''b'', ''c'', ''a'']"
  using watcher_agreed [of "''b''" "[''b'', ''c'', ''a'']" "''c''"] by (simp add: isamember_def)

section \<open>Heartbeats and handles\<close>

lemmas rpc_failures = timeout_failure_def atmostonce_failure_def oldsrv_failure_def

lemma positive_word: "x \<noteq> 0 \<Longrightarrow> \<not> x <s 0 \<Longrightarrow> 0 <s x" for x :: i32
  using signed.not_less_iff_gr_or_eq by blast

definition the_config :: "handle_mgr \<Rightarrow> config" where
  "the_config mgr = \<lparr>cf_myvid = 1, cf_me = ''n1'', cf_mems = [''n1''], cf_acc = ex_acceptor, cf_pro = proposer_new ''n1'', cf_mgr = mgr\<rparr>"

text \<open>A heartbeat leaves the handles of others alone and gives its own back.\<close>

lemma delete_handle_keeps:
  assumes "handle_reachable u" "delete_handle m (hu_mgr u) = Inr s"
  shows "handle_reachable (u\<lparr>hu_mgr := s\<rparr>)"
  using hr_next [OF assms(1) hs_delete [OF assms(2)]] .

text \<open>
  A heartbeat never faults and is balanced: whatever handles other threads hold, the handle it takes is
  released again on every path, and it counts the other node as failed exactly when the call was made
  and returned an RPC error other than the two that mean a restarted server, or could not be made.
\<close>

theorem doheartbeat_balanced:
  assumes "handle_reachable u" "hu_mgr u = cf_mgr c"
  shows "\<exists>res mgr used. doheartbeat bret cret m c = Inr (res, c\<lparr>cf_mgr := mgr\<rparr>)
    \<and> handle_reachable \<lparr>hu_mgr = mgr, hu_live = hu_live u, hu_used = used\<rparr>
    \<and> (res = VIEWERR \<longrightarrow> 0 <s cret) \<and> (res = HB_OK \<longrightarrow> cret \<in> {px_OK, atmostonce_failure, oldsrv_failure})"
proof -
  obtain hp s where g: "get_handle m (cf_mgr c) = Inr (hp, s)"
    using get_handle_total [OF assms(1), of m] assms(2) by auto
  show ?thesis
  proof (cases hp)
    case None
    with g have "handle_reachable (u\<lparr>hu_mgr := s\<rparr>)"
      using hr_next [OF assms(1) hs_get_null [of m u s]] assms(2) by simp
    then show ?thesis
      using g None by (cases u) (auto simp: doheartbeat_def safebind_def rpc_failures px_OK_def)
  next
    case (Some p)
    let ?u1 = "u\<lparr>hu_mgr := s, hu_live := p # hu_live u\<rparr>"
    have r1: "handle_reachable ?u1"
      using hr_next [OF assms(1) hs_get [of m u p s]] g Some assms(2) by simp
    obtain cl s2 where b: "safebind bret (Some p) s = Inr (cl, s2)"
      using safebind_total [OF r1, of p bret] by auto
    obtain u2 where u2: "handle_reachable u2" "hu_mgr u2 = s2" "hu_live u2 = p # hu_live u"
      using hr_next [OF r1 hs_bind [of p ?u1 bret cl s2]] b by auto
    let ?ret = "if cl \<noteq> None then cret else timeout_failure"
    define gone where "gone \<longleftrightarrow> ?ret = atmostonce_failure \<or> ?ret = oldsrv_failure"
    obtain s3 where d: "(if gone then delete_handle m s2 else Inr s2) = Inr s3"
      using delete_handle_total [OF u2(1), of m] u2(2) by (cases gone) auto
    have r3: "handle_reachable (u2\<lparr>hu_mgr := s3\<rparr>)"
      using d delete_handle_keeps [OF u2(1)] u2(1,2) by (cases u2) (auto split: if_splits)
    obtain s4 where e: "done_handle p s3 = Inr s4"
      using done_handle_total [OF r3, of p] u2(3) by auto
    have "handle_reachable \<lparr>hu_mgr = s4, hu_live = hu_live u,
        hu_used = {(q, cl) \<in> hu_used u2. q \<in> set (hu_live u)}\<rparr>"
      using hr_next [OF r3 hs_done [of p "u2\<lparr>hu_mgr := s3\<rparr>" s4]] e u2(3) by (cases u2) simp
    moreover have "\<exists>res. doheartbeat bret cret m c = Inr (res, c\<lparr>cf_mgr := s4\<rparr>)
        \<and> (res = VIEWERR \<longrightarrow> 0 <s cret) \<and> (res = HB_OK \<longrightarrow> cret \<in> {px_OK, atmostonce_failure, oldsrv_failure})"
      using g Some b d e unfolding gone_def by (auto simp: doheartbeat_def Let_def rpc_failures px_OK_def positive_word)
    ultimately show ?thesis
      by blast
  qed
qed

theorem doheartbeat_balanced_witness:
  "\<exists>res mgr used. doheartbeat 0 oldsrv_failure ''n2'' (the_config ex_mgr) = Inr (res, (the_config ex_mgr)\<lparr>cf_mgr := mgr\<rparr>)
    \<and> handle_reachable \<lparr>hu_mgr = mgr, hu_live = [0], hu_used = used\<rparr>"
  using doheartbeat_balanced [OF ex_handle_reachable, of "the_config ex_mgr" 0 oldsrv_failure "''n2''"]
  by (auto simp: the_config_def)

end
