(* ===== verification/Rsm.thy ===== *)
theory Rsm
  imports Config
begin

text \<open>
  The replicated state machine (\<^verbatim>\<open>rsm.cc\<close>, \<^verbatim>\<open>rsm_protocol.h\<close>): its messages, the choice of the primary, the
  upcall from the configuration, joining, and the recovery thread as a state machine whose steps
  are the stretches of code between two points where \<^verbatim>\<open>rsm_mutex\<close> is free. The parts of the program that
  are still to be filled in (requests and state transfer) are modelled as they stand.
\<close>

section \<open>Messages\<close>

definition rc_OK :: i32 where "rc_OK = 0"
definition rc_ERR :: i32 where "rc_ERR = 1"
definition rc_NOTPRIMARY :: i32 where "rc_NOTPRIMARY = 2"
definition rc_BUSY :: i32 where "rc_BUSY = 3"
definition rc_invoke :: u32 where "rc_invoke = 0x9001"
definition rc_members :: u32 where "rc_members = rc_invoke + 1"

definition rsm_OK :: i32 where "rsm_OK = 0"
definition rsm_ERR :: i32 where "rsm_ERR = 1"
definition rsm_BUSY :: i32 where "rsm_BUSY = 2"
definition rsm_invoke :: u32 where "rsm_invoke = 0x10001"
definition rsm_transferreq :: u32 where "rsm_transferreq = rsm_invoke + 1"
definition rsm_transferdonereq :: u32 where "rsm_transferdonereq = rsm_invoke + 2"
definition rsm_joinreq :: u32 where "rsm_joinreq = rsm_invoke + 3"

definition rt_OK :: i32 where "rt_OK = 0"
definition rt_ERR :: i32 where "rt_ERR = 1"
definition rt_net_repair :: u32 where "rt_net_repair = 0x12001"
definition rt_breakpoint :: u32 where "rt_breakpoint = 0x12002"

record viewstamp =
  vs_vid :: u32
  vs_seqno :: u32

record transferres =
  tr_state :: string
  tr_last :: viewstamp

record joinres =
  jr_log :: string

definition vs_eq :: "viewstamp \<Rightarrow> viewstamp \<Rightarrow> bool" where
  "vs_eq a b \<longleftrightarrow> vs_vid a = vs_vid b \<and> vs_seqno a = vs_seqno b"

definition vs_gt :: "viewstamp \<Rightarrow> viewstamp \<Rightarrow> bool" where
  "vs_gt a b \<longleftrightarrow> vs_vid a > vs_vid b \<or> vs_vid a = vs_vid b \<and> vs_seqno a > vs_seqno b"

definition vs_neq :: "viewstamp \<Rightarrow> viewstamp \<Rightarrow> bool" where
  "vs_neq a b \<longleftrightarrow> vs_vid a \<noteq> vs_vid b \<or> vs_seqno a \<noteq> vs_seqno b"

definition marshall_viewstamp :: "viewstamp \<Rightarrow> marshall \<Rightarrow> marshall res" where
  "marshall_viewstamp v m = bindR (marshall_uint (vs_vid v) m) (marshall_uint (vs_seqno v))"

definition unmarshall_viewstamp :: "unmarshall \<Rightarrow> (viewstamp \<times> unmarshall) res" where
  "unmarshall_viewstamp u =
     bindR (unmarshall_uint u) (\<lambda>(i, u). bindR (unmarshall_uint u) (\<lambda>(n, u).
       Inr (\<lparr>vs_vid = i, vs_seqno = n\<rparr>, u)))"

definition marshall_transferres :: "transferres \<Rightarrow> marshall \<Rightarrow> marshall res" where
  "marshall_transferres r m = bindR (marshall_string (tr_state r) m) (marshall_viewstamp (tr_last r))"

definition unmarshall_transferres :: "unmarshall \<Rightarrow> (transferres \<times> unmarshall) res" where
  "unmarshall_transferres u =
     bindR (unmarshall_string [] u) (\<lambda>(s, u). bindR (unmarshall_viewstamp u) (\<lambda>(v, u).
       Inr (\<lparr>tr_state = s, tr_last = v\<rparr>, u)))"

definition marshall_joinres :: "joinres \<Rightarrow> marshall \<Rightarrow> marshall res" where
  "marshall_joinres r m = marshall_string (jr_log r) m"

definition unmarshall_joinres :: "unmarshall \<Rightarrow> (joinres \<times> unmarshall) res" where
  "unmarshall_joinres u = bindR (unmarshall_string [] u) (\<lambda>(s, u). Inr (\<lparr>jr_log = s\<rparr>, u))"

section \<open>State\<close>

text \<open>
  Where the recovery thread is: about to run with the mutex; waiting for the reply of a join, with
  its handle; sleeping after a failed join; without the mutex in \<^verbatim>\<open>sync_with_backups\<close>; waiting on
  \<^verbatim>\<open>recovery_cond\<close>.
\<close>

datatype rec_pc = Rec_Run | Rec_Joining "nat option" | Rec_Resting | Rec_Locking | Rec_Waiting

text \<open>
  \<open>r_reachable\<close> is the switch of the server \<^verbatim>\<open>rsmrpc\<close>, \<open>r_cut\<close> the clients that were switched off; \<^verbatim>\<open>vid_insync\<close> is not
  initialised by the constructor.
\<close>

record rsm =
  r_cfg :: config
  r_myvs :: viewstamp
  r_last_myvs :: viewstamp
  r_primary :: string
  r_insync :: bool
  r_inviewchange :: bool
  r_vid_commit :: u32
  r_vid_insync :: "u32 option"
  r_partitioned :: bool
  r_dopartition :: bool
  r_break1 :: bool
  r_break2 :: bool
  r_reachable :: bool
  r_cut :: "nat set"
  r_thread :: rec_pc

abbreviation myaddr :: "rsm \<Rightarrow> string" where
  "myaddr r \<equiv> cf_me (r_cfg r)"

definition r_get_view :: "u32 \<Rightarrow> rsm \<Rightarrow> string list \<times> rsm" where
  "r_get_view i r = (let (v, c) = get_view i (r_cfg r) in (v, r\<lparr>r_cfg := c\<rparr>))"

definition r_ismember :: "string \<Rightarrow> u32 \<Rightarrow> rsm \<Rightarrow> bool \<times> rsm" where
  "r_ismember m i r = (let (b, c) = ismember m i (r_cfg r) in (b, r\<lparr>r_cfg := c\<rparr>))"

section \<open>The primary and view changes\<close>

definition set_primary :: "u32 \<Rightarrow> rsm \<Rightarrow> rsm res" where
  "set_primary vid r =
     (let (c, r) = r_get_view vid r; (p, r) = r_get_view (vid - 1) r in
      if c = [] then Inl VerifyFailed
      else if isamember (r_primary r) c then Inr r
      else if p = [] then Inl VerifyFailed
      else case find (\<lambda>x. isamember x c) p of
             None \<Rightarrow> Inl VerifyFailed
           | Some x \<Rightarrow> Inr (r\<lparr>r_primary := x\<rparr>))"

text \<open>\<open>None\<close> is \<^verbatim>\<open>exit(1)\<close>.\<close>

definition breakpoint1 :: "rsm \<Rightarrow> rsm option" where
  "breakpoint1 r = (if r_break1 r then None else Some r)"

definition breakpoint2 :: "rsm \<Rightarrow> rsm option" where
  "breakpoint2 r = (if r_break2 r then None else Some r)"

definition signal_recovery :: "rsm \<Rightarrow> rsm" where
  "signal_recovery r = (if r_thread r = Rec_Waiting then r\<lparr>r_thread := Rec_Run\<rparr> else r)"

definition commit_change_wo :: "u32 \<Rightarrow> rsm \<Rightarrow> rsm option res" where
  "commit_change_wo vid r =
     (if vid \<le> r_vid_commit r then Inr (Some r)
      else
        bindR (set_primary vid (r\<lparr>r_vid_commit := vid, r_inviewchange := True\<rparr>)) (\<lambda>r.
          let (b, r) = r_ismember (myaddr r) (r_vid_commit r) (signal_recovery r) in
          Inr (if b then breakpoint2 r else Some r)))"

definition commit_change :: "u32 \<Rightarrow> rsm \<Rightarrow> rsm option res" where
  "commit_change vid r = commit_change_wo vid r"

text \<open>The initialisers of the constructor.\<close>

definition rsm_init :: "string \<Rightarrow> config \<Rightarrow> rsm" where
  "rsm_init first c =
     \<lparr>r_cfg = c, r_myvs = \<lparr>vs_vid = 0, vs_seqno = 1\<rparr>, r_last_myvs = \<lparr>vs_vid = 0, vs_seqno = 0\<rparr>,
      r_primary = first, r_insync = False, r_inviewchange = True, r_vid_commit = 0, r_vid_insync = None,
      r_partitioned = False, r_dopartition = False, r_break1 = False, r_break2 = False,
      r_reachable = True, r_cut = {}, r_thread = Rec_Run\<rparr>"

definition rsm_new :: "string \<Rightarrow> string \<Rightarrow> string \<Rightarrow> handle_mgr \<Rightarrow> rsm option res" where
  "rsm_new first me logfile mgr =
     bindR (config_new first me logfile mgr) (\<lambda>c.
       if first = me then commit_change 1 (rsm_init first c) else Inr (Some (rsm_init first c)))"

definition amiprimary :: "rsm \<Rightarrow> bool" where
  "amiprimary r \<longleftrightarrow> r_primary r = myaddr r \<and> \<not> r_inviewchange r"

section \<open>Recovery\<close>

text \<open>
  \<^verbatim>\<open>join\<close> up to the point where it gives up the mutex, and from the reply on: \<open>bret\<close> is what \<^verbatim>\<open>bind\<close> and \<open>ret\<close>
  with \<open>log\<close> what the call returns, if they are reached.
\<close>

definition join_begin :: "string \<Rightarrow> rsm \<Rightarrow> rsm res" where
  "join_begin m r =
     bindR (get_handle m (cf_mgr (r_cfg r))) (\<lambda>(hp, mgr).
       Inr (r\<lparr>r_cfg := (r_cfg r)\<lparr>cf_mgr := mgr\<rparr>, r_thread := Rec_Joining hp\<rparr>))"

definition join_end :: "nat option \<Rightarrow> i32 \<Rightarrow> i32 \<Rightarrow> string \<Rightarrow> rsm \<Rightarrow> (bool \<times> rsm) res" where
  "join_end hp bret ret lg r =
     bindR (safebind bret hp (cf_mgr (r_cfg r))) (\<lambda>(cl, mgr).
       let c = (r_cfg r)\<lparr>cf_mgr := mgr\<rparr>; ok = (cl \<noteq> None \<and> ret = rsm_OK) in
       bindR (if ok then cf_restore lg c else Inr c) (\<lambda>c.
       bindR (case hp of None \<Rightarrow> Inr (cf_mgr c) | Some p \<Rightarrow> done_handle p (cf_mgr c)) (\<lambda>mgr.
         Inr (ok, r\<lparr>r_cfg := c\<lparr>cf_mgr := mgr\<rparr>\<rparr>))))"

definition sync_with_backups_end :: "rsm \<Rightarrow> bool \<times> rsm" where
  "sync_with_backups_end r = (let r = r\<lparr>r_insync := True\<rparr>; r = r\<lparr>r_insync := False\<rparr> in (True, r))"

definition sync_with_primary :: "rsm \<Rightarrow> bool \<times> rsm" where
  "sync_with_primary r = (True, r)"

text \<open>What \<^verbatim>\<open>recovery\<close> does after the synchronisation, up to the wait.\<close>

definition recovery_synced :: "bool \<times> rsm \<Rightarrow> rsm" where
  "recovery_synced br =
     (let (b, r) = br in
      if r_vid_insync r \<noteq> Some (r_vid_commit r) then r\<lparr>r_thread := Rec_Run\<rparr>
      else (if b then r\<lparr>r_myvs := \<lparr>vs_vid = r_vid_commit r, vs_seqno = 1\<rparr>, r_inviewchange := False\<rparr> else r)
             \<lparr>r_thread := Rec_Waiting\<rparr>)"

definition recovery_head :: "rsm \<Rightarrow> rsm res" where
  "recovery_head r =
     (let (b, r) = r_ismember (myaddr r) (r_vid_commit r) r in
      if \<not> b then join_begin (r_primary r) r
      else
        let r = r\<lparr>r_vid_insync := Some (r_vid_commit r)\<rparr> in
        if r_primary r = myaddr r then Inr (r\<lparr>r_thread := Rec_Locking\<rparr>)
        else Inr (recovery_synced (sync_with_primary r)))"

definition recovery_joined :: "bool \<times> rsm \<Rightarrow> rsm option res" where
  "recovery_joined br =
     (let (b, r) = br in
      if b then commit_change_wo (cf_myvid (r_cfg r)) (r\<lparr>r_thread := Rec_Run\<rparr>)
      else Inr (Some (r\<lparr>r_thread := Rec_Resting\<rparr>)))"

definition recovery_step :: "i32 \<Rightarrow> i32 \<Rightarrow> string \<Rightarrow> rsm \<Rightarrow> rsm option res" where
  "recovery_step bret ret lg r =
     (case r_thread r of
        Rec_Run \<Rightarrow> bindR (recovery_head r) (\<lambda>r. Inr (Some r))
      | Rec_Joining hp \<Rightarrow> bindR (join_end hp bret ret lg r) recovery_joined
      | Rec_Resting \<Rightarrow> Inr (Some (r\<lparr>r_thread := Rec_Run\<rparr>))
      | Rec_Locking \<Rightarrow> Inr (Some (recovery_synced (sync_with_backups_end r)))
      | Rec_Waiting \<Rightarrow> Inr (Some (r\<lparr>r_thread := Rec_Run\<rparr>)))"

section \<open>Requests\<close>

definition client_invoke :: "i32 \<Rightarrow> string \<Rightarrow> string \<Rightarrow> rsm \<Rightarrow> i32 \<times> string \<times> rsm" where
  "client_invoke procno req s r = (rc_OK, s, r)"

definition r_invoke :: "i32 \<Rightarrow> viewstamp \<Rightarrow> string \<Rightarrow> rsm \<Rightarrow> i32 \<times> rsm" where
  "r_invoke proc vs req r = (rsm_OK, r)"

definition transferreq :: "string \<Rightarrow> viewstamp \<Rightarrow> u32 \<Rightarrow> transferres \<Rightarrow> rsm \<Rightarrow> i32 \<times> transferres \<times> rsm" where
  "transferreq src lst vid t r = (rsm_OK, t, r)"

definition transferdonereq :: "string \<Rightarrow> u32 \<Rightarrow> rsm \<Rightarrow> i32 \<times> rsm" where
  "transferdonereq m vid r = (rsm_OK, r)"

text \<open>
  \<open>between\<close> is what other threads do while \<^verbatim>\<open>config::add\<close> runs without the mutex; \<open>None\<close> is the exit of the
  proposer at a breakpoint.
\<close>

definition joinreq :: "(rsm \<Rightarrow> rsm) \<Rightarrow> string \<Rightarrow> viewstamp \<Rightarrow> rsm \<Rightarrow> (i32 \<times> joinres \<times> rsm) option" where
  "joinreq between m lst r =
     (let (b, r) = r_ismember m (r_vid_commit r) r in
      if b then Some (rsm_OK, \<lparr>jr_log = ac_dump (cf_acc (r_cfg r))\<rparr>, r)
      else if myaddr r \<noteq> r_primary r then Some (rsm_BUSY, \<lparr>jr_log = []\<rparr>, r)
      else
        (case cf_add m (r_vid_commit r) (r_cfg r) of
           None \<Rightarrow> None
         | Some (succ, c) \<Rightarrow>
             let r = between (r\<lparr>r_cfg := c\<rparr>); (b, r) = r_ismember m (cf_myvid (r_cfg r)) r in
             if b then Some (rsm_OK, \<lparr>jr_log = ac_dump (cf_acc (r_cfg r))\<rparr>, r)
             else Some (rsm_BUSY, \<lparr>jr_log = []\<rparr>, r)))"

definition client_members :: "rsm \<Rightarrow> i32 \<times> string list \<times> rsm" where
  "client_members r = (let (m, r) = r_get_view (r_vid_commit r) r in (rc_OK, m @ [r_primary r], r))"

section \<open>Testing\<close>

fun repair_members ::
  "(string \<Rightarrow> i32) \<Rightarrow> bool \<Rightarrow> string \<Rightarrow> string list \<Rightarrow> handle_mgr \<times> nat set \<Rightarrow> (handle_mgr \<times> nat set) res" where
  "repair_members bret heal me [] s = Inr s"
| "repair_members bret heal me (m # ms) (mgr, off) =
     (if m \<noteq> me
      then
        bindR (get_handle m mgr) (\<lambda>(hp, mgr).
        bindR (safebind (bret m) hp mgr) (\<lambda>(cl, mgr).
        bindR (if cl = None then Inr (mgr, off)
               else bindR (safebind (bret m) hp mgr) (\<lambda>(cl, mgr).
                 case cl of
                   None \<Rightarrow> Inl NullDeref
                 | Some k \<Rightarrow> Inr (mgr, if heal then off - {k} else insert k off))) (\<lambda>(mgr, off).
        bindR (case hp of None \<Rightarrow> Inr mgr | Some p \<Rightarrow> done_handle p mgr) (\<lambda>mgr.
          repair_members bret heal me ms (mgr, off)))))
      else repair_members bret heal me ms (mgr, off))"

definition net_repair_wo :: "(string \<Rightarrow> i32) \<Rightarrow> bool \<Rightarrow> rsm \<Rightarrow> rsm res" where
  "net_repair_wo bret heal r =
     (let (m, r) = r_get_view (r_vid_commit r) r in
      bindR (repair_members bret heal (myaddr r) m (cf_mgr (r_cfg r), r_cut r)) (\<lambda>(mgr, off).
        Inr (r\<lparr>r_cfg := (r_cfg r)\<lparr>cf_mgr := mgr\<rparr>, r_cut := off, r_reachable := heal\<rparr>)))"

definition test_net_repairreq :: "(string \<Rightarrow> i32) \<Rightarrow> i32 \<Rightarrow> rsm \<Rightarrow> (i32 \<times> rsm) res" where
  "test_net_repairreq bret heal r =
     (if heal \<noteq> 0
      then bindR (net_repair_wo bret True r) (\<lambda>r. Inr (rt_OK, r\<lparr>r_partitioned := False\<rparr>))
      else Inr (rt_OK, r\<lparr>r_dopartition := True, r_partitioned := False\<rparr>))"

definition partition1 :: "(string \<Rightarrow> i32) \<Rightarrow> rsm \<Rightarrow> rsm res" where
  "partition1 bret r =
     (if r_dopartition r
      then bindR (net_repair_wo bret False r) (\<lambda>r. Inr (r\<lparr>r_dopartition := False, r_partitioned := True\<rparr>))
      else Inr r)"

definition breakpointreq :: "i32 \<Rightarrow> rsm \<Rightarrow> i32 \<times> rsm" where
  "breakpointreq b r =
     (if b = 1 then (rt_OK, r\<lparr>r_break1 := True\<rparr>)
      else if b = 2 then (rt_OK, r\<lparr>r_break2 := True\<rparr>)
      else if b = 3 \<or> b = 4
      then (rt_OK, r\<lparr>r_cfg := (r_cfg r)\<lparr>cf_pro := breakpoint (sint b) (cf_pro (r_cfg r))\<rparr>\<rparr>)
      else (rt_ERR, r))"

section \<open>The wire format\<close>

definition enc_viewstamp :: "viewstamp \<Rightarrow> u8 list" where
  "enc_viewstamp v = be32 (vs_vid v) @ be32 (vs_seqno v)"

definition enc_transferres :: "transferres \<Rightarrow> u8 list" where
  "enc_transferres r = enc_string (tr_state r) @ enc_viewstamp (tr_last r)"

interpretation uint_uint: two_codecs marshall_uint unmarshall_uint be32 "\<lambda>_. True"
  marshall_uint unmarshall_uint be32 "\<lambda>_. True"
  by unfold_locales

interpretation viewstamp_codec: codec marshall_viewstamp unmarshall_viewstamp enc_viewstamp "\<lambda>_. True"
  using uint_uint.struct_codec [of "\<lambda>i n. \<lparr>vs_vid = i, vs_seqno = n\<rparr>" vs_vid vs_seqno]
  unfolding marshall_viewstamp_def [abs_def] unmarshall_viewstamp_def [abs_def] enc_viewstamp_def [abs_def] by simp

interpretation string_viewstamp: two_codecs marshall_string "unmarshall_string []" enc_string str_ok
  marshall_viewstamp unmarshall_viewstamp enc_viewstamp "\<lambda>_. True"
  by unfold_locales

interpretation transferres_codec:
  codec marshall_transferres unmarshall_transferres enc_transferres "\<lambda>r. str_ok (tr_state r)"
  using string_viewstamp.struct_codec [of "\<lambda>s v. \<lparr>tr_state = s, tr_last = v\<rparr>" tr_state tr_last]
  unfolding marshall_transferres_def [abs_def] unmarshall_transferres_def [abs_def] enc_transferres_def [abs_def] by simp

interpretation joinres_codec: codec marshall_joinres unmarshall_joinres "\<lambda>r. enc_string (jr_log r)" "\<lambda>r. str_ok (jr_log r)"
proof (unfold_locales, goal_cases)
  case (1 m r)
  then show ?case
    unfolding marshall_joinres_def by (intro string_codec.put_appends)
next
  case (2 u r s)
  then show ?case
    using string_codec.get_enc [OF 2] by (simp add: unmarshall_joinres_def)
qed

section \<open>Views as the machine sees them\<close>

definition r_view :: "rsm \<Rightarrow> u32 \<Rightarrow> string list" where
  "r_view r i = members (decided (cf_acc (r_cfg r)) i)"

lemma r_view_upd [simp]:
  "r_view (r\<lparr>r_thread := t\<rparr>) = r_view r" "r_view (r\<lparr>r_vid_insync := v\<rparr>) = r_view r" "r_view (r\<lparr>r_insync := b\<rparr>) = r_view r"
  "r_view (r\<lparr>r_myvs := vs\<rparr>) = r_view r" "r_view (r\<lparr>r_inviewchange := b\<rparr>) = r_view r"
  "r_view (r\<lparr>r_vid_commit := i\<rparr>) = r_view r" "r_view (r\<lparr>r_primary := m\<rparr>) = r_view r"
  by (simp_all add: r_view_def fun_eq_iff)

text \<open>Reading views leaves a configuration that answers the same.\<close>

definition cfg_like :: "config \<Rightarrow> config \<Rightarrow> bool" where
  "cfg_like c c' \<longleftrightarrow> decided (cf_acc c') = decided (cf_acc c) \<and> instance_h (cf_acc c') = instance_h (cf_acc c)
     \<and> cf_me c' = cf_me c \<and> cf_myvid c' = cf_myvid c \<and> cf_mems c' = cf_mems c"

lemma cfg_like_refl [simp]: "cfg_like c c"
  by (simp add: cfg_like_def)

lemma cfg_like_trans: "cfg_like a b \<Longrightarrow> cfg_like b c \<Longrightarrow> cfg_like a c"
  by (simp add: cfg_like_def)

lemma r_get_viewE:
  obtains c' where "r_get_view i r = (r_view r i, r\<lparr>r_cfg := c'\<rparr>)" "cfg_like (r_cfg r) c'"
proof -
  obtain w a where a: "ac_value i (cf_acc (r_cfg r)) = (w, a)"
    by (cases "ac_value i (cf_acc (r_cfg r))")
  show thesis
    using ac_value_keeps [OF a] a
    by (intro that [of "(r_cfg r)\<lparr>cf_acc := a\<rparr>"])
      (simp_all add: r_get_view_def get_view_def get_view_wo_def r_view_def cfg_like_def)
qed

lemma r_ismemberE:
  obtains c' where "r_ismember m i r = (isamember m (r_view r i), r\<lparr>r_cfg := c'\<rparr>)" "cfg_like (r_cfg r) c'"
proof (rule r_get_viewE [of i r])
  fix c'
  assume "r_get_view i r = (r_view r i, r\<lparr>r_cfg := c'\<rparr>)" "cfg_like (r_cfg r) c'"
  then show thesis
    by (intro that [of c'])
      (auto simp: r_get_view_def get_view_def r_ismember_def ismember_def split: prod.splits dest: arg_cong [of _ _ r_cfg])
qed

text \<open>The rule for the primary, on the members of the new and of the previous view.\<close>

definition next_primary :: "string list \<Rightarrow> string list \<Rightarrow> string \<Rightarrow> string option" where
  "next_primary c p m = (if c = [] then None else if isamember m c then Some m else find (\<lambda>x. isamember x c) p)"

lemma next_primary_member: "next_primary c p m = Some x \<Longrightarrow> isamember x c"
  by (auto simp: next_primary_def find_Some_iff split: if_splits)

lemma set_primary_spec:
  "case next_primary (r_view r vid) (r_view r (vid - 1)) (r_primary r) of
     None \<Rightarrow> set_primary vid r = Inl VerifyFailed
   | Some x \<Rightarrow> \<exists>c'. set_primary vid r = Inr (r\<lparr>r_cfg := c', r_primary := x\<rparr>) \<and> cfg_like (r_cfg r) c'"
proof -
  obtain c1 where c1: "r_get_view vid r = (r_view r vid, r\<lparr>r_cfg := c1\<rparr>)" "cfg_like (r_cfg r) c1"
    by (rule r_get_viewE)
  obtain c2 where c2: "r_get_view (vid - 1) (r\<lparr>r_cfg := c1\<rparr>) = (r_view (r\<lparr>r_cfg := c1\<rparr>) (vid - 1), r\<lparr>r_cfg := c2\<rparr>)" "cfg_like c1 c2"
    by (rule r_get_viewE [of "vid - 1" "r\<lparr>r_cfg := c1\<rparr>"]) simp
  have v: "r_view (r\<lparr>r_cfg := c1\<rparr>) (vid - 1) = r_view r (vid - 1)"
    using c1(2) by (simp add: r_view_def cfg_like_def)
  have e: "set_primary vid r =
      (if r_view r vid = [] then Inl VerifyFailed
       else if isamember (r_primary r) (r_view r vid) then Inr (r\<lparr>r_cfg := c2\<rparr>)
       else if r_view r (vid - 1) = [] then Inl VerifyFailed
       else case find (\<lambda>x. isamember x (r_view r vid)) (r_view r (vid - 1)) of
         None \<Rightarrow> Inl VerifyFailed | Some x \<Rightarrow> Inr (r\<lparr>r_cfg := c2, r_primary := x\<rparr>))"
    unfolding set_primary_def c1(1) Let_def prod.case c2(1) v by simp
  have "cfg_like (r_cfg r) c2"
    using c1(2) c2(2) by (rule cfg_like_trans)
  then show ?thesis
    unfolding e next_primary_def
    by (cases r; cases "find (\<lambda>x. isamember x (r_view r vid)) (r_view r (vid - 1))") auto
qed

lemma commit_change_spec:
  assumes "r_vid_commit r < vid"
  shows "case next_primary (r_view r vid) (r_view r (vid - 1)) (r_primary r) of
     None \<Rightarrow> commit_change_wo vid r = Inl VerifyFailed
   | Some x \<Rightarrow> \<exists>c'. cfg_like (r_cfg r) c' \<and>
       commit_change_wo vid r =
         Inr (if isamember (myaddr r) (r_view r vid) \<and> r_break2 r then None
              else Some (signal_recovery (r\<lparr>r_vid_commit := vid, r_inviewchange := True, r_primary := x, r_cfg := c'\<rparr>)))"
proof -
  let ?r = "r\<lparr>r_vid_commit := vid, r_inviewchange := True\<rparr>"
  have v: "r_view ?r = r_view r" "r_primary ?r = r_primary r" "r_cfg ?r = r_cfg r"
    by (auto simp: r_view_def)
  note spec = set_primary_spec [of vid ?r, unfolded v]
  show ?thesis
  proof (cases "next_primary (r_view r vid) (r_view r (vid - 1)) (r_primary r)")
    case None
    then show ?thesis
      using spec assms by (simp add: commit_change_wo_def not_le)
  next
    case (Some x)
    then obtain c1 where c1: "set_primary vid ?r = Inr (?r\<lparr>r_cfg := c1, r_primary := x\<rparr>)" "cfg_like (r_cfg r) c1"
      using spec by auto
    let ?s = "signal_recovery (?r\<lparr>r_cfg := c1, r_primary := x\<rparr>)"
    obtain c2 where c2: "r_ismember (myaddr ?s) (r_vid_commit ?s) ?s =
        (isamember (myaddr ?s) (r_view ?s (r_vid_commit ?s)), ?s\<lparr>r_cfg := c2\<rparr>)" "cfg_like (r_cfg ?s) c2"
      by (rule r_ismemberE)
    have s: "r_cfg ?s = c1" "r_vid_commit ?s = vid" "r_break2 ?s = r_break2 r"
      by (simp_all add: signal_recovery_def)
    have like: "cfg_like (r_cfg r) c2"
      using c1(2) c2(2) unfolding s by (rule cfg_like_trans)
    have m: "isamember (myaddr ?s) (r_view ?s (r_vid_commit ?s)) \<longleftrightarrow> isamember (myaddr r) (r_view r vid)"
      using c1(2) unfolding s r_view_def by (simp add: cfg_like_def)
    have "commit_change_wo vid r =
        Inr (if isamember (myaddr r) (r_view r vid) \<and> r_break2 r then None else Some (?s\<lparr>r_cfg := c2\<rparr>))"
      using assms c1(1) c2(1) m s by (simp add: commit_change_wo_def not_le breakpoint2_def)
    moreover have "?s\<lparr>r_cfg := c2\<rparr> = signal_recovery (r\<lparr>r_vid_commit := vid, r_inviewchange := True, r_primary := x, r_cfg := c2\<rparr>)"
      by (cases r) (simp add: signal_recovery_def)
    ultimately show ?thesis
      using Some like by auto
  qed
qed

lemma commit_change_like:
  assumes "commit_change_wo vid r = Inr (Some r')"
  shows "cfg_like (r_cfg r) (r_cfg r')"
proof (cases "vid \<le> r_vid_commit r")
  case True
  then show ?thesis
    using assms by (simp add: commit_change_wo_def)
next
  case False
  then have "r_vid_commit r < vid"
    by simp
  then show ?thesis
    using commit_change_spec [of r vid] assms by (auto simp: signal_recovery_def split: option.splits if_splits)
qed

section \<open>The machine among the threads of its node\<close>

text \<open>
  How the decisions of a node develop: the highest instance does not sink and the views that are
  known stay what they are.
\<close>

definition grows :: "config \<Rightarrow> config \<Rightarrow> bool" where
  "grows c c' \<longleftrightarrow> cf_me c' = cf_me c \<and> instance_h (cf_acc c) \<le> instance_h (cf_acc c') \<and>
     (\<forall>i \<le> instance_h (cf_acc c). members (decided (cf_acc c) i) \<noteq> [] \<longrightarrow>
        members (decided (cf_acc c') i) = members (decided (cf_acc c) i))"

text \<open>
  The steps of all threads. The acceptor decides, its upcalls arrive at any later time, views are
  looked up and proposed (which is what \<open>joinreq\<close> and the heartbeat thread do), the tester interferes, and the
  recovery thread runs. The condition on its steps is about the log in a reply to a join: it agrees with what
  this node knows to be decided, which is what Paxos is for.
\<close>

inductive rsm_step :: "rsm \<Rightarrow> rsm \<Rightarrow> bool" where
  rs_recovery: "recovery_step bret ret lg r = Inr (Some r') \<Longrightarrow> grows (r_cfg r) (r_cfg r') \<Longrightarrow> rsm_step r r'"
| rs_decide: "cf_commit i v (r_cfg r) = Inr c \<Longrightarrow> rsm_step r (r\<lparr>r_cfg := c\<rparr>)"
| rs_upcall: "vid \<le> cf_myvid (r_cfg r) \<Longrightarrow> commit_change vid r = Inr (Some r') \<Longrightarrow> rsm_step r r'"
| rs_ismember: "r_ismember m i r = (b, r') \<Longrightarrow> rsm_step r r'"
| rs_members: "client_members r = (s, ms, r') \<Longrightarrow> rsm_step r r'"
| rs_add: "cf_add m vid (r_cfg r) = Some (b, c) \<Longrightarrow> rsm_step r (r\<lparr>r_cfg := c\<rparr>)"
| rs_remove: "remove_wo m (r_cfg r) = Some (b, c) \<Longrightarrow> rsm_step r (r\<lparr>r_cfg := c\<rparr>)"
| rs_beat: "doheartbeat bret ret m (r_cfg r) = Inr (h, c) \<Longrightarrow> rsm_step r (r\<lparr>r_cfg := c\<rparr>)"
| rs_repair: "test_net_repairreq brets heal r = Inr (s, r') \<Longrightarrow> rsm_step r r'"
| rs_partition: "partition1 brets r = Inr r' \<Longrightarrow> rsm_step r r'"
| rs_breakpoint: "breakpointreq k r = (s, r') \<Longrightarrow> rsm_step r r'"

inductive rsm_reachable :: "rsm \<Rightarrow> bool" where
  rr_new: "rsm_new first me lg mgr = Inr (Some r) \<Longrightarrow> rsm_reachable r"
| rr_step: "rsm_reachable r \<Longrightarrow> rsm_step r r' \<Longrightarrow> rsm_reachable r'"

section \<open>Invariant\<close>

definition rsm_inv :: "rsm \<Rightarrow> bool" where
  "rsm_inv r \<longleftrightarrow>
     cf_myvid (r_cfg r) = instance_h (cf_acc (r_cfg r)) \<and> r_vid_commit r \<le> instance_h (cf_acc (r_cfg r)) \<and>
     (r_vid_commit r \<noteq> 0 \<longrightarrow> isamember (r_primary r) (r_view r (r_vid_commit r))) \<and>
     (\<not> r_inviewchange r \<longrightarrow> isamember (myaddr r) (r_view r (r_vid_commit r)) \<and> vs_vid (r_myvs r) = r_vid_commit r
        \<and> r_vid_insync r = Some (r_vid_commit r)) \<and>
     (case r_thread r of
        Rec_Run \<Rightarrow> True
      | Rec_Joining hp \<Rightarrow> r_inviewchange r
      | Rec_Resting \<Rightarrow> r_inviewchange r
      | Rec_Locking \<Rightarrow> (\<exists>v \<le> r_vid_commit r. r_vid_insync r = Some v \<and> isamember (myaddr r) (r_view r v))
      | Rec_Waiting \<Rightarrow> \<not> r_inviewchange r)"

lemma isamember_nonempty: "isamember m v \<Longrightarrow> v \<noteq> []"
  by (auto simp: isamember_def)

lemma grows_member:
  assumes "grows (r_cfg r) c" "isamember m (r_view r i)" "i \<le> instance_h (cf_acc (r_cfg r))"
  shows "isamember m (r_view (r\<lparr>r_cfg := c\<rparr>) i)"
  using assms isamember_nonempty [OF assms(2)] by (simp add: grows_def r_view_def)

lemma cfg_like_grows: "cfg_like c c' \<Longrightarrow> grows c c'"
  by (simp add: cfg_like_def grows_def)

lemma grows_refl [simp]: "grows c c"
  by (simp add: grows_def)

lemma rsm_inv_cfg:
  assumes inv: "rsm_inv r" and c: "grows (r_cfg r) c" "cf_myvid c = instance_h (cf_acc c)"
  shows "rsm_inv (r\<lparr>r_cfg := c\<rparr>)"
proof -
  have le: "r_vid_commit r \<le> instance_h (cf_acc (r_cfg r))"
    using inv by (simp add: rsm_inv_def)
  have me: "cf_me c = myaddr r" and up: "instance_h (cf_acc (r_cfg r)) \<le> instance_h (cf_acc c)"
    using c(1) by (simp_all add: grows_def)
  have keep: "isamember m (r_view (r\<lparr>r_cfg := c\<rparr>) i)" if "isamember m (r_view r i)" "i \<le> r_vid_commit r" for m i
    using grows_member [OF c(1) that(1)] that(2) le by (metis order_trans)
  have thread: "case r_thread r of
        Rec_Run \<Rightarrow> True
      | Rec_Joining hp \<Rightarrow> r_inviewchange r
      | Rec_Resting \<Rightarrow> r_inviewchange r
      | Rec_Locking \<Rightarrow> (\<exists>v \<le> r_vid_commit r. r_vid_insync r = Some v \<and> isamember (myaddr r) (r_view (r\<lparr>r_cfg := c\<rparr>) v))
      | Rec_Waiting \<Rightarrow> \<not> r_inviewchange r"
    using inv keep unfolding rsm_inv_def by (cases "r_thread r") auto
  have now: "isamember m (r_view (r\<lparr>r_cfg := c\<rparr>) (r_vid_commit r))" if "isamember m (r_view r (r_vid_commit r))" for m
    by (rule keep [OF that order_refl])
  have "r_vid_commit r \<le> instance_h (cf_acc c)"
    using le up by (rule order_trans)
  moreover have "r_vid_commit r \<noteq> 0 \<longrightarrow> isamember (r_primary r) (r_view (r\<lparr>r_cfg := c\<rparr>) (r_vid_commit r))"
      "\<not> r_inviewchange r \<longrightarrow> isamember (myaddr r) (r_view (r\<lparr>r_cfg := c\<rparr>) (r_vid_commit r)) \<and> vs_vid (r_myvs r) = r_vid_commit r
        \<and> r_vid_insync r = Some (r_vid_commit r)"
    using inv now unfolding rsm_inv_def by blast+
  ultimately show ?thesis
    using thread c(2) unfolding rsm_inv_def by (cases "r_thread r") (simp_all add: me)
qed

lemma rsm_inv_myvid: "rsm_inv r \<Longrightarrow> cf_myvid (r_cfg r) = instance_h (cf_acc (r_cfg r))"
  by (simp add: rsm_inv_def)

lemma rsm_inv_like: "rsm_inv r \<Longrightarrow> cfg_like (r_cfg r) c \<Longrightarrow> rsm_inv (r\<lparr>r_cfg := c\<rparr>)"
  by (rule rsm_inv_cfg) (simp_all add: cfg_like_grows rsm_inv_myvid cfg_like_def)

text \<open>The fields that the invariant does not read.\<close>

lemma rsm_inv_other:
  "rsm_inv (r\<lparr>r_insync := b\<rparr>) = rsm_inv r" "rsm_inv (r\<lparr>r_partitioned := b\<rparr>) = rsm_inv r"
  "rsm_inv (r\<lparr>r_dopartition := b\<rparr>) = rsm_inv r" "rsm_inv (r\<lparr>r_break1 := b\<rparr>) = rsm_inv r"
  "rsm_inv (r\<lparr>r_break2 := b\<rparr>) = rsm_inv r" "rsm_inv (r\<lparr>r_reachable := b\<rparr>) = rsm_inv r"
  "rsm_inv (r\<lparr>r_cut := s\<rparr>) = rsm_inv r"
  by (simp_all add: rsm_inv_def r_view_def cong: rec_pc.case_cong)

lemma rsm_inv_commit:
  assumes inv: "rsm_inv r" and vid: "vid \<le> instance_h (cf_acc (r_cfg r))" and c: "commit_change_wo vid r = Inr (Some r')"
  shows "rsm_inv r'"
proof (cases "vid \<le> r_vid_commit r")
  case True
  then show ?thesis
    using inv c by (simp add: commit_change_wo_def)
next
  case False
  then have lt: "r_vid_commit r < vid"
    by simp
  obtain x c' where x: "next_primary (r_view r vid) (r_view r (vid - 1)) (r_primary r) = Some x" "cfg_like (r_cfg r) c'"
      "r' = signal_recovery (r\<lparr>r_vid_commit := vid, r_inviewchange := True, r_primary := x, r_cfg := c'\<rparr>)"
    using commit_change_spec [OF lt] c by (auto split: option.splits if_splits)
  let ?s = "r\<lparr>r_vid_commit := vid, r_inviewchange := True, r_primary := x\<rparr>"
  have m: "isamember x (r_view r vid)"
    using x(1) by (rule next_primary_member)
  have v: "r_view (signal_recovery ?s) = r_view r"
    by (auto simp: r_view_def signal_recovery_def)
  have lock: "\<exists>v \<le> vid. r_vid_insync r = Some v \<and> isamember (myaddr r) (r_view r v)" if "r_thread r = Rec_Locking"
    using inv that lt unfolding rsm_inv_def by (auto intro: order_trans less_imp_le)
  have "rsm_inv (signal_recovery ?s)"
    unfolding rsm_inv_def v using rsm_inv_myvid [OF inv] vid m lock
    by (cases "r_thread r") (auto simp: signal_recovery_def)
  moreover have "r' = (signal_recovery ?s)\<lparr>r_cfg := c'\<rparr>"
    using x(3) by (cases r) (simp add: signal_recovery_def)
  moreover have "r_cfg (signal_recovery ?s) = r_cfg r"
    by (simp add: signal_recovery_def)
  ultimately show ?thesis
    using rsm_inv_like x(2) by metis
qed

lemma rsm_inv_synced:
  assumes "rsm_inv r" "r_vid_insync r = Some v" "v \<le> r_vid_commit r" "isamember (myaddr r) (r_view r v)"
  shows "rsm_inv (recovery_synced (True, r\<lparr>r_insync := s\<rparr>))"
proof (cases "v = r_vid_commit r")
  case True
  then show ?thesis
    using assms by (simp add: recovery_synced_def rsm_inv_def r_view_def)
next
  case False
  then show ?thesis
    using assms by (simp add: recovery_synced_def rsm_inv_def r_view_def)
qed

lemma rsm_inv_head:
  assumes inv: "rsm_inv r" "r_thread r = Rec_Run" and h: "recovery_head r = Inr r'"
  shows "rsm_inv r'"
proof -
  obtain c where c: "r_ismember (myaddr r) (r_vid_commit r) r = (isamember (myaddr r) (r_view r (r_vid_commit r)), r\<lparr>r_cfg := c\<rparr>)"
      "cfg_like (r_cfg r) c"
    by (rule r_ismemberE)
  let ?r = "r\<lparr>r_cfg := c\<rparr>"
  have i: "rsm_inv ?r"
    by (rule rsm_inv_like [OF inv(1) c(2)])
  have v: "r_view ?r = r_view r" "myaddr ?r = myaddr r"
    using c(2) by (auto simp: r_view_def cfg_like_def)
  show ?thesis
  proof (cases "isamember (myaddr r) (r_view r (r_vid_commit r))")
    case False
    then have "r_inviewchange r"
      using inv(1) by (auto simp: rsm_inv_def)
    moreover obtain hp mgr where "r' = ?r\<lparr>r_cfg := c\<lparr>cf_mgr := mgr\<rparr>, r_thread := Rec_Joining hp\<rparr>"
      using h c(1) False by (auto simp: recovery_head_def join_begin_def returns)
    moreover have "rsm_inv (?r\<lparr>r_cfg := c\<lparr>cf_mgr := mgr\<rparr>\<rparr>)" for mgr
      by (rule rsm_inv_like [OF i]) (simp add: cfg_like_def)
    ultimately show ?thesis
      by (simp add: rsm_inv_def r_view_def)
  next
    case True
    let ?s = "?r\<lparr>r_vid_insync := Some (r_vid_commit r)\<rparr>"
    have s: "rsm_inv ?s" "isamember (myaddr ?s) (r_view ?s (r_vid_commit r))"
      using i True v inv(2) by (simp_all add: rsm_inv_def)
    have "r' = (if r_primary r = myaddr ?r then ?s\<lparr>r_thread := Rec_Locking\<rparr> else recovery_synced (True, ?s))"
      using h c(1) True by (auto simp: recovery_head_def sync_with_primary_def Let_def)
    moreover have "rsm_inv (?s\<lparr>r_thread := Rec_Locking\<rparr>)"
      using s by (simp add: rsm_inv_def r_view_def)
    moreover have "rsm_inv (recovery_synced (True, ?s\<lparr>r_insync := r_insync ?s\<rparr>))"
      using s(2) by (intro rsm_inv_synced [OF s(1), of "r_vid_commit r"]) simp_all
    ultimately show ?thesis
      by auto
  qed
qed

lemma restore_myvid:
  assumes "cf_restore s c = Inr c'" "cf_myvid c = instance_h (cf_acc c)" "instance_h (cf_acc c) \<le> instance_h (cf_acc c')"
  shows "cf_myvid c' = instance_h (cf_acc c')"
proof -
  obtain a where a: "c' = reconstruct (c\<lparr>cf_acc := a\<rparr>)"
    using assms(1) by (auto simp: cf_restore_def returns)
  show ?thesis
  proof (cases "instance_h a = 0")
    case True
    then show ?thesis
      using assms(2,3) by (simp add: a reconstruct_def)
  next
    case False
    then show ?thesis
      using cfg_inv_reconstruct [of "c\<lparr>cf_acc := a\<rparr>"] by (simp add: a cfg_inv_def)
  qed
qed

lemma reconstruct_view:
  assumes "instance_h (cf_acc c) \<noteq> 0"
  shows "decided (cf_acc (reconstruct c)) = decided (cf_acc c)" "cf_myvid (reconstruct c) = instance_h (cf_acc c)"
    "cf_mems (reconstruct c) = members (decided (cf_acc c) (instance_h (cf_acc c)))"
proof -
  obtain w a where a: "ac_value (instance_h (cf_acc c)) (cf_acc c) = (w, a)"
    by (cases "ac_value (instance_h (cf_acc c)) (cf_acc c)")
  then have "reconstruct c = c\<lparr>cf_myvid := instance_h (cf_acc c), cf_acc := a, cf_mems := members w\<rparr>"
    using assms by (simp add: reconstruct_def get_view_wo_def word_neq_0_conv)
  then show "decided (cf_acc (reconstruct c)) = decided (cf_acc c)" "cf_myvid (reconstruct c) = instance_h (cf_acc c)"
      "cf_mems (reconstruct c) = members (decided (cf_acc c) (instance_h (cf_acc c)))"
    using ac_value_keeps [OF a] by simp_all
qed

lemma join_endE:
  assumes "join_end hp bret ret lg r = Inr (b, r1)"
  obtains mgr c1 mgr' where "(if b then cf_restore lg ((r_cfg r)\<lparr>cf_mgr := mgr\<rparr>) else Inr ((r_cfg r)\<lparr>cf_mgr := mgr\<rparr>)) = Inr c1"
    "r1 = r\<lparr>r_cfg := c1\<lparr>cf_mgr := mgr'\<rparr>\<rparr>" "b \<Longrightarrow> ret = rsm_OK"
proof -
  obtain cl mgr where "safebind bret hp (cf_mgr (r_cfg r)) = Inr (cl, mgr)"
    using assms by (auto simp: join_end_def returns)
  then show thesis
    using assms that [of mgr] by (cases "cl \<noteq> None \<and> ret = rsm_OK") (auto simp: join_end_def returns Let_def)
qed

lemma cfg_like_mgr [simp]: "cfg_like c (c\<lparr>cf_mgr := mgr\<rparr>)"
  by (simp add: cfg_like_def)

lemma rsm_inv_joined:
  assumes inv: "rsm_inv r" "r_inviewchange r" and j: "join_end hp bret ret lg r = Inr (b, r1)" "recovery_joined (b, r1) = Inr (Some r')"
    and g: "grows (r_cfg r) (r_cfg r')"
  shows "rsm_inv r'"
proof -
  obtain mgr c1 mgr' where e: "(if b then cf_restore lg ((r_cfg r)\<lparr>cf_mgr := mgr\<rparr>) else Inr ((r_cfg r)\<lparr>cf_mgr := mgr\<rparr>)) = Inr c1"
      "r1 = r\<lparr>r_cfg := c1\<lparr>cf_mgr := mgr'\<rparr>\<rparr>"
    by (rule join_endE [OF j(1)])
  define c where "c = c1\<lparr>cf_mgr := mgr'\<rparr>"
  have r1: "r1 = r\<lparr>r_cfg := c\<rparr>" and like1: "cfg_like c1 c"
    using e(2) by (simp_all add: c_def)
  show ?thesis
  proof (cases b)
    case False
    have "cfg_like (r_cfg r) c"
      using e(1) False by (auto simp: c_def cfg_like_def)
    then have "rsm_inv r1"
      unfolding r1 by (rule rsm_inv_like [OF inv(1)])
    moreover have "r' = r1\<lparr>r_thread := Rec_Resting\<rparr>"
      using j(2) False by (simp add: recovery_joined_def)
    ultimately show ?thesis
      using inv(2) r1 by (simp add: rsm_inv_def)
  next
    case True
    have commit: "commit_change_wo (cf_myvid c) (r1\<lparr>r_thread := Rec_Run\<rparr>) = Inr (Some r')"
      using j(2) True r1 by (simp add: recovery_joined_def)
    have like: "cfg_like c (r_cfg r')"
      using commit_change_like [OF commit] r1 by simp
    then have g': "grows (r_cfg r) c"
      using g by (simp add: grows_def cfg_like_def)
    have vid: "cf_myvid c = instance_h (cf_acc c)"
      using restore_myvid [of lg "(r_cfg r)\<lparr>cf_mgr := mgr\<rparr>" c1] e(1) True like1 rsm_inv_myvid [OF inv(1)] g'
      by (simp add: cfg_like_def grows_def)
    have "rsm_inv r1"
      unfolding r1 by (rule rsm_inv_cfg [OF inv(1) g' vid])
    then have "rsm_inv (r1\<lparr>r_thread := Rec_Run\<rparr>)"
      by (simp add: rsm_inv_def)
    then show ?thesis
      by (rule rsm_inv_commit [OF _ _ commit]) (simp add: r1 vid)
  qed
qed

lemma rsm_inv_recovery:
  assumes inv: "rsm_inv r" and s: "recovery_step bret ret lg r = Inr (Some r')" and g: "grows (r_cfg r) (r_cfg r')"
  shows "rsm_inv r'"
proof (cases "r_thread r")
  case Rec_Run
  then have "recovery_head r = Inr r'"
    using s by (auto simp: recovery_step_def returns)
  then show ?thesis
    by (rule rsm_inv_head [OF inv Rec_Run])
next
  case (Rec_Joining hp)
  then obtain b r1 where j: "join_end hp bret ret lg r = Inr (b, r1)" "recovery_joined (b, r1) = Inr (Some r')"
    using s by (auto simp: recovery_step_def returns)
  moreover have "r_inviewchange r"
    using inv Rec_Joining by (simp add: rsm_inv_def)
  ultimately show ?thesis
    using rsm_inv_joined [OF inv _ j g] by blast
next
  case Rec_Locking
  then obtain v where v: "r_vid_insync r = Some v" "v \<le> r_vid_commit r" "isamember (myaddr r) (r_view r v)"
    using inv by (auto simp: rsm_inv_def)
  have "r' = recovery_synced (True, r\<lparr>r_insync := False\<rparr>)"
    using s Rec_Locking by (simp add: recovery_step_def sync_with_backups_end_def)
  then show ?thesis
    using rsm_inv_synced [OF inv v, of False] by simp
qed (use inv s in \<open>auto simp: recovery_step_def rsm_inv_def r_view_def\<close>)

lemma cf_commit_grows:
  assumes "cf_commit i v c = Inr c'" "cf_myvid c = instance_h (cf_acc c)"
  shows "grows c c' \<and> cf_myvid c' = instance_h (cf_acc c')"
proof (cases "instance_h (cf_acc c) < i")
  case True
  then obtain mgr a where "c' = c\<lparr>cf_acc := a, cf_mgr := mgr, cf_mems := members v, cf_myvid := i\<rparr>" "instance_h a = i"
      "decided a = (decided (cf_acc c))(i := v)"
    using assms(1)
    by (auto simp: cf_commit_def ac_commit_def commit_wo_def paxos_commit_def loginstance_def returns Let_def decided_eq fun_eq_iff)
  with True show ?thesis
    by (auto simp: grows_def)
next
  case False
  then show ?thesis
    using assms by (auto simp: cf_commit_def ac_commit_def commit_wo_def)
qed

lemma propose_like: "propose ms c = Some (b, c') \<Longrightarrow> cfg_like c c'"
  by (auto simp: propose_def cfg_like_def split: option.splits)

lemma doheartbeat_like: "doheartbeat bret ret m c = Inr (h, c') \<Longrightarrow> cfg_like c c'"
  by (auto simp: doheartbeat_def returns Let_def)

lemma rsm_inv_repair:
  assumes "rsm_inv r" "net_repair_wo brets heal r = Inr r'"
  shows "rsm_inv r'"
proof -
  obtain c where c: "r_get_view (r_vid_commit r) r = (r_view r (r_vid_commit r), r\<lparr>r_cfg := c\<rparr>)" "cfg_like (r_cfg r) c"
    by (rule r_get_viewE)
  obtain mgr off where "r' = r\<lparr>r_cfg := c\<lparr>cf_mgr := mgr\<rparr>, r_cut := off, r_reachable := heal\<rparr>"
    using assms(2) c(1) by (auto simp: net_repair_wo_def returns)
  moreover have "rsm_inv (r\<lparr>r_cfg := c\<lparr>cf_mgr := mgr\<rparr>\<rparr>)"
    using cfg_like_trans [OF c(2) cfg_like_mgr] by (rule rsm_inv_like [OF assms(1)])
  ultimately show ?thesis
    by (simp add: rsm_inv_other)
qed

lemma rsm_step_inv: "rsm_step r r' \<Longrightarrow> rsm_inv r \<Longrightarrow> rsm_inv r'"
proof (induction rule: rsm_step.induct)
  case (rs_recovery bret ret lg r r')
  then show ?case
    using rsm_inv_recovery by blast
next
  case (rs_decide i v r c)
  then show ?case
    using cf_commit_grows [OF rs_decide.hyps] rsm_inv_cfg rsm_inv_myvid by blast
next
  case (rs_upcall vid r r')
  then show ?case
    using rsm_inv_commit [of r vid r'] by (simp add: commit_change_def rsm_inv_myvid)
next
  case (rs_ismember m i r b r')
  then show ?case
    using rsm_inv_like by (metis r_ismemberE prod.inject)
next
  case (rs_members r s ms r')
  obtain c where "r_get_view (r_vid_commit r) r = (r_view r (r_vid_commit r), r\<lparr>r_cfg := c\<rparr>)" "cfg_like (r_cfg r) c"
    by (rule r_get_viewE)
  then show ?case
    using rs_members rsm_inv_like by (auto simp: client_members_def)
next
  case (rs_add m vid r b c)
  then have "cfg_like (r_cfg r) c"
    using propose_like by (auto simp: cf_add_def split: if_splits)
  then show ?case
    using rs_add.prems rsm_inv_like by blast
next
  case (rs_remove m r b c)
  then show ?case
    using propose_like rsm_inv_like unfolding remove_wo_def by blast
next
  case (rs_beat bret ret m r h c)
  then show ?case
    using doheartbeat_like rsm_inv_like by blast
next
  case (rs_repair brets heal r s r')
  then show ?case
    using rsm_inv_repair by (auto simp: test_net_repairreq_def returns rsm_inv_other split: if_splits)
next
  case (rs_partition brets r r')
  then show ?case
    using rsm_inv_repair by (auto simp: partition1_def returns rsm_inv_other split: if_splits)
next
  case (rs_breakpoint k r s r')
  moreover have "rsm_inv (r\<lparr>r_cfg := (r_cfg r)\<lparr>cf_pro := p\<rparr>\<rparr>)" for p
    by (rule rsm_inv_like [OF rs_breakpoint.prems]) (simp add: cfg_like_def)
  ultimately show ?case
    by (auto simp: breakpointreq_def rsm_inv_other split: if_splits)
qed

lemma config_new_vid: "config_new first me lg mgr = Inr c \<Longrightarrow> cf_myvid c = instance_h (cf_acc c) \<and> (first = me \<longrightarrow> 1 \<le> instance_h (cf_acc c))"
proof -
  assume "config_new first me lg mgr = Inr c"
  then obtain a where a: "acceptor_new (me = first) me me lg = Inr a"
      "c = reconstruct \<lparr>cf_myvid = 0, cf_me = me, cf_mems = [], cf_acc = a, cf_pro = proposer_new me, cf_mgr = mgr\<rparr>"
    by (auto simp: config_new_def returns)
  obtain b where "a = (if instance_h b = 0 \<and> me = first
      then (loginstance 1 me (b\<lparr>ac_values := (ac_values b)(1 \<mapsto> me)\<rparr>))\<lparr>instance_h := 1\<rparr> else b)"
    using a(1) by (auto simp: acceptor_new_def returns)
  then have "me = first \<longrightarrow> instance_h a \<noteq> 0"
    by simp
  then have "me = first \<longrightarrow> 1 \<le> instance_h a"
    by (simp add: word_le_nat_alt unat_eq_0 Suc_le_eq flip: neq0_conv)
  moreover have "cf_myvid c = instance_h (cf_acc c)" "instance_h (cf_acc c) = instance_h a"
    using cfg_inv_reconstruct a(2) by (auto simp: cfg_inv_def reconstruct_acc)
  ultimately show ?thesis
    by auto
qed

lemma rsm_reachable_inv: "rsm_reachable r \<Longrightarrow> rsm_inv r"
proof (induction rule: rsm_reachable.induct)
  case (rr_new first me lg mgr r)
  then obtain c where c: "config_new first me lg mgr = Inr c"
    by (auto simp: rsm_new_def returns)
  let ?r0 = "rsm_init first c"
  have inv: "rsm_inv ?r0"
    using config_new_vid [OF c] by (simp add: rsm_inv_def rsm_init_def)
  have r: "(if first = me then commit_change 1 ?r0 else Inr (Some ?r0)) = Inr (Some r)"
    using rr_new c by (simp add: rsm_new_def)
  show ?case
  proof (cases "first = me")
    case True
    then have "1 \<le> instance_h (cf_acc (r_cfg ?r0))"
      using config_new_vid [OF c] by (simp add: rsm_init_def)
    then show ?thesis
      using r True rsm_inv_commit [OF inv] by (simp add: commit_change_def)
  qed (use r inv in simp)
next
  case (rr_step r r')
  then show ?case
    using rsm_step_inv by blast
qed

section \<open>Who may serve\<close>


text \<open>The first node of a system, just started.\<close>

lemma ex_first_node:
  "\<exists>r. rsm_new ''a'' ''a'' [] handle_mgr_new = Inr (Some r) \<and> r_vid_commit r = 1 \<and> r_view r 1 = [''a''] \<and> myaddr r = ''a''
     \<and> r_inviewchange r \<and> r_thread r = Rec_Run \<and> r_primary r = ''a'' \<and> \<not> r_break2 r
     \<and> instance_h (cf_acc (r_cfg r)) = 1 \<and> cf_mems (r_cfg r) = [''a'']"
proof -
  obtain c where c: "config_new ''a'' ''a'' [] handle_mgr_new = Inr c" "decided (cf_acc c) 1 = ''a''" "cf_me c = ''a''"
      "instance_h (cf_acc c) = 1" "cf_mems c = members ''a''"
    by (simp add: config_new_def acceptor_new_def logread_empty reconstruct_def loginstance_def get_view_wo_def
        ac_value_def decided_eq)
  let ?r = "rsm_init ''a'' c"
  have w: "members ''a'' = [''a'']"
    by (rule members_word) (simp add: word_ok_def is_space_def)
  then have v: "r_view ?r 1 = [''a'']" "r_primary ?r = ''a''" "r_vid_commit ?r < 1" "\<not> r_break2 ?r"
    using c(2) by (simp_all add: rsm_init_def r_view_def)
  then have "next_primary (r_view ?r 1) (r_view ?r (1 - 1)) (r_primary ?r) = Some ''a''"
    by (simp add: next_primary_def isamember_def)
  then obtain c' where c': "cfg_like (r_cfg ?r) c'"
      "commit_change_wo 1 ?r = Inr (Some (signal_recovery (?r\<lparr>r_vid_commit := 1, r_inviewchange := True, r_primary := ''a'', r_cfg := c'\<rparr>)))"
    using commit_change_spec [OF v(3)] v(4) by auto
  then show ?thesis
    using c w by (simp add: rsm_new_def commit_change_def signal_recovery_def rsm_init_def r_view_def cfg_like_def)
qed


section \<open>Recovery comes to an end\<close>

text \<open>The recovery thread running alone; the replies are not looked at unless it is joining.\<close>

fun recovery_run :: "nat \<Rightarrow> rsm \<Rightarrow> rsm option res" where
  "recovery_run 0 r = Inr (Some r)"
| "recovery_run (Suc n) r =
     bindR (recovery_step 0 0 [] r) (\<lambda>x. case x of None \<Rightarrow> Inr None | Some r \<Rightarrow> recovery_run n r)"

definition recovered :: "rsm \<Rightarrow> rsm \<Rightarrow> bool" where
  "recovered r r' \<longleftrightarrow> \<not> r_inviewchange r' \<and> r_vid_commit r' = r_vid_commit r \<and> vs_vid (r_myvs r') = r_vid_commit r
     \<and> r_thread r' = Rec_Waiting"

lemma recovered_synced:
  "r_vid_insync r = Some (r_vid_commit r) \<Longrightarrow> recovered r (recovery_synced (True, r))"
  by (simp add: recovered_def recovery_synced_def)

lemma recovery_run_Run:
  assumes "r_thread r = Rec_Run" "isamember (myaddr r) (r_view r (r_vid_commit r))"
  shows "\<exists>n \<le> 2. \<exists>r'. recovery_run n r = Inr (Some r') \<and> recovered r r'"
proof -
  obtain c where c: "r_ismember (myaddr r) (r_vid_commit r) r = (isamember (myaddr r) (r_view r (r_vid_commit r)), r\<lparr>r_cfg := c\<rparr>)"
      "cfg_like (r_cfg r) c"
    by (rule r_ismemberE)
  let ?s = "r\<lparr>r_cfg := c, r_vid_insync := Some (r_vid_commit r)\<rparr>"
  have one: "recovery_step 0 0 [] r =
      Inr (Some (if r_primary r = myaddr r then ?s\<lparr>r_thread := Rec_Locking\<rparr> else recovery_synced (True, ?s)))"
    using c assms by (simp add: recovery_step_def recovery_head_def sync_with_primary_def cfg_like_def)
  show ?thesis
  proof (cases "r_primary r = myaddr r")
    case True
    have "recovery_run 2 r = Inr (Some (recovery_synced (True, ?s\<lparr>r_thread := Rec_Locking, r_insync := False\<rparr>)))"
      using one True by (simp add: numeral_2_eq_2 recovery_step_def sync_with_backups_end_def)
    then show ?thesis
      by (intro exI [of _ 2]) (simp add: recovered_def recovery_synced_def)
  next
    case False
    then have "recovery_run 1 r = Inr (Some (recovery_synced (True, ?s)))"
      using one by simp
    then show ?thesis
      by (intro exI [of _ 1]) (simp add: recovered_def recovery_synced_def)
  qed
qed

lemma recovery_run_then:
  assumes "recovery_step 0 0 [] r = Inr (Some s)" "\<exists>n \<le> 2. \<exists>r'. recovery_run n s = Inr (Some r') \<and> recovered s r'"
    and "r_vid_commit s = r_vid_commit r"
  shows "\<exists>n \<le> 3. \<exists>r'. recovery_run n r = Inr (Some r') \<and> recovered r r'"
proof -
  obtain n r' where n: "n \<le> 2" "recovery_run n s = Inr (Some r')" "recovered s r'"
    using assms(2) by blast
  then have "recovery_run (Suc n) r = Inr (Some r')" "recovered r r'"
    using assms(1,3) by (simp_all add: recovered_def)
  then show ?thesis
    using n(1) by (intro exI [of _ "Suc n"]) auto
qed



section \<open>Handing over the primary\<close>

lemma find_remaining:
  assumes "filter (\<lambda>x. x \<noteq> m) p \<noteq> []"
  shows "find (\<lambda>x. isamember x (filter (\<lambda>x. x \<noteq> m) p)) p = Some (hd (filter (\<lambda>x. x \<noteq> m) p))"
proof -
  have "find (\<lambda>x. isamember x (filter (\<lambda>x. x \<noteq> m) q)) p = find (\<lambda>x. x \<noteq> m) p" if "set p \<subseteq> set q" for q
    using that by (induction p) (auto simp: isamember_def)
  moreover have "find (\<lambda>x. x \<noteq> m) p = Some (hd (filter (\<lambda>x. x \<noteq> m) p))"
    using assms by (induction p) auto
  ultimately show ?thesis
    by auto
qed

text \<open>
  The primary is handed over without a gap: when a reachable node gets the next view, and this is the present one with a node added,
  or with a node removed by another member that stays, the assertions in the choice of the primary hold; the primary stays if it is
  still a member, and otherwise the first member of the new view takes over.
\<close>

theorem primary_handover:
  assumes "rsm_reachable r" "r_vid_commit r \<noteq> 0" "r_vid_commit r < r_vid_commit r + 1" "\<not> r_break2 r"
    and "let old = r_view r (r_vid_commit r) in
      new = old @ [m] \<or> new = filter (\<lambda>x. x \<noteq> m) old \<and> isamember w old \<and> w \<noteq> m"
    and "r_view r (r_vid_commit r + 1) = new"
  shows "\<exists>r'. commit_change (r_vid_commit r + 1) r = Inr (Some r') \<and> r_view r' = r_view r
    \<and> r_primary r' = (if isamember (r_primary r) new then r_primary r else hd new) \<and> isamember (r_primary r') new
    \<and> r_inviewchange r' \<and> r_thread r' \<noteq> Rec_Waiting"
proof -
  let ?old = "r_view r (r_vid_commit r)" and ?p = "if isamember (r_primary r) new then r_primary r else hd new"
  have prim: "isamember (r_primary r) ?old"
    using rsm_reachable_inv [OF assms(1)] assms(2) by (simp add: rsm_inv_def)
  have nxt: "next_primary new ?old (r_primary r) = Some ?p \<and> isamember ?p new"
  proof (cases "new = ?old @ [m]")
    case True
    then show ?thesis
      using prim by (simp add: next_primary_def isamember_def)
  next
    case False
    then have new: "new = filter (\<lambda>x. x \<noteq> m) ?old" "isamember w ?old" "w \<noteq> m"
      using assms(5) by (auto simp: Let_def)
    then have ne: "filter (\<lambda>x. x \<noteq> m) ?old \<noteq> []"
      by (auto simp: isamember_def filter_empty_conv)
    then have "isamember (hd new) new"
      unfolding isamember_def new(1) by (rule hd_in_set)
    then show ?thesis
      using find_remaining [OF ne] ne unfolding next_primary_def new(1) by auto
  qed
  have pred: "r_vid_commit r + 1 - 1 = r_vid_commit r"
    by simp
  obtain c' where c': "cfg_like (r_cfg r) c'" "commit_change_wo (r_vid_commit r + 1) r =
      Inr (Some (signal_recovery (r\<lparr>r_vid_commit := r_vid_commit r + 1, r_inviewchange := True, r_primary := ?p, r_cfg := c'\<rparr>)))"
    using commit_change_spec [OF assms(3)] nxt assms(4,6) unfolding pred by auto
  moreover have "r_view (signal_recovery (r\<lparr>r_vid_commit := r_vid_commit r + 1, r_inviewchange := True, r_primary := ?p, r_cfg := c'\<rparr>)) = r_view r"
    using c'(1) by (simp add: signal_recovery_def r_view_def cfg_like_def fun_eq_iff)
  ultimately show ?thesis
    using nxt by (auto simp: commit_change_def signal_recovery_def)
qed

theorem primary_handover_witness:
  "\<exists>r r'. rsm_reachable r \<and> r_view r 2 = [''a'', ''b''] \<and> commit_change 2 r = Inr (Some r') \<and> r_primary r' = ''a''"
proof -
  obtain r0 where r0: "rsm_new ''a'' ''a'' [] handle_mgr_new = Inr (Some r0)" "r_vid_commit r0 = 1" "r_view r0 1 = [''a'']"
      "r_primary r0 = ''a''" "\<not> r_break2 r0" "instance_h (cf_acc (r_cfg r0)) = 1" "cf_mems (r_cfg r0) = [''a'']"
    using ex_first_node by blast
  have v: "members (cf_value [''a'', ''b'']) = [''a'', ''b'']"
    by (intro members_value) (simp add: word_ok_def is_space_def)
  then obtain c where c: "cf_commit 2 (cf_value [''a'', ''b'']) (r_cfg r0) = Inr c"
      "decided (cf_acc c) = (decided (cf_acc (r_cfg r0)))(2 := cf_value [''a'', ''b''])"
    using r0(6,7)
    by (auto simp: cf_commit_def ac_commit_def commit_wo_def paxos_commit_def isamember_def loginstance_def decided_eq fun_eq_iff Let_def)
  let ?r = "r0\<lparr>r_cfg := c\<rparr>"
  have r: "rsm_reachable ?r"
    using rr_step [OF rr_new [OF r0(1)] rs_decide [OF c(1)]] .
  have view: "r_view ?r 1 = [''a'']" "r_view ?r 2 = [''a'', ''b'']"
    using r0(3) c(2) v by (simp_all add: r_view_def)
  obtain r' where "commit_change 2 ?r = Inr (Some r')" "r_primary r' = ''a''"
    using primary_handover [OF r, of "[''a'', ''b'']" "''b''"] r0(2,4,5) view by (auto simp: isamember_def)
  then show ?thesis
    using r view by blast
qed

section \<open>Joining\<close>

lemma replay_decided:
  "(\<forall>b. decided (fold replay es b) i = decided b i) \<or> (\<exists>w. \<forall>b. decided (fold replay es b) i = w)"
proof (induction es rule: rev_induct)
  case (snoc e es)
  show ?case
  proof (cases e)
    case (LDone j w)
    then show ?thesis
      using snoc by (cases "i = j") (auto simp: decided_eq)
  qed (use snoc in \<open>simp_all add: decided_eq\<close>)
qed simp

lemma replay_instance:
  "(\<forall>b. instance_h (fold replay es b) = instance_h b) \<or> (\<exists>j. \<forall>b. instance_h (fold replay es b) = j)"
proof (induction es rule: rev_induct)
  case (snoc e es)
  then show ?case
    by (cases e) auto
qed simp

lemma log_text_lines: "concat (map ev_text es) = [] \<or> last (concat (map ev_text es)) = newline"
proof (induction es rule: rev_induct)
  case (snoc e es)
  then show ?case
    by (cases e) simp_all
qed simp

text \<open>Reading the log of one acceptor into another one that knows nothing else.\<close>

lemma restore_decided:
  assumes d: "durable first me d" and inst: "instance_h d \<noteq> 0"
    and agree: "\<And>i. decided a i = [] \<or> decided a i = decided d i"
  shows "\<exists>a'. ac_restore (ac_dump d) a = Inr a' \<and> decided a' = decided d \<and> instance_h a' = instance_h d"
proof -
  obtain es where es: "list_all ev_ok es" "ac_log d = concat (map ev_text es)" "same_state (fold replay es (ac_init me [])) d"
    using d by (auto simp: durable_def)
  define b where "b = fold replay es (log_restore (ac_log d) a)"
  have start: "decided (log_restore s a) = decided a" for s
    by (simp add: log_restore_def decided_eq)
  have init: "decided (ac_init me []) = (\<lambda>_. [])" "instance_h (ac_init me []) = 0"
    by (simp_all add: ac_init_def decided_eq)
  have dump: "ac_dump d = concat (map ev_text es)"
    unfolding ac_dump_def log_dump_def es(2) using log_text_lines by metis
  have "ac_restore (ac_dump d) a = Inr b"
    using logread_events [OF es(1), of "[]" "log_restore (ac_log d) a"] es(2)
    unfolding dump by (simp add: ac_restore_def logread_def b_def log_restore_def)
  moreover have "decided b i = decided d i" for i
  proof -
    have "decided (fold replay es (ac_init me [])) i = decided d i"
      using es(3) by (simp add: same_state_def)
    then show ?thesis
      using replay_decided [of es i] agree [of i] unfolding b_def by (auto simp: start init)
  qed
  moreover have "instance_h (fold replay es (ac_init me [])) = instance_h d"
    using es(3) by (simp add: same_state_def)
  then have "instance_h b = instance_h d"
    using replay_instance [of es] inst unfolding b_def by (auto simp: init)
  ultimately show ?thesis
    by blast
qed

lemma joinreq_OK:
  assumes "joinreq between n vs p = Some (rsm_OK, j, p')"
  shows "jr_log j = ac_dump (cf_acc (r_cfg p')) \<and> (\<exists>i. isamember n (r_view p' i))"
proof -
  obtain c where c: "r_ismember n (r_vid_commit p) p = (isamember n (r_view p (r_vid_commit p)), p\<lparr>r_cfg := c\<rparr>)" "cfg_like (r_cfg p) c"
    by (rule r_ismemberE)
  have v: "r_view (p\<lparr>r_cfg := c\<rparr>) = r_view p"
    using c(2) by (auto simp: r_view_def cfg_like_def)
  show ?thesis
  proof (cases "isamember n (r_view p (r_vid_commit p))")
    case True
    then have "p' = p\<lparr>r_cfg := c\<rparr>" "jr_log j = ac_dump (cf_acc (r_cfg p'))"
      using assms c(1) by (auto simp: joinreq_def)
    then show ?thesis
      using True v by auto
  next
    case False
    then obtain c2 where e: "(let r = between (p\<lparr>r_cfg := c2\<rparr>); (b, r) = r_ismember n (cf_myvid (r_cfg r)) r in
        if b then Some (rsm_OK, \<lparr>jr_log = ac_dump (cf_acc (r_cfg r))\<rparr>, r) else Some (rsm_BUSY, \<lparr>jr_log = []\<rparr>, r)) = Some (rsm_OK, j, p')"
      using assms c(1) by (auto simp: joinreq_def rsm_OK_def rsm_BUSY_def split: if_splits option.splits)
    let ?r = "between (p\<lparr>r_cfg := c2\<rparr>)"
    obtain c3 where c3: "r_ismember n (cf_myvid (r_cfg ?r)) ?r = (isamember n (r_view ?r (cf_myvid (r_cfg ?r))), ?r\<lparr>r_cfg := c3\<rparr>)"
        "cfg_like (r_cfg ?r) c3"
      by (rule r_ismemberE)
    then have "isamember n (r_view ?r (cf_myvid (r_cfg ?r)))" "p' = ?r\<lparr>r_cfg := c3\<rparr>" "jr_log j = ac_dump (cf_acc (r_cfg p'))"
      using e by (auto simp: rsm_OK_def rsm_BUSY_def Let_def split: if_splits)
    moreover have "r_view (?r\<lparr>r_cfg := c3\<rparr>) = r_view ?r"
      using c3(2) by (auto simp: r_view_def cfg_like_def)
    ultimately show ?thesis
      by auto
  qed
qed


text \<open>A node that is about to take in \<^verbatim>\<open>n2\<close>, and this node.\<close>

definition ex_decided :: acceptor where
  "ex_decided = fst (commit_wo 2 ''n1 n2'' (projr (acceptor_new True ''n1'' ''n1'' [])))"

definition ex_primary :: rsm where
  "ex_primary = rsm_init ''n1'' \<lparr>cf_myvid = 2, cf_me = ''n1'', cf_mems = [''n1'', ''n2''], cf_acc = ex_decided,
     cf_pro = proposer_new ''n1'', cf_mgr = handle_mgr_new\<rparr>"

definition ex_joiner :: rsm where
  "ex_joiner = rsm_init ''n1'' \<lparr>cf_myvid = 0, cf_me = ''n2'', cf_mems = [], cf_acc = ac_init ''n2'' [],
     cf_pro = proposer_new ''n2'', cf_mgr = ex_mgr\<rparr>"

lemma ex_decided_simps:
  "instance_h ex_decided = 2" "decided ex_decided = (\<lambda>_. [])(1 := ''n1'', 2 := ''n1 n2'')"
  using logread_empty [of "ac_init ''n1'' []"]
  by (auto simp: ex_decided_def acceptor_new_def ac_init_def commit_wo_def loginstance_def decided_eq fun_eq_iff)

lemma members_n1_n2: "members ''n1 n2'' = [''n1'', ''n2'']"
  using members_Cons [of "''n1''" "''n2''"] members_space [of "''n2''"] members_word [of "''n2''"]
  by (simp add: word_ok_def is_space_def)

lemma ex_joinreq:
  "\<exists>p'. joinreq (\<lambda>r. r) ''n2'' vs ex_primary = Some (rsm_OK, \<lparr>jr_log = ac_dump (cf_acc (r_cfg p'))\<rparr>, p')
     \<and> ac_reachable True ''n1'' ''n1'' (cf_acc (r_cfg p')) \<and> instance_h (cf_acc (r_cfg p')) = 2
     \<and> decided (cf_acc (r_cfg p')) = decided ex_decided"
proof -
  let ?a = "snd (ac_value 2 (snd (ac_value 0 ex_decided)))"
  have v0: "fst (ac_value 0 ex_decided) = []" "fst (ac_value 2 (snd (ac_value 0 ex_decided))) = ''n1 n2''"
    using ac_value_keeps [OF prod.collapse [symmetric], of 0 ex_decided]
      ac_value_keeps(1) [OF prod.collapse [symmetric], of 2 "snd (ac_value 0 ex_decided)"]
    by (simp_all add: ex_decided_simps)
  let ?p = "ex_primary\<lparr>r_cfg := (r_cfg ex_primary)\<lparr>cf_acc := ?a\<rparr>\<rparr>"
  have "joinreq (\<lambda>r. r) ''n2'' vs ex_primary = Some (rsm_OK, \<lparr>jr_log = ac_dump ?a\<rparr>, ?p)"
    using v0 by (simp add: joinreq_def r_ismember_def ismember_def get_view_wo_def ex_primary_def rsm_init_def
        cf_add_def members_n1_n2 isamember_def case_prod_beta Let_def)
  moreover have "ac_reachable True ''n1'' ''n1'' ?a"
    unfolding ex_decided_def
    by (rule ar_value [OF ar_value [OF ex_reachable prod.collapse [symmetric]] prod.collapse [symmetric]])
  moreover have "instance_h ?a = 2" "decided ?a = decided ex_decided"
    using ac_value_keeps(2,3) [OF prod.collapse [symmetric], of 0 ex_decided]
      ac_value_keeps(2,3) [OF prod.collapse [symmetric], of 2 "snd (ac_value 0 ex_decided)"]
    by (simp_all add: ex_decided_simps)
  ultimately show ?thesis
    by (intro exI [of _ ?p]) simp
qed


end
