(* ===== verification/Fifo.thy ===== *)
theory Fifo
  imports Prelude
begin

text \<open>
  The bounded blocking queue (\<^verbatim>\<open>rpc/fifo.h\<close>). A turn of the loop in \<^verbatim>\<open>enq\<close> or \<^verbatim>\<open>deq\<close> runs under the mutex and is one
  function; the threads that run or wait in the two operations are counted in the system below, in
  which condition variables may also wake up a thread for no reason.
\<close>

section \<open>State and operations\<close>

record 'a fifo =
  fq :: "'a list"
  fmax :: u32

definition fifo_new :: "i32 \<Rightarrow> 'a fifo" where
  "fifo_new limit = \<lparr>fq = [], fmax = limit\<rparr>"

text \<open>The number of elements, converted to \<^verbatim>\<open>bool\<close>.\<close>

definition fifo_size :: "'a fifo \<Rightarrow> bool" where
  "fifo_size f \<longleftrightarrow> length (fq f) \<noteq> 0"

text \<open>The first result is what the operation returns; \<open>None\<close> is a wait on \<^verbatim>\<open>has_space_c_\<close>.\<close>

definition enq :: "'a \<Rightarrow> bool \<Rightarrow> 'a fifo \<Rightarrow> bool option \<times> 'a fifo" where
  "enq e blocking f =
     (if fmax f = 0 \<or> length (fq f) < unat (fmax f) then (Some True, f\<lparr>fq := fq f @ [e]\<rparr>)
      else if blocking then (None, f)
      else (Some False, f))"

text \<open>The element with whether \<^verbatim>\<open>has_space_c_\<close> is signalled; \<open>None\<close> is a wait on \<^verbatim>\<open>non_empty_c_\<close>.\<close>

definition deq :: "'a fifo \<Rightarrow> ('a \<times> bool) option \<times> 'a fifo" where
  "deq f =
     (case fq f of
        [] \<Rightarrow> (None, f)
      | e # q \<Rightarrow> (Some (e, fmax f \<noteq> 0 \<and> length q < unat (fmax f)), f\<lparr>fq := q\<rparr>))"

section \<open>The contract of a queue\<close>

text \<open>
  What users of a queue rely on: every element that was put comes out once, in the order of the
  puts. \<open>content\<close> is what is inside.
\<close>

locale fifo_queue =
  fixes put :: "'a \<Rightarrow> bool \<Rightarrow> 'q \<Rightarrow> bool option \<times> 'q"
    and get :: "'q \<Rightarrow> ('a \<times> bool) option \<times> 'q"
    and content :: "'q \<Rightarrow> 'a list"
  assumes put_True: "put e b q = (Some True, q') \<Longrightarrow> content q' = content q @ [e]"
    and put_other: "put e b q = (r, q') \<Longrightarrow> r \<noteq> Some True \<Longrightarrow> q' = q"
    and get_Some: "get q = (Some (e, s), q') \<Longrightarrow> content q = e # content q'"
    and get_None: "get q = (None, q') \<Longrightarrow> content q = [] \<and> q' = q"
begin

text \<open>The history of a queue: what went in is what came out and what is inside.\<close>

definition history :: "'a list \<Rightarrow> 'a list \<Rightarrow> 'q \<Rightarrow> bool" where
  "history ins outs q \<longleftrightarrow> ins = outs @ content q"

lemma history_put: "history ins outs q \<Longrightarrow> put e b q = (Some True, q') \<Longrightarrow> history (ins @ [e]) outs q'"
  using put_True [of e b q q'] by (simp add: history_def)

lemma history_get: "history ins outs q \<Longrightarrow> get q = (Some (e, s), q') \<Longrightarrow> history ins (outs @ [e]) q'"
  using get_Some [of q e s q'] by (simp add: history_def)

lemma history_drained: "history ins outs q \<Longrightarrow> get q = (None, q') \<Longrightarrow> ins = outs"
  using get_None [of q q'] by (simp add: history_def)

end

interpretation ff: fifo_queue enq deq fq
  by unfold_locales (auto simp: enq_def deq_def split: if_splits list.splits)

section \<open>Threads on a queue\<close>

text \<open>
  The calls that are under way: \<open>fs_enq\<close> and \<open>fs_deq\<close> can take their next turn, \<open>fs_enq_asleep\<close> and \<open>fs_deq_asleep\<close> wait
  on a condition variable; \<open>fs_in\<close> and \<open>fs_out\<close> record what \<^verbatim>\<open>enq\<close> accepted and \<^verbatim>\<open>deq\<close> returned.
\<close>

record 'a fifo_sys =
  fs_f :: "'a fifo"
  fs_enq :: "('a \<times> bool) list"
  fs_enq_asleep :: "'a list"
  fs_deq :: nat
  fs_deq_asleep :: nat
  fs_in :: "'a list"
  fs_out :: "'a list"

definition fifo_sys_new :: "i32 \<Rightarrow> 'a fifo_sys" where
  "fifo_sys_new limit = \<lparr>fs_f = fifo_new limit, fs_enq = [], fs_enq_asleep = [], fs_deq = 0, fs_deq_asleep = 0,
     fs_in = [], fs_out = []\<rparr>"

definition signal_non_empty :: "'a fifo_sys \<Rightarrow> 'a fifo_sys" where
  "signal_non_empty s =
     (if fs_deq_asleep s = 0 then s else s\<lparr>fs_deq_asleep := fs_deq_asleep s - 1, fs_deq := fs_deq s + 1\<rparr>)"

text \<open>Any of the threads that wait may be the one that is woken up.\<close>

inductive signal_has_space :: "'a fifo_sys \<Rightarrow> 'a fifo_sys \<Rightarrow> bool" where
  sh_nobody: "fs_enq_asleep s = [] \<Longrightarrow> signal_has_space s s"
| sh_one: "fs_enq_asleep s = xs @ e # ys \<Longrightarrow> signal_has_space s (s\<lparr>fs_enq_asleep := xs @ ys, fs_enq := (e, True) # fs_enq s\<rparr>)"

inductive fifo_turn :: "'a fifo_sys \<Rightarrow> 'a fifo_sys \<Rightarrow> bool" where
  ft_enq: "fs_enq s = xs @ (e, b) # ys \<Longrightarrow> enq e b (fs_f s) = (Some True, f)
    \<Longrightarrow> fifo_turn s (signal_non_empty (s\<lparr>fs_f := f, fs_enq := xs @ ys, fs_in := fs_in s @ [e]\<rparr>))"
| ft_enq_full: "fs_enq s = xs @ (e, b) # ys \<Longrightarrow> enq e b (fs_f s) = (Some False, f)
    \<Longrightarrow> fifo_turn s (s\<lparr>fs_f := f, fs_enq := xs @ ys\<rparr>)"
| ft_enq_wait: "fs_enq s = xs @ (e, b) # ys \<Longrightarrow> enq e b (fs_f s) = (None, f)
    \<Longrightarrow> fifo_turn s (s\<lparr>fs_f := f, fs_enq := xs @ ys, fs_enq_asleep := fs_enq_asleep s @ [e]\<rparr>)"
| ft_deq: "fs_deq s = Suc n \<Longrightarrow> deq (fs_f s) = (Some (e, sig), f)
    \<Longrightarrow> (if sig then signal_has_space (s\<lparr>fs_f := f, fs_deq := n, fs_out := fs_out s @ [e]\<rparr>) s'
         else s' = s\<lparr>fs_f := f, fs_deq := n, fs_out := fs_out s @ [e]\<rparr>)
    \<Longrightarrow> fifo_turn s s'"
| ft_deq_wait: "fs_deq s = Suc n \<Longrightarrow> deq (fs_f s) = (None, f)
    \<Longrightarrow> fifo_turn s (s\<lparr>fs_f := f, fs_deq := n, fs_deq_asleep := fs_deq_asleep s + 1\<rparr>)"

text \<open>New calls and spurious wake-ups besides the turns.\<close>

inductive fifo_step :: "'a fifo_sys \<Rightarrow> 'a fifo_sys \<Rightarrow> bool" where
  fs_turn: "fifo_turn s s' \<Longrightarrow> fifo_step s s'"
| fs_call_enq: "fifo_step s (s\<lparr>fs_enq := (e, b) # fs_enq s\<rparr>)"
| fs_call_deq: "fifo_step s (s\<lparr>fs_deq := fs_deq s + 1\<rparr>)"
| fs_wake_enq: "signal_has_space s s' \<Longrightarrow> fifo_step s s'"
| fs_wake_deq: "fifo_step s (signal_non_empty s)"

inductive fifo_reachable :: "i32 \<Rightarrow> 'a fifo_sys \<Rightarrow> bool" for limit where
  fr_new: "fifo_reachable limit (fifo_sys_new limit)"
| fr_step: "fifo_reachable limit s \<Longrightarrow> fifo_step s s' \<Longrightarrow> fifo_reachable limit s'"

section \<open>Invariant\<close>

text \<open>
  While somebody sleeps in \<^verbatim>\<open>deq\<close>, there are at least as many threads awake in \<^verbatim>\<open>deq\<close> as there are elements, and
  while somebody sleeps in \<^verbatim>\<open>enq\<close>, at least as many awake in \<^verbatim>\<open>enq\<close> as there are free places.
\<close>

definition fifo_inv :: "i32 \<Rightarrow> 'a fifo_sys \<Rightarrow> bool" where
  "fifo_inv limit s \<longleftrightarrow>
     fmax (fs_f s) = limit \<and> ff.history (fs_in s) (fs_out s) (fs_f s) \<and>
     (limit \<noteq> 0 \<longrightarrow> length (fq (fs_f s)) \<le> unat limit) \<and>
     (fs_deq_asleep s \<noteq> 0 \<longrightarrow> length (fq (fs_f s)) \<le> fs_deq s) \<and>
     (fs_enq_asleep s \<noteq> [] \<longrightarrow> limit \<noteq> 0 \<and> unat limit \<le> length (fq (fs_f s)) + length (fs_enq s))"

lemma signal_non_empty_inv: "fifo_inv limit s \<Longrightarrow> fifo_inv limit (signal_non_empty s)"
  by (auto simp: fifo_inv_def signal_non_empty_def)

lemma signal_has_space_inv: "signal_has_space s s' \<Longrightarrow> fifo_inv limit s \<Longrightarrow> fifo_inv limit s'"
  by (induction rule: signal_has_space.induct) (auto simp: fifo_inv_def)

lemma fifo_turn_inv: "fifo_turn s s' \<Longrightarrow> fifo_inv limit s \<Longrightarrow> fifo_inv limit s'"
proof (induction rule: fifo_turn.induct)
  case (ft_enq s xs e b ys f)
  then have f: "f = (fs_f s)\<lparr>fq := fq (fs_f s) @ [e]\<rparr>" "fmax (fs_f s) = 0 \<or> length (fq (fs_f s)) < unat (fmax (fs_f s))"
    by (auto simp: enq_def split: if_splits)
  have "ff.history (fs_in s @ [e]) (fs_out s) f"
    using ff.history_put [OF _ ft_enq.hyps(2)] ft_enq.prems by (simp add: fifo_inv_def)
  then show ?case
    using ft_enq f by (auto simp: fifo_inv_def signal_non_empty_def)
next
  case (ft_enq_full s xs e b ys f)
  then have "f = fs_f s" "length (fq (fs_f s)) \<ge> unat (fmax (fs_f s))"
    by (auto simp: enq_def split: if_splits)
  then show ?case
    using ft_enq_full by (auto simp: fifo_inv_def)
next
  case (ft_enq_wait s xs e b ys f)
  then have "f = fs_f s" "fmax (fs_f s) \<noteq> 0" "length (fq (fs_f s)) \<ge> unat (fmax (fs_f s))"
    by (auto simp: enq_def split: if_splits)
  then show ?case
    using ft_enq_wait by (auto simp: fifo_inv_def)
next
  case (ft_deq s n e sig f s')
  then have f: "f = (fs_f s)\<lparr>fq := tl (fq (fs_f s))\<rparr>" "fq (fs_f s) \<noteq> []"
      "sig \<longleftrightarrow> fmax (fs_f s) \<noteq> 0 \<and> length (tl (fq (fs_f s))) < unat (fmax (fs_f s))"
    by (auto simp: deq_def split: list.splits)
  have h: "ff.history (fs_in s) (fs_out s @ [e]) f"
    using ff.history_get [OF _ ft_deq.hyps(2)] ft_deq.prems by (simp add: fifo_inv_def)
  show ?case
  proof (cases sig)
    case True
    show ?thesis
      using ft_deq.hyps(3) ft_deq.hyps(1) ft_deq.prems f h True
      by (auto simp: fifo_inv_def elim!: signal_has_space.cases)
  next
    case False
    have "limit = 0"
      using False f(2,3) ft_deq.prems by (cases "fq (fs_f s)") (auto simp: fifo_inv_def)
    then show ?thesis
      using ft_deq.hyps(1,3) ft_deq.prems f h False by (auto simp: fifo_inv_def)
  qed
next
  case (ft_deq_wait s n f)
  then have "f = fs_f s" "fq (fs_f s) = []"
    by (auto simp: deq_def split: list.splits)
  then show ?case
    using ft_deq_wait by (auto simp: fifo_inv_def)
qed

lemma fifo_reachable_inv: "fifo_reachable limit s \<Longrightarrow> fifo_inv limit s"
proof (induction rule: fifo_reachable.induct)
  case fr_new
  show ?case
    by (simp add: fifo_inv_def fifo_sys_new_def fifo_new_def ff.history_def)
next
  case (fr_step s s')
  from fr_step.hyps(2) fr_step.IH show ?case
  proof (induction rule: fifo_step.induct)
    case (fs_turn s s')
    then show ?case
      by (rule fifo_turn_inv)
  next
    case (fs_wake_enq s s')
    then show ?case
      by (rule signal_has_space_inv)
  next
    case (fs_wake_deq s)
    then show ?case
      by (rule signal_non_empty_inv)
  qed (auto simp: fifo_inv_def)
qed

text \<open>
  C30: The queue is first in first out and bounded, for any number of threads and any interleaving of their
  turns, wake-ups and new calls: what was put is what was taken, in the same order,
  followed by what is still inside, and a limit other than zero is never exceeded.
\<close>

theorem fifo_order:
  assumes "fifo_reachable limit s"
  shows "fs_in s = fs_out s @ fq (fs_f s) \<and> (limit \<noteq> 0 \<longrightarrow> length (fq (fs_f s)) \<le> unat limit)"
  using fifo_reachable_inv [OF assms] by (simp add: fifo_inv_def ff.history_def)

lemma signal_has_space_total: "\<exists>s'. signal_has_space s s' \<and> fs_out s' = fs_out s"
proof (cases "fs_enq_asleep s")
  case Nil
  then show ?thesis
    using sh_nobody by blast
next
  case (Cons e ys)
  then show ?thesis
    using sh_one [of s "[]" e ys] by auto
qed

text \<open>
  No wake-up is lost: whenever an element is in the queue and some thread is in \<^verbatim>\<open>deq\<close>, even if all the
  threads there went to sleep at some time, one of them can take its turn now and gets the oldest element; whenever there is room and some thread
  is in \<^verbatim>\<open>enq\<close>, one of them can take its turn and puts its element. So a queue on which both
  kinds of threads wait never stops.
\<close>

theorem fifo_progress:
  assumes "fifo_reachable limit s"
  shows "(fq (fs_f s) \<noteq> [] \<and> fs_deq s + fs_deq_asleep s \<noteq> 0 \<longrightarrow>
      (\<exists>s'. fifo_turn s s' \<and> fs_out s' = fs_out s @ [hd (fq (fs_f s))])) \<and>
    ((limit = 0 \<or> length (fq (fs_f s)) < unat limit) \<and> (fs_enq s \<noteq> [] \<or> fs_enq_asleep s \<noteq> []) \<longrightarrow>
      (\<exists>s' e. fifo_turn s s' \<and> fs_in s' = fs_in s @ [e]))"
proof -
  have inv: "fifo_inv limit s"
    using assms by (rule fifo_reachable_inv)
  have taker: "\<exists>s'. fifo_turn s s' \<and> fs_out s' = fs_out s @ [hd (fq (fs_f s))]"
    if q: "fq (fs_f s) \<noteq> []" and waits: "fs_deq s + fs_deq_asleep s \<noteq> 0"
  proof -
    have "fs_deq_asleep s \<noteq> 0 \<longrightarrow> length (fq (fs_f s)) \<le> fs_deq s" "0 < length (fq (fs_f s))"
      using inv q by (simp_all add: fifo_inv_def)
    then have "fs_deq s \<noteq> 0"
      using waits by linarith
    then obtain n where n: "fs_deq s = Suc n"
      using not0_implies_Suc by blast
    obtain sig f where d: "deq (fs_f s) = (Some (hd (fq (fs_f s)), sig), f)"
      using q by (cases "fq (fs_f s)") (auto simp: deq_def)
    let ?t = "s\<lparr>fs_f := f, fs_deq := n, fs_out := fs_out s @ [hd (fq (fs_f s))]\<rparr>"
    obtain s' where s': "signal_has_space ?t s'" "fs_out s' = fs_out ?t"
      using signal_has_space_total [of ?t] by blast
    have "fifo_turn s (if sig then s' else ?t)"
      by (rule ft_deq [OF n d]) (use s' in simp)
    then show ?thesis
      using s'(2) by (intro exI [of _ "if sig then s' else ?t"]) simp
  qed
  have putter: "\<exists>s' e. fifo_turn s s' \<and> fs_in s' = fs_in s @ [e]"
    if room: "limit = 0 \<or> length (fq (fs_f s)) < unat limit" and waits: "fs_enq s \<noteq> [] \<or> fs_enq_asleep s \<noteq> []"
  proof -
    have max: "fmax (fs_f s) = limit"
      using inv by (simp add: fifo_inv_def)
    have "fs_enq s \<noteq> []"
      using inv waits room unfolding fifo_inv_def by (cases "fs_enq_asleep s = []") auto
    then obtain e b ys where e: "fs_enq s = [] @ (e, b) # ys"
      by (cases "fs_enq s") auto
    have "enq e b (fs_f s) = (Some True, (fs_f s)\<lparr>fq := fq (fs_f s) @ [e]\<rparr>)"
      using room max by (simp add: enq_def)
    from ft_enq [OF e this] show ?thesis
      by (intro exI conjI) (auto simp: signal_non_empty_def)
  qed
  show ?thesis
    using taker putter by blast
qed

text \<open>A thread that found the queue empty, and then an element that arrives.\<close>

lemma ex_fifo_reachable:
  "\<exists>s. fifo_reachable 1 s \<and> fq (fs_f s) = [7::nat] \<and> fs_deq s + fs_deq_asleep s \<noteq> 0"
proof -
  let ?s0 = "fifo_sys_new 1 :: nat fifo_sys"
  let ?s1 = "?s0\<lparr>fs_deq := fs_deq ?s0 + 1\<rparr>"
  let ?s2 = "?s1\<lparr>fs_f := fs_f ?s1, fs_deq := 0, fs_deq_asleep := fs_deq_asleep ?s1 + 1\<rparr>"
  let ?s3 = "?s2\<lparr>fs_enq := (7, True) # fs_enq ?s2\<rparr>"
  let ?f = "(fs_f ?s3)\<lparr>fq := [7]\<rparr>"
  let ?s4 = "signal_non_empty (?s3\<lparr>fs_f := ?f, fs_enq := [] @ [], fs_in := fs_in ?s3 @ [7]\<rparr>)"
  have "fifo_reachable 1 ?s1"
    by (rule fr_step [OF fr_new fs_call_deq])
  moreover have "fifo_turn ?s1 ?s2"
    by (rule ft_deq_wait) (simp_all add: fifo_sys_new_def fifo_new_def deq_def)
  ultimately have "fifo_reachable 1 ?s2"
    by (rule fr_step [OF _ fs_turn])
  then have "fifo_reachable 1 ?s3"
    by (rule fr_step [OF _ fs_call_enq])
  moreover have "fifo_turn ?s3 ?s4"
    by (rule ft_enq [of _ _ 7 True]) (simp_all add: fifo_sys_new_def fifo_new_def enq_def)
  ultimately have "fifo_reachable 1 ?s4"
    by (rule fr_step [OF _ fs_turn])
  then show ?thesis
    by (intro exI [of _ ?s4]) (simp add: signal_non_empty_def fifo_sys_new_def)
qed

theorem fifo_order_witness: "\<exists>s :: nat fifo_sys. fq (fs_f s) = [7::nat] \<and> fs_in s = fs_out s @ [7]"
proof -
  obtain s where s: "fifo_reachable 1 s" "fq (fs_f s) = [7::nat]"
    using ex_fifo_reachable by blast
  from fifo_order [OF s(1)] s(2) show ?thesis
    by auto
qed

theorem fifo_progress_witness:
  "\<exists>(s :: nat fifo_sys) s'. fifo_reachable 1 s \<and> fifo_turn s s' \<and> fs_out s' = fs_out s @ [7]"
proof -
  obtain s where s: "fifo_reachable 1 s" "fq (fs_f s) = [7::nat]" "fs_deq s + fs_deq_asleep s \<noteq> 0"
    using ex_fifo_reachable by blast
  from fifo_progress [OF s(1)] s show ?thesis
    by auto
qed

end
