(* ===== verification/Thr_Pool.thy ===== *)
theory Thr_Pool
  imports Fifo
begin

text \<open>
  The pool of worker threads (\<^verbatim>\<open>rpc/thr_pool.cc\<close>, \<^verbatim>\<open>rpc/thr_pool.h\<close>) on top of the bounded queue: adding and taking
  jobs, the loop of a worker, and the destructor, which sends every worker a job without a
  function and waits for all of them.
\<close>

section \<open>State and operations\<close>

text \<open>A job is \<open>None\<close> when its function pointer is null.\<close>

record 'j thrpool =
  tp_nthreads :: nat
  tp_blockadd :: bool
  tp_jobq :: "'j option fifo"

definition ThrPool_new :: "i32 \<Rightarrow> bool \<Rightarrow> 'j thrpool" where
  "ThrPool_new sz blocking = \<lparr>tp_nthreads = nat (sint sz), tp_blockadd = blocking, tp_jobq = fifo_new (100 * sz)\<rparr>"

definition addJob :: "'j \<Rightarrow> 'j thrpool \<Rightarrow> bool option \<times> 'j thrpool" where
  "addJob j p = (let (r, q) = enq (Some j) (tp_blockadd p) (tp_jobq p) in (r, p\<lparr>tp_jobq := q\<rparr>))"

text \<open>The job that calls the method of the object with the argument.\<close>

definition addObjJob :: "'o \<Rightarrow> ('o \<Rightarrow> 'a \<Rightarrow> 'j) \<Rightarrow> 'a \<Rightarrow> 'j thrpool \<Rightarrow> bool option \<times> 'j thrpool" where
  "addObjJob obj meth a p = addJob (meth obj a) p"

text \<open>The result and the job; \<open>None\<close> while the queue is empty.\<close>

definition takeJob :: "'j thrpool \<Rightarrow> (bool \<times> 'j option) option \<times> 'j thrpool" where
  "takeJob p =
     (case deq (tp_jobq p) of
        (None, q) \<Rightarrow> (None, p\<lparr>tp_jobq := q\<rparr>)
      | (Some (j, _), q) \<Rightarrow> (Some (j \<noteq> None, j), p\<lparr>tp_jobq := q\<rparr>))"

definition poison :: "'j thrpool \<Rightarrow> bool option \<times> 'j thrpool" where
  "poison p = (let (r, q) = enq None True (tp_jobq p) in (r, p\<lparr>tp_jobq := q\<rparr>))"

section \<open>The pool with its workers\<close>

text \<open>
  The workers that are in \<^verbatim>\<open>takeJob\<close>, the jobs that are being run, the workers that left their loop, how many
  poisoned jobs the destructor has put (\<open>None\<close> before it is called), and the jobs that were accepted
  and started.
\<close>

record 'j pool_sys =
  ps_pool :: "'j thrpool"
  ps_idle :: nat
  ps_running :: "'j list"
  ps_exited :: nat
  ps_pills :: "nat option"
  ps_added :: "'j list"
  ps_started :: "'j list"

definition pool_sys_new :: "i32 \<Rightarrow> bool \<Rightarrow> 'j pool_sys" where
  "pool_sys_new sz blocking = \<lparr>ps_pool = ThrPool_new sz blocking, ps_idle = nat (sint sz), ps_running = [], ps_exited = 0,
     ps_pills = None, ps_added = [], ps_started = []\<rparr>"

text \<open>The rules after the first two are the loop of \<^verbatim>\<open>do_worker\<close> and the destructor.\<close>

inductive pool_step :: "'j pool_sys \<Rightarrow> 'j pool_sys \<Rightarrow> bool" where
  po_add: "ps_pills s = None \<Longrightarrow> addJob j (ps_pool s) = (Some True, p)
    \<Longrightarrow> pool_step s (s\<lparr>ps_pool := p, ps_added := ps_added s @ [j]\<rparr>)"
| po_reject: "ps_pills s = None \<Longrightarrow> addJob j (ps_pool s) = (Some False, p) \<Longrightarrow> pool_step s (s\<lparr>ps_pool := p\<rparr>)"
| po_take: "ps_idle s = Suc n \<Longrightarrow> takeJob (ps_pool s) = (Some (True, Some j), p)
    \<Longrightarrow> pool_step s (s\<lparr>ps_pool := p, ps_idle := n, ps_running := j # ps_running s, ps_started := ps_started s @ [j]\<rparr>)"
| po_die: "ps_idle s = Suc n \<Longrightarrow> takeJob (ps_pool s) = (Some (False, j), p)
    \<Longrightarrow> pool_step s (s\<lparr>ps_pool := p, ps_idle := n, ps_exited := ps_exited s + 1\<rparr>)"
| po_done: "ps_running s = xs @ j # ys \<Longrightarrow> pool_step s (s\<lparr>ps_running := xs @ ys, ps_idle := ps_idle s + 1\<rparr>)"
| po_destroy: "ps_pills s = None \<Longrightarrow> pool_step s (s\<lparr>ps_pills := Some 0\<rparr>)"
| po_pill: "ps_pills s = Some k \<Longrightarrow> k < tp_nthreads (ps_pool s) \<Longrightarrow> poison (ps_pool s) = (Some True, p)
    \<Longrightarrow> pool_step s (s\<lparr>ps_pool := p, ps_pills := Some (k + 1)\<rparr>)"

inductive pool_reachable :: "i32 \<Rightarrow> bool \<Rightarrow> 'j pool_sys \<Rightarrow> bool" for sz blocking where
  pr_new: "pool_reachable sz blocking (pool_sys_new sz blocking)"
| pr_step: "pool_reachable sz blocking s \<Longrightarrow> pool_step s s' \<Longrightarrow> pool_reachable sz blocking s'"

section \<open>Invariant\<close>

definition pills :: "'j pool_sys \<Rightarrow> nat" where
  "pills s = (case ps_pills s of None \<Rightarrow> 0 | Some k \<Rightarrow> k)"

text \<open>
  The history of the queue: all jobs before all poisoned ones, and a worker is in the loop, runs a job
  or has left.
\<close>

definition pool_inv :: "i32 \<Rightarrow> 'j pool_sys \<Rightarrow> bool" where
  "pool_inv sz s \<longleftrightarrow>
     tp_nthreads (ps_pool s) = nat (sint sz) \<and> pills s \<le> nat (sint sz) \<and>
     ps_idle s + length (ps_running s) + ps_exited s = nat (sint sz) \<and>
     ff.history (map Some (ps_added s) @ replicate (pills s) None) (map Some (ps_started s) @ replicate (ps_exited s) None)
       (tp_jobq (ps_pool s))"

lemma pool_inv_history:
  "pool_inv sz s \<Longrightarrow> ff.history (map Some (ps_added s) @ replicate (pills s) None)
     (map Some (ps_started s) @ replicate (ps_exited s) None) (tp_jobq (ps_pool s))"
  by (simp add: pool_inv_def)

lemma after_pill:
  assumes "map Some as @ replicate k None = map Some ss @ replicate (Suc e) None @ q"
  shows "as = ss \<and> q = replicate (k - Suc e) None"
  using assms
proof (induction ss arbitrary: as)
  case Nil
  then have "as = []"
    by (cases as) auto
  moreover have "q = replicate (k - Suc e) None"
    using Nil \<open>as = []\<close> by (metis (no_types) append_Nil append_eq_conv_conj drop_replicate length_replicate list.simps(8))
  ultimately show ?case
    by simp
next
  case (Cons s ss)
  then obtain as' where "as = s # as'"
    by (cases as; cases k) auto
  then show ?case
    using Cons by simp
qed

lemma pool_step_inv: "pool_step s s' \<Longrightarrow> pool_inv sz s \<Longrightarrow> pool_inv sz s'"
proof (induction rule: pool_step.induct)
  case (po_add s j p)
  obtain q where q: "enq (Some j) (tp_blockadd (ps_pool s)) (tp_jobq (ps_pool s)) = (Some True, q)" "p = (ps_pool s)\<lparr>tp_jobq := q\<rparr>"
    using po_add.hyps(2) by (auto simp: addJob_def split: prod.splits)
  have "pills s = 0"
    using po_add.hyps(1) by (simp add: pills_def)
  then show ?case
    using po_add.prems q(2) ff.history_put [OF pool_inv_history [OF po_add.prems] q(1)]
    by (simp add: pool_inv_def pills_def po_add.hyps(1))
next
  case (po_reject s j p)
  then have "p = ps_pool s"
    using ff.put_other [of "Some j" "tp_blockadd (ps_pool s)" "tp_jobq (ps_pool s)" "Some False"]
    by (auto simp: addJob_def split: prod.splits)
  then show ?case
    using po_reject.prems by simp
next
  case (po_take s n j p)
  obtain sig q where q: "deq (tp_jobq (ps_pool s)) = (Some (Some j, sig), q)" "p = (ps_pool s)\<lparr>tp_jobq := q\<rparr>"
    using po_take.hyps(2) by (auto simp: takeJob_def split: prod.splits option.splits)
  have h: "ff.history (map Some (ps_added s) @ replicate (pills s) None) ((map Some (ps_started s) @ replicate (ps_exited s) None) @ [Some j]) q"
    by (rule ff.history_get [OF pool_inv_history [OF po_take.prems] q(1)])
  have "ps_exited s = 0"
  proof (rule ccontr)
    assume "ps_exited s \<noteq> 0"
    then obtain e where "ps_exited s = Suc e"
      using not0_implies_Suc by blast
    then have "Some j # fq q = replicate (pills s - Suc e) None"
      using after_pill [of "ps_added s" "pills s" "ps_started s" e "Some j # fq q"] h by (simp add: ff.history_def)
    then show False
      by (metis Cons_replicate_eq option.distinct(1))
  qed
  then show ?case
    using po_take.prems po_take.hyps(1) h q(2) by (simp add: pool_inv_def pills_def)
next
  case (po_die s n j p)
  obtain sig q where q: "deq (tp_jobq (ps_pool s)) = (Some (None, sig), q)" "p = (ps_pool s)\<lparr>tp_jobq := q\<rparr>"
    using po_die.hyps(2) by (auto simp: takeJob_def split: prod.splits option.splits)
  have "ff.history (map Some (ps_added s) @ replicate (pills s) None) ((map Some (ps_started s) @ replicate (ps_exited s) None) @ [None]) q"
    by (rule ff.history_get [OF pool_inv_history [OF po_die.prems] q(1)])
  then show ?case
    using po_die.prems po_die.hyps(1) q(2) by (simp add: pool_inv_def pills_def replicate_append_same)
next
  case (po_done s xs j ys)
  then show ?case
    by (simp add: pool_inv_def pills_def)
next
  case (po_destroy s)
  then show ?case
    by (simp add: pool_inv_def pills_def)
next
  case (po_pill s k p)
  obtain q where q: "enq None True (tp_jobq (ps_pool s)) = (Some True, q)" "p = (ps_pool s)\<lparr>tp_jobq := q\<rparr>"
    using po_pill.hyps(3) by (auto simp: poison_def split: prod.splits)
  have "ff.history ((map Some (ps_added s) @ replicate k None) @ [None]) (map Some (ps_started s) @ replicate (ps_exited s) None) q"
    using ff.history_put [OF pool_inv_history [OF po_pill.prems] q(1)] by (simp only: pills_def po_pill.hyps(1) option.case)
  then show ?case
    using po_pill.prems po_pill.hyps(1,2) q(2) by (simp add: pool_inv_def pills_def replicate_append_same)
qed

lemma pool_reachable_inv: "pool_reachable sz blocking s \<Longrightarrow> pool_inv sz s"
proof (induction rule: pool_reachable.induct)
  case pr_new
  show ?case
    by (simp add: pool_inv_def pool_sys_new_def ThrPool_new_def fifo_new_def pills_def ff.history_def)
next
  case (pr_step s s')
  then show ?case
    using pool_step_inv by blast
qed

section \<open>What the destructor achieves\<close>

text \<open>
  C18: When the destructor of a pool has put its poisoned jobs and all workers have left, every job that was accepted
  has been started, once and in the order in which it was added, none is still running and nothing is left in the queue.
\<close>

theorem thrpool_drains:
  assumes "pool_reachable sz blocking s" "ps_exited s = tp_nthreads (ps_pool s)" "0 < tp_nthreads (ps_pool s)"
  shows "ps_started s = ps_added s \<and> ps_running s = [] \<and> fq (tp_jobq (ps_pool s)) = [] \<and> ps_pills s = Some (tp_nthreads (ps_pool s))"
proof -
  have inv: "pool_inv sz s"
    using assms(1) by (rule pool_reachable_inv)
  obtain e where e: "ps_exited s = Suc e"
    using assms(2,3) by (metis gr0_implies_Suc)
  have "ps_added s = ps_started s \<and> fq (tp_jobq (ps_pool s)) = replicate (pills s - Suc e) None"
    using pool_inv_history [OF inv] e by (intro after_pill) (simp add: ff.history_def)
  moreover have "pills s \<le> Suc e" "length (ps_running s) = 0"
    using inv assms(2) e by (auto simp: pool_inv_def)
  moreover have "Suc e \<le> pills s"
  proof -
    have "length (map Some (ps_added s) @ replicate (pills s) None) \<ge> length (map Some (ps_started s) @ replicate (Suc e) None)"
      using pool_inv_history [OF inv] e unfolding ff.history_def by (metis length_append le_add1)
    then show ?thesis
      using calculation(1) by simp
  qed
  ultimately show ?thesis
    using assms(2) e by (auto simp: pills_def split: option.splits)
qed

text \<open>The work that is left for the workers once the destructor runs.\<close>

definition work :: "'j pool_sys \<Rightarrow> nat" where
  "work s = 3 * (tp_nthreads (ps_pool s) - pills s) + 2 * length (fq (tp_jobq (ps_pool s))) + length (ps_running s)"

lemma takeJob_length: "takeJob p = (Some r, p') \<Longrightarrow> length (fq (tp_jobq p)) = Suc (length (fq (tp_jobq p')))"
  by (auto simp: takeJob_def deq_def split: list.splits prod.splits option.splits)

lemma takeJob_nthreads: "takeJob p = (r, p') \<Longrightarrow> tp_nthreads p' = tp_nthreads p"
  by (auto simp: takeJob_def split: prod.splits option.splits)

lemma poison_effect:
  "poison p = (Some True, p') \<Longrightarrow> length (fq (tp_jobq p')) = Suc (length (fq (tp_jobq p))) \<and> tp_nthreads p' = tp_nthreads p"
  by (auto simp: poison_def enq_def split: if_splits prod.splits)

lemma pool_step_work:
  assumes "pool_step s s'" "ps_pills s \<noteq> None"
  shows "work s' < work s \<and> ps_pills s' \<noteq> None \<and> tp_nthreads (ps_pool s') = tp_nthreads (ps_pool s)"
  using assms
proof (induction rule: pool_step.induct)
  case (po_take s n j p)
  then show ?case
    using takeJob_length [OF po_take.hyps(2)] takeJob_nthreads [OF po_take.hyps(2)] by (simp add: work_def pills_def)
next
  case (po_die s n j p)
  then show ?case
    using takeJob_length [OF po_die.hyps(2)] takeJob_nthreads [OF po_die.hyps(2)] by (simp add: work_def pills_def)
next
  case (po_pill s k p)
  then show ?case
    using poison_effect [OF po_pill.hyps(3)] by (simp add: work_def pills_def)
qed (simp_all add: work_def pills_def)

lemma pool_not_stuck:
  assumes inv: "pool_inv sz s" and k: "ps_pills s = Some k" and left: "ps_exited s < tp_nthreads (ps_pool s)"
  shows "\<exists>s'. pool_step s s'"
proof (cases "ps_running s")
  case (Cons j js)
  then show ?thesis
    using po_done [of s "[]" j js] by auto
next
  case Nil
  then obtain n where n: "ps_idle s = Suc n"
    using inv left by (cases "ps_idle s") (auto simp: pool_inv_def)
  show ?thesis
  proof (cases "fq (tp_jobq (ps_pool s))")
    case Nil
    then have "length (map Some (ps_added s) @ replicate k (None :: 'a option)) = length (map Some (ps_started s) @ replicate (ps_exited s) (None :: 'a option))"
      using pool_inv_history [OF inv] k by (simp add: ff.history_def pills_def)
    moreover have "map Some (ps_added s) @ replicate k None = map Some (ps_started s) @ replicate (ps_exited s) None"
      using pool_inv_history [OF inv] k Nil by (simp add: ff.history_def pills_def)
    then have "length (filter (\<lambda>x. x = None) (map Some (ps_added s) @ replicate k None))
        = length (filter (\<lambda>x. x = None) (map Some (ps_started s) @ replicate (ps_exited s) None))"
      by simp
    then have "k = ps_exited s"
      by (simp add: filter_map comp_def)
    moreover have "poison (ps_pool s) = (Some True, (ps_pool s)\<lparr>tp_jobq := (tp_jobq (ps_pool s))\<lparr>fq := [None]\<rparr>\<rparr>)"
      using Nil by (cases "fmax (tp_jobq (ps_pool s)) = 0") (auto simp: poison_def enq_def unat_gt_0)
    ultimately show ?thesis
      using po_pill [OF k] left by blast
  next
    case (Cons x q)
    show ?thesis
    proof (cases x)
      case None
      then have "takeJob (ps_pool s) = (Some (False, None), (ps_pool s)\<lparr>tp_jobq := (tp_jobq (ps_pool s))\<lparr>fq := q\<rparr>\<rparr>)"
        using Cons by (simp add: takeJob_def deq_def)
      then show ?thesis
        using po_die [OF n] by blast
    next
      case (Some j)
      then have "takeJob (ps_pool s) = (Some (True, Some j), (ps_pool s)\<lparr>tp_jobq := (tp_jobq (ps_pool s))\<lparr>fq := q\<rparr>\<rparr>)"
        using Cons by (simp add: takeJob_def deq_def)
      then show ?thesis
        using po_take [OF n] by blast
    qed
  qed
qed

lemma pool_finishes:
  assumes "pool_inv sz s" "ps_pills s \<noteq> None"
  shows "\<exists>m \<le> work s. \<exists>s'. (pool_step ^^ m) s s' \<and> ps_exited s' = tp_nthreads (ps_pool s')"
  using assms
proof (induction "work s" arbitrary: s rule: less_induct)
  case less
  show ?case
  proof (cases "ps_exited s = tp_nthreads (ps_pool s)")
    case True
    then show ?thesis
      by (intro exI [of _ 0]) auto
  next
    case False
    then have "ps_exited s < tp_nthreads (ps_pool s)"
      using less.prems(1) by (auto simp: pool_inv_def)
    then obtain s1 where s1: "pool_step s s1"
      using pool_not_stuck [OF less.prems(1)] less.prems(2) by blast
    have w: "work s1 < work s" "ps_pills s1 \<noteq> None"
      using pool_step_work [OF s1 less.prems(2)] by auto
    obtain m s' where m: "m \<le> work s1" "(pool_step ^^ m) s1 s'" "ps_exited s' = tp_nthreads (ps_pool s')"
      using less.hyps [OF w(1) pool_step_inv [OF s1 less.prems(1)] w(2)] by blast
    have "(pool_step ^^ Suc m) s s'"
      by (rule relpowp_Suc_I2 [OF s1 m(2)])
    moreover have "Suc m \<le> work s"
      using m(1) w(1) by simp
    ultimately show ?thesis
      using m(3) by blast
  qed
qed

lemma pool_reachable_run: "(pool_step ^^ m) s s' \<Longrightarrow> pool_reachable sz blocking s \<Longrightarrow> pool_reachable sz blocking s'"
  by (induction m arbitrary: s') (auto intro: pr_step)

text \<open>
  C29: The destructor of a pool returns: from any state in which it has been called, every step that any thread of the
  pool takes reduces the work that is left, and as long as a worker has not left some thread can take a step; so after at
  most that many steps all workers have left.
\<close>

theorem thrpool_join_returns:
  assumes "pool_reachable sz blocking s" "ps_pills s = Some k"
  shows "(\<forall>s'. pool_step s s' \<longrightarrow> work s' < work s) \<and>
    (\<exists>m \<le> work s. \<exists>s'. (pool_step ^^ m) s s' \<and> ps_exited s' = tp_nthreads (ps_pool s'))"
  using pool_step_work [of s] pool_finishes [OF pool_reachable_inv [OF assms(1)]] assms(2) by auto

text \<open>A pool of one worker that is destroyed with a job in its queue.\<close>

definition ex_pool :: "nat pool_sys" where
  "ex_pool = (pool_sys_new 1 True)\<lparr>ps_pool := snd (addJob 5 (ThrPool_new 1 True)), ps_added := [5], ps_pills := Some 0\<rparr>"

lemma ex_pool_reachable: "pool_reachable 1 True ex_pool"
proof -
  let ?s = "(pool_sys_new 1 True)\<lparr>ps_pool := snd (addJob 5 (ThrPool_new 1 True)), ps_added := ps_added (pool_sys_new 1 True) @ [5]\<rparr> :: nat pool_sys"
  have "pool_step (pool_sys_new 1 True) ?s"
    by (rule po_add) (simp_all add: pool_sys_new_def addJob_def enq_def ThrPool_new_def fifo_new_def)
  moreover have "pool_step ?s (?s\<lparr>ps_pills := Some 0\<rparr>)"
    by (rule po_destroy) (simp add: pool_sys_new_def)
  ultimately have "pool_reachable 1 True (?s\<lparr>ps_pills := Some 0\<rparr>)"
    by (rule pr_step [OF pr_step [OF pr_new]])
  then show ?thesis
    by (simp add: ex_pool_def pool_sys_new_def)
qed

lemma ex_pool_work: "work ex_pool = 5" "ps_pills ex_pool = Some 0"
  by (simp_all add: work_def ex_pool_def pool_sys_new_def pills_def addJob_def enq_def ThrPool_new_def fifo_new_def)

theorem thrpool_join_returns_witness:
  "\<exists>m \<le> 5. \<exists>s'. (pool_step ^^ m) ex_pool s' \<and> ps_exited s' = tp_nthreads (ps_pool s')"
  using thrpool_join_returns [OF ex_pool_reachable ex_pool_work(2)] unfolding ex_pool_work(1) by blast

theorem thrpool_drains_witness: "\<exists>s :: nat pool_sys. pool_reachable 1 True s \<and> ps_exited s = 1 \<and> ps_started s = ps_added s"
proof -
  obtain m s' where s': "(pool_step ^^ m) ex_pool s'" "ps_exited s' = tp_nthreads (ps_pool s')"
    using pool_finishes [OF pool_reachable_inv [OF ex_pool_reachable]] ex_pool_work(2) by auto
  have r: "pool_reachable 1 True s'"
    by (rule pool_reachable_run [OF s'(1) ex_pool_reachable])
  then have "tp_nthreads (ps_pool s') = 1"
    using pool_reachable_inv [OF r] by (simp add: pool_inv_def)
  then show ?thesis
    using thrpool_drains [OF r s'(2)] r s'(2) by auto
qed

end
