(* ===== verification/Poll_Mgr.thy ===== *)
theory Poll_Mgr
  imports Prelude
begin

unbundle bit_operations_syntax

text \<open>
  The poll manager (\<^verbatim>\<open>rpc/pollmgr.cc\<close>): the two implementations of the interface \<^verbatim>\<open>aio_mgr\<close>, by \<^verbatim>\<open>select\<close> and by \<^verbatim>\<open>epoll\<close>, the table of
  callbacks, and the polling thread among the threads that add and remove callbacks. Which
  descriptors are ready is a parameter.
\<close>

section \<open>Flags\<close>

datatype poll_flag = CB_NONE | CB_RDONLY | CB_WRONLY | CB_RDWR | CB_MASK

fun flag_val :: "poll_flag \<Rightarrow> i32" where
  "flag_val CB_NONE = 0"
| "flag_val CB_RDONLY = 0x1"
| "flag_val CB_WRONLY = 0x10"
| "flag_val CB_RDWR = 0x11"
| "flag_val CB_MASK = NOT 0x11"

definition MAX_POLL_FDS :: nat where
  "MAX_POLL_FDS = 128"

section \<open>Polling by select\<close>

text \<open>\<open>sa_pipe\<close> is the reading end of the pipe and \<open>sa_bytes\<close> how many bytes are in it.\<close>

record select_aio =
  sa_rfds :: "nat set"
  sa_wfds :: "nat set"
  sa_highfds :: nat
  sa_pipe :: nat
  sa_bytes :: nat

definition SelectAIO_new :: "nat \<Rightarrow> select_aio" where
  "SelectAIO_new p = \<lparr>sa_rfds = {p}, sa_wfds = {}, sa_highfds = p, sa_pipe = p, sa_bytes = 0\<rparr>"

definition sa_watch_fd :: "nat \<Rightarrow> poll_flag \<Rightarrow> select_aio \<Rightarrow> select_aio" where
  "sa_watch_fd fd flag s =
     (let s = (if sa_highfds s \<le> fd then s\<lparr>sa_highfds := fd\<rparr> else s);
          s = (if flag = CB_RDONLY then s\<lparr>sa_rfds := insert fd (sa_rfds s)\<rparr>
               else if flag = CB_WRONLY then s\<lparr>sa_wfds := insert fd (sa_wfds s)\<rparr>
               else s\<lparr>sa_rfds := insert fd (sa_rfds s), sa_wfds := insert fd (sa_wfds s)\<rparr>) in
      s\<lparr>sa_bytes := sa_bytes s + 1\<rparr>)"

definition sa_is_watched :: "nat \<Rightarrow> poll_flag \<Rightarrow> select_aio \<Rightarrow> bool" where
  "sa_is_watched fd flag s =
     (if flag = CB_RDONLY then fd \<in> sa_rfds s
      else if flag = CB_WRONLY then fd \<in> sa_wfds s
      else fd \<in> sa_rfds s \<and> fd \<in> sa_wfds s)"

text \<open>The loop that looks for the new highest descriptor.\<close>

definition sa_newh :: "select_aio \<Rightarrow> nat" where
  "sa_newh s = foldl (\<lambda>h i. if i \<in> sa_rfds s then i else if i \<in> sa_wfds s then i else h) (sa_pipe s) [0..<Suc (sa_highfds s)]"

definition sa_unwatch_fd :: "nat \<Rightarrow> poll_flag \<Rightarrow> select_aio \<Rightarrow> (bool \<times> select_aio) res" where
  "sa_unwatch_fd fd flag s =
     bindR (if flag = CB_RDONLY then Inr (s\<lparr>sa_rfds := sa_rfds s - {fd}\<rparr>)
            else if flag = CB_WRONLY then Inr (s\<lparr>sa_wfds := sa_wfds s - {fd}\<rparr>)
            else if flag = CB_RDWR then Inr (s\<lparr>sa_wfds := sa_wfds s - {fd}, sa_rfds := sa_rfds s - {fd}\<rparr>)
            else Inl VerifyFailed) (\<lambda>s.
       let s = (if fd \<notin> sa_rfds s \<and> fd \<notin> sa_wfds s \<and> fd = sa_highfds s then s\<lparr>sa_highfds := sa_newh s\<rparr> else s);
           s = (if flag = CB_RDWR then s\<lparr>sa_bytes := sa_bytes s + 1\<rparr> else s) in
       Inr (fd \<notin> sa_rfds s \<and> fd \<notin> sa_wfds s, s))"

text \<open>
  \<^verbatim>\<open>wait_ready\<close> in two parts: the copy under the mutex, and what it makes of the ready descriptors \<open>rr\<close> and \<open>rw\<close> when \<^verbatim>\<open>select\<close>
  returns. The results are the readable and the writable descriptors.
\<close>

definition sa_copy :: "select_aio \<Rightarrow> nat set \<times> nat set \<times> nat" where
  "sa_copy s = (sa_rfds s, sa_wfds s, sa_highfds s)"

definition sa_collect ::
  "(nat \<Rightarrow> bool) \<Rightarrow> (nat \<Rightarrow> bool) \<Rightarrow> nat set \<times> nat set \<times> nat \<Rightarrow> select_aio \<Rightarrow> (nat list \<times> nat list \<times> select_aio) res" where
  "sa_collect rr rw copy s =
     (let (r, w, high) = copy;
          tr = (\<lambda>fd. fd \<in> r \<and> rr fd); tw = (\<lambda>fd. fd \<in> w \<and> rw fd);
          note = (\<lambda>fd. fd = sa_pipe s \<and> tr fd) in
      bindR (if sa_pipe s \<le> high \<and> tr (sa_pipe s)
             then if sa_bytes s = 0 then Inl VerifyFailed else Inr (s\<lparr>sa_bytes := sa_bytes s - 1\<rparr>)
             else Inr s) (\<lambda>s.
        Inr (filter (\<lambda>fd. \<not> note fd \<and> tr fd) [0..<Suc high], filter (\<lambda>fd. \<not> note fd \<and> tw fd) [0..<Suc high], s)))"

section \<open>Polling by epoll\<close>

definition EPOLLIN :: u32 where "EPOLLIN = 0x1"
definition EPOLLOUT :: u32 where "EPOLLOUT = 0x4"
definition EPOLLET :: u32 where "EPOLLET = 0x80000000"

datatype epoll_op = EPOLL_CTL_ADD | EPOLL_CTL_MOD | EPOLL_CTL_DEL

text \<open>
  The interest list of the kernel: \<^verbatim>\<open>epoll_ctl\<close> fails when a descriptor is added twice, and when one is changed or removed that is not
  there.
\<close>

definition epoll_ctl :: "epoll_op \<Rightarrow> nat \<Rightarrow> u32 \<Rightarrow> (nat \<rightharpoonup> u32) \<Rightarrow> (nat \<rightharpoonup> u32) option" where
  "epoll_ctl op fd ev l =
     (case op of
        EPOLL_CTL_ADD \<Rightarrow> if l fd = None then Some (l(fd \<mapsto> ev)) else None
      | EPOLL_CTL_MOD \<Rightarrow> if l fd = None then None else Some (l(fd \<mapsto> ev))
      | EPOLL_CTL_DEL \<Rightarrow> if l fd = None then None else Some (l(fd := None)))"

record epoll_aio =
  ea_fdstatus :: "nat \<Rightarrow> i32"
  ea_list :: "nat \<rightharpoonup> u32"

definition EPollAIO_new :: epoll_aio where
  "EPollAIO_new = \<lparr>ea_fdstatus = (\<lambda>_. 0), ea_list = Map.empty\<rparr>"

definition poll_flag_to_event :: "poll_flag \<Rightarrow> u32" where
  "poll_flag_to_event flag =
     (if flag = CB_RDONLY then EPOLLIN else if flag = CB_WRONLY then EPOLLOUT else EPOLLIN OR EPOLLOUT)"

definition ea_events :: "i32 \<Rightarrow> u32" where
  "ea_events st =
     (let ev = EPOLLET;
          ev = (if st AND flag_val CB_RDONLY \<noteq> 0 then ev OR EPOLLIN else ev) in
      if st AND flag_val CB_WRONLY \<noteq> 0 then ev OR EPOLLOUT else ev)"

definition ea_watch_fd :: "nat \<Rightarrow> poll_flag \<Rightarrow> epoll_aio \<Rightarrow> epoll_aio res" where
  "ea_watch_fd fd flag s =
     (if \<not> fd < MAX_POLL_FDS then Inl VerifyFailed
      else
        let op = (if ea_fdstatus s fd \<noteq> 0 then EPOLL_CTL_MOD else EPOLL_CTL_ADD);
            st = ea_fdstatus s fd OR flag_val flag;
            s = s\<lparr>ea_fdstatus := (ea_fdstatus s)(fd := st)\<rparr>;
            ev = ea_events st in
        if flag = CB_RDWR \<and> ev \<noteq> EPOLLET OR EPOLLIN OR EPOLLOUT then Inl VerifyFailed
        else case epoll_ctl op fd ev (ea_list s) of
               None \<Rightarrow> Inl VerifyFailed
             | Some l \<Rightarrow> Inr (s\<lparr>ea_list := l\<rparr>))"

definition ea_unwatch_fd :: "nat \<Rightarrow> poll_flag \<Rightarrow> epoll_aio \<Rightarrow> (bool \<times> epoll_aio) res" where
  "ea_unwatch_fd fd flag s =
     (if \<not> fd < MAX_POLL_FDS then Inl VerifyFailed
      else
        let st = ea_fdstatus s fd AND NOT (flag_val flag);
            s = s\<lparr>ea_fdstatus := (ea_fdstatus s)(fd := st)\<rparr>;
            op = (if st \<noteq> 0 then EPOLL_CTL_MOD else EPOLL_CTL_DEL);
            ev = ea_events st in
        if flag = CB_RDWR \<and> op \<noteq> EPOLL_CTL_DEL then Inl VerifyFailed
        else case epoll_ctl op fd ev (ea_list s) of
               None \<Rightarrow> Inl VerifyFailed
             | Some l \<Rightarrow> Inr (op = EPOLL_CTL_DEL, s\<lparr>ea_list := l\<rparr>))"

definition ea_is_watched :: "nat \<Rightarrow> poll_flag \<Rightarrow> epoll_aio \<Rightarrow> bool res" where
  "ea_is_watched fd flag s =
     (if \<not> fd < MAX_POLL_FDS then Inl VerifyFailed
      else Inr (ea_fdstatus s fd AND flag_val CB_MASK = flag_val flag))"

text \<open>What \<^verbatim>\<open>epoll_wait\<close> reports is a list of descriptors with events.\<close>

definition ea_wait_ready :: "(nat \<times> u32) list \<Rightarrow> nat list \<times> nat list" where
  "ea_wait_ready ready =
     (map fst (filter (\<lambda>(fd, ev). ev AND EPOLLIN \<noteq> 0) ready), map fst (filter (\<lambda>(fd, ev). ev AND EPOLLOUT \<noteq> 0) ready))"

section \<open>The table of callbacks\<close>

record 'c pollmgr =
  pm_callbacks :: "nat \<Rightarrow> 'c option"
  pm_aio :: select_aio
  pm_pending_change :: bool

definition PollMgr_new :: "nat \<Rightarrow> 'c pollmgr" where
  "PollMgr_new p = \<lparr>pm_callbacks = (\<lambda>_. None), pm_aio = SelectAIO_new p, pm_pending_change = False\<rparr>"

definition add_callback :: "nat \<Rightarrow> poll_flag \<Rightarrow> 'c \<Rightarrow> 'c pollmgr \<Rightarrow> 'c pollmgr res" where
  "add_callback fd flag ch p =
     (if \<not> fd < MAX_POLL_FDS then Inl VerifyFailed
      else
        let p = p\<lparr>pm_aio := sa_watch_fd fd flag (pm_aio p)\<rparr> in
        if pm_callbacks p fd = None \<or> pm_callbacks p fd = Some ch
        then Inr (p\<lparr>pm_callbacks := (pm_callbacks p)(fd := Some ch)\<rparr>)
        else Inl VerifyFailed)"

text \<open>\<^verbatim>\<open>block_remove_fd\<close> up to its wait and after it.\<close>

definition block_remove_begin :: "nat \<Rightarrow> 'c pollmgr \<Rightarrow> 'c pollmgr res" where
  "block_remove_begin fd p =
     bindR (sa_unwatch_fd fd CB_RDWR (pm_aio p)) (\<lambda>(b, s). Inr (p\<lparr>pm_aio := s, pm_pending_change := True\<rparr>))"

definition block_remove_end :: "nat \<Rightarrow> 'c pollmgr \<Rightarrow> 'c pollmgr" where
  "block_remove_end fd p = p\<lparr>pm_callbacks := (pm_callbacks p)(fd := None)\<rparr>"

definition del_callback :: "nat \<Rightarrow> poll_flag \<Rightarrow> 'c pollmgr \<Rightarrow> 'c pollmgr res" where
  "del_callback fd flag p =
     bindR (sa_unwatch_fd fd flag (pm_aio p)) (\<lambda>(b, s).
       let p = p\<lparr>pm_aio := s\<rparr> in
       Inr (if b then p\<lparr>pm_callbacks := (pm_callbacks p)(fd := None)\<rparr> else p))"

definition has_callback :: "nat \<Rightarrow> poll_flag \<Rightarrow> 'c \<Rightarrow> 'c pollmgr \<Rightarrow> bool" where
  "has_callback fd flag c p =
     (if pm_callbacks p fd = None \<or> pm_callbacks p fd \<noteq> Some c then False else sa_is_watched fd flag (pm_aio p))"

section \<open>The interface aio\_mgr\<close>

definition reads :: "poll_flag \<Rightarrow> bool" where
  "reads flag \<longleftrightarrow> flag = CB_RDONLY \<or> flag = CB_RDWR"

definition writes :: "poll_flag \<Rightarrow> bool" where
  "writes flag \<longleftrightarrow> flag = CB_WRONLY \<or> flag = CB_RDWR"

datatype aio_op = Watch nat poll_flag | Unwatch nat poll_flag

text \<open>What the operations mean for the descriptors watched for reading and writing.\<close>

fun spec_op :: "aio_op \<Rightarrow> nat set \<times> nat set \<Rightarrow> nat set \<times> nat set" where
  "spec_op (Watch fd flag) (r, w) = (if reads flag then insert fd r else r, if writes flag then insert fd w else w)"
| "spec_op (Unwatch fd flag) (r, w) = (if reads flag then r - {fd} else r, if writes flag then w - {fd} else w)"

fun spec_res :: "aio_op \<Rightarrow> nat set \<times> nat set \<Rightarrow> bool" where
  "spec_res (Watch fd flag) rw = True"
| "spec_res (Unwatch fd flag) rw \<longleftrightarrow> fd \<notin> fst rw \<and> fd \<notin> snd rw"

text \<open>Proper use: a descriptor in range, a flag that names a direction, and only what is watched is unwatched.\<close>

fun op_ok :: "aio_op \<Rightarrow> nat set \<times> nat set \<Rightarrow> bool" where
  "op_ok (Watch fd flag) rw \<longleftrightarrow> fd < MAX_POLL_FDS \<and> (reads flag \<or> writes flag)"
| "op_ok (Unwatch fd flag) rw \<longleftrightarrow> fd < MAX_POLL_FDS \<and> (reads flag \<or> writes flag) \<and> (fd \<in> fst rw \<or> fd \<in> snd rw)"

fun spec_ok :: "aio_op list \<Rightarrow> nat set \<times> nat set \<Rightarrow> bool" where
  "spec_ok [] rw \<longleftrightarrow> True"
| "spec_ok (op # ops) rw \<longleftrightarrow> op_ok op rw \<and> spec_ok ops (spec_op op rw)"

fun spec_results :: "aio_op list \<Rightarrow> nat set \<times> nat set \<Rightarrow> bool list" where
  "spec_results [] rw = []"
| "spec_results (op # ops) rw = spec_res op (spec_op op rw) # spec_results ops (spec_op op rw)"

fun aio_op_run ::
  "(nat \<Rightarrow> poll_flag \<Rightarrow> 's \<Rightarrow> 's res) \<Rightarrow> (nat \<Rightarrow> poll_flag \<Rightarrow> 's \<Rightarrow> (bool \<times> 's) res) \<Rightarrow> aio_op \<Rightarrow> 's \<Rightarrow> (bool \<times> 's) res" where
  "aio_op_run watch unwatch (Watch fd flag) s = bindR (watch fd flag s) (\<lambda>s. Inr (True, s))"
| "aio_op_run watch unwatch (Unwatch fd flag) s = unwatch fd flag s"

fun aio_run ::
  "(nat \<Rightarrow> poll_flag \<Rightarrow> 's \<Rightarrow> 's res) \<Rightarrow> (nat \<Rightarrow> poll_flag \<Rightarrow> 's \<Rightarrow> (bool \<times> 's) res) \<Rightarrow> aio_op list \<Rightarrow> 's \<Rightarrow> (bool list \<times> 's) res" where
  "aio_run watch unwatch [] s = Inr ([], s)"
| "aio_run watch unwatch (op # ops) s =
     bindR (aio_op_run watch unwatch op s) (\<lambda>(b, s). bindR (aio_run watch unwatch ops s) (\<lambda>(bs, s). Inr (b # bs, s)))"

text \<open>The contract: one operation does to the watched descriptors what its meaning says.\<close>

locale aio =
  fixes watch :: "nat \<Rightarrow> poll_flag \<Rightarrow> 's \<Rightarrow> 's res"
    and unwatch :: "nat \<Rightarrow> poll_flag \<Rightarrow> 's \<Rightarrow> (bool \<times> 's) res"
    and watched :: "'s \<Rightarrow> nat set \<times> nat set"
    and ok :: "'s \<Rightarrow> bool"
  assumes op_spec: "ok s \<Longrightarrow> op_ok op (watched s) \<Longrightarrow> \<exists>s'. aio_op_run watch unwatch op s = Inr (spec_res op (watched s'), s')
    \<and> ok s' \<and> watched s' = spec_op op (watched s)"
begin

lemma run_spec:
  assumes "ok s" "spec_ok ops (watched s)"
  shows "\<exists>s'. aio_run watch unwatch ops s = Inr (spec_results ops (watched s), s') \<and> ok s'
    \<and> watched s' = fold spec_op ops (watched s)"
  using assms
proof (induction ops arbitrary: s)
  case (Cons op ops)
  then obtain s1 where s1: "aio_op_run watch unwatch op s = Inr (spec_res op (watched s1), s1)" "ok s1" "watched s1 = spec_op op (watched s)"
    using op_spec by fastforce
  obtain s2 where "aio_run watch unwatch ops s1 = Inr (spec_results ops (watched s1), s2)" "ok s2" "watched s2 = fold spec_op ops (watched s1)"
    using Cons.IH [OF s1(2)] Cons.prems(2) s1(3) by auto
  then show ?case
    using s1 by simp
qed simp

end

text \<open>The implementation by select keeps the highest descriptor above all that it watches.\<close>

definition sa_ok :: "select_aio \<Rightarrow> bool" where
  "sa_ok s \<longleftrightarrow> (\<forall>fd \<in> sa_rfds s \<union> sa_wfds s. fd \<le> sa_highfds s)"

lemma sa_newh_ge:
  assumes "fd \<in> sa_rfds s \<union> sa_wfds s" "fd \<le> sa_highfds s"
  shows "fd \<le> sa_newh s"
proof -
  have ge: "fd \<le> foldl (\<lambda>h i. if i \<in> sa_rfds s then i else if i \<in> sa_wfds s then i else h) h [0..<n]"
    if "fd < n" for h n
    using that
  proof (induction n)
    case (Suc n)
    then show ?case
      using assms(1) by (cases "fd = n") auto
  qed simp
  show ?thesis
    unfolding sa_newh_def by (rule ge) (use assms(2) in simp)
qed

lemma sa_watch_sets:
  assumes "reads flag \<or> writes flag"
  shows "(sa_rfds (sa_watch_fd fd flag s), sa_wfds (sa_watch_fd fd flag s)) = spec_op (Watch fd flag) (sa_rfds s, sa_wfds s)"
  using assms by (cases flag) (simp_all add: sa_watch_fd_def reads_def writes_def)

lemma sa_watch_ok:
  assumes "sa_ok s"
  shows "sa_ok (sa_watch_fd fd flag s)"
proof -
  have "sa_highfds (sa_watch_fd fd flag s) = max (sa_highfds s) fd"
    by (simp add: sa_watch_fd_def)
  moreover have "sa_rfds (sa_watch_fd fd flag s) \<subseteq> insert fd (sa_rfds s)" "sa_wfds (sa_watch_fd fd flag s) \<subseteq> insert fd (sa_wfds s)"
    by (auto simp: sa_watch_fd_def Let_def split: if_splits)
  ultimately show ?thesis
    using assms unfolding sa_ok_def by (metis UnE UnI1 UnI2 insertE max.cobounded1 max.cobounded2 order_trans subsetD)
qed

lemma sa_unwatch_spec:
  assumes "reads flag \<or> writes flag"
  shows "\<exists>s'. sa_unwatch_fd fd flag s = Inr (fd \<notin> sa_rfds s' \<and> fd \<notin> sa_wfds s', s') \<and> (sa_ok s \<longrightarrow> sa_ok s')
    \<and> (sa_rfds s', sa_wfds s') = spec_op (Unwatch fd flag) (sa_rfds s, sa_wfds s)
    \<and> sa_pipe s' = sa_pipe s \<and> sa_bytes s' = (if flag = CB_RDWR then sa_bytes s + 1 else sa_bytes s)"
proof -
  define s1 where "s1 = s\<lparr>sa_rfds := (if reads flag then sa_rfds s - {fd} else sa_rfds s),
    sa_wfds := (if writes flag then sa_wfds s - {fd} else sa_wfds s)\<rparr>"
  define s2 where "s2 = (if fd \<notin> sa_rfds s1 \<and> fd \<notin> sa_wfds s1 \<and> fd = sa_highfds s1 then s1\<lparr>sa_highfds := sa_newh s1\<rparr> else s1)"
  define s3 where "s3 = (if flag = CB_RDWR then s2\<lparr>sa_bytes := sa_bytes s2 + 1\<rparr> else s2)"
  have run: "sa_unwatch_fd fd flag s = Inr (fd \<notin> sa_rfds s3 \<and> fd \<notin> sa_wfds s3, s3)"
    using assms unfolding s3_def s2_def s1_def
    by (cases s; cases flag) (auto simp: sa_unwatch_fd_def reads_def writes_def)
  have sets: "sa_rfds s3 = sa_rfds s1" "sa_wfds s3 = sa_wfds s1"
      "sa_pipe s3 = sa_pipe s" "sa_bytes s3 = (if flag = CB_RDWR then sa_bytes s + 1 else sa_bytes s)"
    by (simp_all add: s3_def s2_def s1_def)
  have "sa_ok s1" if "sa_ok s"
    using that by (auto simp: sa_ok_def s1_def)
  then have "sa_ok s2" if "sa_ok s"
    using that sa_newh_ge [of _ s1] by (auto simp: sa_ok_def s2_def)
  then have "sa_ok s \<longrightarrow> sa_ok s3"
    by (auto simp: sa_ok_def s3_def)
  then show ?thesis
    using run sets by (intro exI [of _ s3]) (simp add: s1_def)
qed

interpretation select_aio: aio "\<lambda>fd flag s. Inr (sa_watch_fd fd flag s)" sa_unwatch_fd "\<lambda>s. (sa_rfds s, sa_wfds s)" sa_ok
proof
  fix s op
  assume s: "sa_ok s" "op_ok op (sa_rfds s, sa_wfds s)"
  show "\<exists>s'. aio_op_run (\<lambda>fd flag s. Inr (sa_watch_fd fd flag s)) sa_unwatch_fd op s = Inr (spec_res op (sa_rfds s', sa_wfds s'), s')
      \<and> sa_ok s' \<and> (sa_rfds s', sa_wfds s') = spec_op op (sa_rfds s, sa_wfds s)"
  proof (cases op)
    case (Watch fd flag)
    then show ?thesis
      using s sa_watch_sets sa_watch_ok by simp
  next
    case (Unwatch fd flag)
    then show ?thesis
      using s sa_unwatch_spec [of flag fd s] by auto
  qed
qed

text \<open>The implementation by epoll mirrors the interest list of the kernel.\<close>

definition ea_ok :: "epoll_aio \<Rightarrow> bool" where
  "ea_ok s \<longleftrightarrow> (\<forall>fd. ea_fdstatus s fd \<in> {0, 0x1, 0x10, 0x11}
     \<and> ea_list s fd = (if ea_fdstatus s fd = 0 then None else Some (ea_events (ea_fdstatus s fd))))"

definition ea_watched :: "epoll_aio \<Rightarrow> nat set \<times> nat set" where
  "ea_watched s = ({fd. ea_fdstatus s fd AND flag_val CB_RDONLY \<noteq> 0}, {fd. ea_fdstatus s fd AND flag_val CB_WRONLY \<noteq> 0})"

lemma ea_status: "ea_ok s \<Longrightarrow> ea_fdstatus s fd \<in> {0, 0x1, 0x10, 0x11}"
  by (simp add: ea_ok_def)

lemma ea_watch_spec:
  assumes "ea_ok s" "fd < MAX_POLL_FDS" "reads flag \<or> writes flag"
  shows "\<exists>s'. ea_watch_fd fd flag s = Inr s' \<and> ea_ok s' \<and> ea_watched s' = spec_op (Watch fd flag) (ea_watched s)"
proof -
  have l: "ea_list s fd = (if ea_fdstatus s fd = 0 then None else Some (ea_events (ea_fdstatus s fd)))"
    using assms(1) by (simp add: ea_ok_def)
  define st where "st = ea_fdstatus s fd OR flag_val flag"
  let ?s = "s\<lparr>ea_fdstatus := (ea_fdstatus s)(fd := st), ea_list := (ea_list s)(fd \<mapsto> ea_events st)\<rparr>"
  have st: "st \<in> {0x1, 0x10, 0x11}"
      "st AND 0x1 \<noteq> 0 \<longleftrightarrow> reads flag \<or> ea_fdstatus s fd AND 0x1 \<noteq> 0" "st AND 0x10 \<noteq> 0 \<longleftrightarrow> writes flag \<or> ea_fdstatus s fd AND 0x10 \<noteq> 0"
      "flag = CB_RDWR \<Longrightarrow> st = 0x11"
    using ea_status [OF assms(1), of fd] assms(3) by (cases flag; auto simp: st_def reads_def writes_def)+
  have "ea_watch_fd fd flag s = Inr ?s"
    using assms(2) l st(1,4) unfolding ea_watch_fd_def st_def [symmetric] Let_def
    by (auto simp: epoll_ctl_def ea_events_def EPOLLET_def EPOLLIN_def EPOLLOUT_def)
  moreover have "ea_ok ?s"
    using assms(1) st(1) by (auto simp: ea_ok_def)
  moreover have "ea_watched ?s = spec_op (Watch fd flag) (ea_watched s)"
    using st(2,3) by (auto simp: ea_watched_def)
  ultimately show ?thesis
    by blast
qed

lemma ea_unwatch_spec:
  assumes "ea_ok s" "fd < MAX_POLL_FDS" "reads flag \<or> writes flag" "fd \<in> fst (ea_watched s) \<or> fd \<in> snd (ea_watched s)"
  shows "\<exists>s'. ea_unwatch_fd fd flag s = Inr (fd \<notin> fst (ea_watched s') \<and> fd \<notin> snd (ea_watched s'), s') \<and> ea_ok s'
    \<and> ea_watched s' = spec_op (Unwatch fd flag) (ea_watched s)"
proof -
  have l: "ea_list s fd \<noteq> None"
    using assms(1,4) by (auto simp: ea_ok_def ea_watched_def)
  define st where "st = ea_fdstatus s fd AND NOT (flag_val flag)"
  let ?s = "s\<lparr>ea_fdstatus := (ea_fdstatus s)(fd := st), ea_list := (ea_list s)(fd := if st = 0 then None else Some (ea_events st))\<rparr>"
  have st: "st \<in> {0, 0x1, 0x10, 0x11}"
      "st AND 0x1 \<noteq> 0 \<longleftrightarrow> \<not> reads flag \<and> ea_fdstatus s fd AND 0x1 \<noteq> 0" "st AND 0x10 \<noteq> 0 \<longleftrightarrow> \<not> writes flag \<and> ea_fdstatus s fd AND 0x10 \<noteq> 0"
      "flag = CB_RDWR \<Longrightarrow> st = 0"
    using ea_status [OF assms(1), of fd] assms(3) by (cases flag; auto simp: st_def reads_def writes_def)+
  have "ea_unwatch_fd fd flag s = Inr (st = 0, ?s)"
    using assms(2) l st(4) unfolding ea_unwatch_fd_def st_def [symmetric] Let_def
    by (auto simp: epoll_ctl_def)
  moreover have "ea_ok ?s"
    using assms(1) st(1) by (auto simp: ea_ok_def)
  moreover have "ea_watched ?s = spec_op (Unwatch fd flag) (ea_watched s)"
    using st(2,3) by (auto simp: ea_watched_def)
  moreover have "st = 0 \<longleftrightarrow> fd \<notin> fst (ea_watched ?s) \<and> fd \<notin> snd (ea_watched ?s)"
    using st(1) by (auto simp: ea_watched_def)
  ultimately show ?thesis
    by (intro exI [of _ ?s]) simp
qed

interpretation epoll_aio: aio ea_watch_fd ea_unwatch_fd ea_watched ea_ok
proof
  fix s op
  assume s: "ea_ok s" "op_ok op (ea_watched s)"
  show "\<exists>s'. aio_op_run ea_watch_fd ea_unwatch_fd op s = Inr (spec_res op (ea_watched s'), s')
      \<and> ea_ok s' \<and> ea_watched s' = spec_op op (ea_watched s)"
  proof (cases op)
    case (Watch fd flag)
    then show ?thesis
      using s ea_watch_spec [of s fd flag] by auto
  next
    case (Unwatch fd flag)
    then show ?thesis
      using s ea_unwatch_spec [of s fd flag] by auto
  qed
qed

text \<open>The pipe of the implementation by select does not matter for the other descriptors.\<close>

fun op_fd :: "aio_op \<Rightarrow> nat" where
  "op_fd (Watch fd flag) = fd"
| "op_fd (Unwatch fd flag) = fd"

lemma spec_insert:
  assumes "p \<notin> op_fd ` set ops"
  shows "(spec_ok ops (insert p r, w) \<longleftrightarrow> spec_ok ops (r, w)) \<and> spec_results ops (insert p r, w) = spec_results ops (r, w)
    \<and> fold spec_op ops (insert p r, w) = (insert p (fst (fold spec_op ops (r, w))), snd (fold spec_op ops (r, w)))"
  using assms
proof (induction ops arbitrary: r w)
  case (Cons op ops)
  obtain r' w' where rw: "spec_op op (r, w) = (r', w')"
    by (cases "spec_op op (r, w)")
  then have op: "spec_op op (r, w) = (r', w')" "spec_op op (insert p r, w) = (insert p r', w')"
    using Cons.prems by (cases op; auto split: if_splits)+
  have "op_ok op (insert p r, w) = op_ok op (r, w)" "spec_res op (insert p r', w') = spec_res op (r', w')"
    using Cons.prems by (cases op; auto)+
  then show ?case
    using Cons.IH [of r' w'] Cons.prems op by simp
qed simp

text \<open>
  C19: The two implementations of the polling interface are interchangeable: as created and used properly, any sequence of watching and
  unwatching descriptors gives the same results on both, never fails on either, and leaves the same descriptors watched for
  reading and for writing, apart from the pipe that the one by select watches for itself.
\<close>

theorem select_epoll_agree:
  assumes "spec_ok ops ({}, {})" "p \<notin> op_fd ` set ops"
  shows "\<exists>s e. aio_run (\<lambda>fd flag s. Inr (sa_watch_fd fd flag s)) sa_unwatch_fd ops (SelectAIO_new p) = Inr (spec_results ops ({}, {}), s)
    \<and> aio_run ea_watch_fd ea_unwatch_fd ops EPollAIO_new = Inr (spec_results ops ({}, {}), e)
    \<and> (insert p (fst (ea_watched e)), snd (ea_watched e)) = (sa_rfds s, sa_wfds s)"
proof -
  let ?s0 = "SelectAIO_new p"
  have s0: "sa_ok ?s0" "(sa_rfds ?s0, sa_wfds ?s0) = ({p}, {})"
    by (simp_all add: sa_ok_def SelectAIO_new_def)
  have e0: "ea_ok EPollAIO_new" "ea_watched EPollAIO_new = ({}, {})"
    by (simp_all add: ea_ok_def ea_watched_def EPollAIO_new_def)
  have "spec_ok ops ({p}, {})"
    using assms spec_insert [OF assms(2), of "{}" "{}"] by simp
  from select_aio.run_spec [OF s0(1), unfolded s0(2), OF this] epoll_aio.run_spec [OF e0(1), unfolded e0(2), OF assms(1)]
  show ?thesis
    using spec_insert [OF assms(2), of "{}" "{}"] by auto
qed

theorem select_epoll_agree_witness:
  "\<exists>e. aio_run ea_watch_fd ea_unwatch_fd [Watch 5 CB_RDONLY, Watch 5 CB_WRONLY, Unwatch 5 CB_WRONLY, Unwatch 5 CB_RDWR] EPollAIO_new
     = Inr ([True, True, False, True], e)"
proof -
  have "spec_ok [Watch 5 CB_RDONLY, Watch 5 CB_WRONLY, Unwatch 5 CB_WRONLY, Unwatch 5 CB_RDWR] ({}, {})"
    by (simp add: reads_def writes_def MAX_POLL_FDS_def)
  from select_epoll_agree [OF this, of 3] show ?thesis
    by (auto simp: reads_def writes_def)
qed

text \<open>
  Asked whether a descriptor is watched, the implementation by epoll denies it for every descriptor that is watched,
  whatever it is watched for: the mask is the complement of the one that is needed.
\<close>

theorem epoll_is_watched_never:
  assumes "ea_ok s" "fd < MAX_POLL_FDS" "reads flag \<or> writes flag"
  shows "ea_is_watched fd flag s = Inr False"
  using ea_status [OF assms(1), of fd] assms(2,3) by (cases flag) (auto simp: ea_is_watched_def reads_def writes_def)

section \<open>What the polling thread sees\<close>

text \<open>
  A round of \<^verbatim>\<open>select\<close> reports exactly the descriptors that are watched and ready, each once and in ascending order, leaving out
  the pipe, from which it takes one byte; the bound it keeps on the descriptors never cuts one off.
\<close>

theorem select_reports:
  assumes "sa_ok s" "sa_pipe s \<in> sa_rfds s" "sa_pipe s \<notin> sa_wfds s" "rr (sa_pipe s) \<longleftrightarrow> 0 < sa_bytes s"
  shows "\<exists>rl wl. sa_collect rr rw (sa_copy s) s = Inr (rl, wl, s\<lparr>sa_bytes := sa_bytes s - 1\<rparr>)
    \<and> set rl = {fd \<in> sa_rfds s. rr fd} - {sa_pipe s} \<and> set wl = {fd \<in> sa_wfds s. rw fd}
    \<and> sorted_wrt (<) rl \<and> sorted_wrt (<) wl"
proof -
  let ?note = "\<lambda>fd. fd = sa_pipe s \<and> fd \<in> sa_rfds s \<and> rr fd"
  let ?rl = "filter (\<lambda>fd. \<not> ?note fd \<and> fd \<in> sa_rfds s \<and> rr fd) [0..<Suc (sa_highfds s)]"
  let ?wl = "filter (\<lambda>fd. \<not> ?note fd \<and> fd \<in> sa_wfds s \<and> rw fd) [0..<Suc (sa_highfds s)]"
  have "sa_pipe s \<le> sa_highfds s"
    using assms(1,2) by (auto simp: sa_ok_def)
  then have "sa_collect rr rw (sa_copy s) s = Inr (?rl, ?wl, s\<lparr>sa_bytes := sa_bytes s - 1\<rparr>)"
    using assms(2,4) by (cases s) (auto simp: sa_collect_def sa_copy_def Let_def simp del: upt_Suc intro!: filter_cong)
  moreover have "set ?rl = {fd \<in> sa_rfds s. rr fd} - {sa_pipe s}" "set ?wl = {fd \<in> sa_wfds s. rw fd}"
    using assms(1,3) by (auto simp: sa_ok_def less_Suc_eq_le simp del: upt_Suc)
  moreover have "sorted_wrt (<) ?rl" "sorted_wrt (<) ?wl"
    by (rule sorted_wrt_filter, rule sorted_wrt_upt)+
  ultimately show ?thesis
    by blast
qed

theorem select_reports_witness:
  "\<exists>rl wl. sa_collect (\<lambda>fd. fd \<in> {3, 9}) (\<lambda>fd. False) (sa_copy (sa_watch_fd 9 CB_RDONLY (SelectAIO_new 3)))
     (sa_watch_fd 9 CB_RDONLY (SelectAIO_new 3)) = Inr (rl, wl, (sa_watch_fd 9 CB_RDONLY (SelectAIO_new 3))\<lparr>sa_bytes := 0\<rparr>) \<and> set rl = {9}"
proof -
  let ?s = "sa_watch_fd 9 CB_RDONLY (SelectAIO_new 3)"
  have "sa_ok ?s"
    by (rule sa_watch_ok) (simp add: sa_ok_def SelectAIO_new_def)
  then show ?thesis
    using select_reports [of ?s "\<lambda>fd. fd \<in> {3, 9}" "\<lambda>fd. False"] by (auto simp: sa_watch_fd_def SelectAIO_new_def)
qed

section \<open>The polling thread among the others\<close>

text \<open>
  Where the polling thread is: at the top of its loop, before it copies the sets, in \<^verbatim>\<open>select\<close> with the copies, or calling
  back for the descriptors that are left. The threads in \<^verbatim>\<open>block_remove_fd\<close> wait or have been woken up; \<open>py_removed\<close> are the descriptors whose
  removal has returned and that were not added since, and \<open>py_calls\<close> records the callbacks made.
\<close>

datatype poll_pc = PL_Top | PL_Copy | PL_Select "nat set \<times> nat set \<times> nat" | PL_Run "nat list" "nat list"

record 'c poll_sys =
  py_pm :: "'c pollmgr"
  py_pc :: poll_pc
  py_waiting :: "nat list"
  py_woken :: "nat list"
  py_removed :: "nat set"
  py_calls :: "(nat \<times> 'c) list"

definition poll_sys_new :: "nat \<Rightarrow> 'c poll_sys" where
  "poll_sys_new p = \<lparr>py_pm = PollMgr_new p, py_pc = PL_Top, py_waiting = [], py_woken = [], py_removed = {}, py_calls = []\<rparr>"

definition call_back :: "nat \<Rightarrow> 'c poll_sys \<Rightarrow> 'c poll_sys" where
  "call_back fd y =
     (case pm_callbacks (py_pm y) fd of None \<Rightarrow> y | Some c \<Rightarrow> y\<lparr>py_calls := py_calls y @ [(fd, c)]\<rparr>)"

definition wait_loop :: "(nat \<Rightarrow> bool) \<Rightarrow> (nat \<Rightarrow> bool) \<Rightarrow> 'c poll_sys \<Rightarrow> 'c poll_sys res" where
  "wait_loop rr rw y =
     (case py_pc y of
        PL_Top \<Rightarrow>
          let y = (if pm_pending_change (py_pm y)
                   then y\<lparr>py_pm := (py_pm y)\<lparr>pm_pending_change := False\<rparr>, py_woken := py_woken y @ py_waiting y, py_waiting := []\<rparr>
                   else y) in
          Inr (y\<lparr>py_pc := PL_Copy\<rparr>)
      | PL_Copy \<Rightarrow> Inr (y\<lparr>py_pc := PL_Select (sa_copy (pm_aio (py_pm y)))\<rparr>)
      | PL_Select copy \<Rightarrow>
          bindR (sa_collect rr rw copy (pm_aio (py_pm y))) (\<lambda>(rl, wl, s).
            Inr (y\<lparr>py_pm := (py_pm y)\<lparr>pm_aio := s\<rparr>, py_pc := (if rl = [] \<and> wl = [] then PL_Top else PL_Run rl wl)\<rparr>))
      | PL_Run [] [] \<Rightarrow> Inr (y\<lparr>py_pc := PL_Top\<rparr>)
      | PL_Run [] (fd # wl) \<Rightarrow> Inr ((call_back fd y)\<lparr>py_pc := PL_Run [] wl\<rparr>)
      | PL_Run (fd # rl) wl \<Rightarrow> Inr ((call_back fd y)\<lparr>py_pc := PL_Run rl wl\<rparr>))"

text \<open>\<^verbatim>\<open>select\<close> reports the pipe as readable exactly when there is a byte in it.\<close>

definition loop_step :: "'c poll_sys \<Rightarrow> 'c poll_sys \<Rightarrow> bool" where
  "loop_step y y' \<longleftrightarrow> (\<exists>rr rw. wait_loop rr rw y = Inr y' \<and> (rr (sa_pipe (pm_aio (py_pm y))) \<longleftrightarrow> 0 < sa_bytes (pm_aio (py_pm y))))"

text \<open>
  All threads. No one adds a descriptor that is being removed, and the pipe belongs to the polling
  thread; a thread waits in \<^verbatim>\<open>block_remove_fd\<close> until it is signalled.
\<close>

inductive poll_step :: "'c poll_sys \<Rightarrow> 'c poll_sys \<Rightarrow> bool" where
  py_loop: "loop_step y y' \<Longrightarrow> poll_step y y'"
| py_add: "fd \<noteq> sa_pipe (pm_aio (py_pm y)) \<Longrightarrow> fd \<notin> set (py_waiting y) \<union> set (py_woken y) \<Longrightarrow> reads flag \<or> writes flag
    \<Longrightarrow> add_callback fd flag ch (py_pm y) = Inr pm
    \<Longrightarrow> poll_step y (y\<lparr>py_pm := pm, py_removed := py_removed y - {fd}\<rparr>)"
| py_del: "fd \<noteq> sa_pipe (pm_aio (py_pm y)) \<Longrightarrow> reads flag \<or> writes flag \<Longrightarrow> del_callback fd flag (py_pm y) = Inr pm
    \<Longrightarrow> poll_step y (y\<lparr>py_pm := pm\<rparr>)"
| py_remove: "fd \<noteq> sa_pipe (pm_aio (py_pm y)) \<Longrightarrow> block_remove_begin fd (py_pm y) = Inr pm
    \<Longrightarrow> poll_step y (y\<lparr>py_pm := pm, py_waiting := fd # py_waiting y\<rparr>)"
| py_return: "py_woken y = xs @ fd # ys
    \<Longrightarrow> poll_step y (y\<lparr>py_pm := block_remove_end fd (py_pm y), py_woken := xs @ ys, py_removed := insert fd (py_removed y)\<rparr>)"

inductive poll_reachable :: "'c poll_sys \<Rightarrow> bool" where
  py_new: "poll_reachable (poll_sys_new p)"
| py_step: "poll_reachable y \<Longrightarrow> poll_step y y' \<Longrightarrow> poll_reachable y'"

section \<open>Invariant\<close>

fun pc_fds :: "poll_pc \<Rightarrow> nat set" where
  "pc_fds PL_Top = {}"
| "pc_fds PL_Copy = {}"
| "pc_fds (PL_Select (r, w, high)) = r \<union> w"
| "pc_fds (PL_Run rl wl) = set rl \<union> set wl"

abbreviation aio_of :: "'c poll_sys \<Rightarrow> select_aio" where
  "aio_of y \<equiv> pm_aio (py_pm y)"

definition aio_inv :: "select_aio \<Rightarrow> bool" where
  "aio_inv s \<longleftrightarrow> sa_ok s \<and> sa_pipe s \<in> sa_rfds s \<and> sa_pipe s \<notin> sa_wfds s"

definition pc_inv :: "poll_pc \<Rightarrow> select_aio \<Rightarrow> bool \<Rightarrow> bool" where
  "pc_inv pc s pending \<longleftrightarrow>
     (case pc of
        PL_Copy \<Rightarrow> pending \<longrightarrow> 0 < sa_bytes s
      | PL_Select (r, w, high) \<Rightarrow> sa_pipe s \<in> r \<and> sa_pipe s \<le> high \<and> (pending \<longrightarrow> 0 < sa_bytes s)
      | _ \<Rightarrow> True)"

definition gone :: "'c poll_sys \<Rightarrow> nat set" where
  "gone y = set (py_woken y) \<union> py_removed y"

definition poll_inv :: "'c poll_sys \<Rightarrow> bool" where
  "poll_inv y \<longleftrightarrow>
     aio_inv (aio_of y) \<and> pc_inv (py_pc y) (aio_of y) (pm_pending_change (py_pm y)) \<and>
     (set (py_waiting y) \<union> gone y) \<inter> (sa_rfds (aio_of y) \<union> sa_wfds (aio_of y)) = {} \<and>
     gone y \<inter> pc_fds (py_pc y) = {} \<and>
     (py_waiting y \<noteq> [] \<longrightarrow> pm_pending_change (py_pm y))"

lemma sa_collect_result:
  assumes "sa_collect rr rw copy s = Inr (rl, wl, s')"
  shows "set rl \<union> set wl \<subseteq> pc_fds (PL_Select copy)" "length rl \<le> Suc (snd (snd copy))" "length wl \<le> Suc (snd (snd copy))"
    "sa_rfds s' = sa_rfds s" "sa_wfds s' = sa_wfds s" "sa_highfds s' = sa_highfds s" "sa_pipe s' = sa_pipe s"
proof -
  obtain r w high where c: "copy = (r, w, high)"
    by (cases copy)
  have e: "rl = filter (\<lambda>fd. \<not> (fd = sa_pipe s \<and> fd \<in> r \<and> rr fd) \<and> fd \<in> r \<and> rr fd) [0..<Suc high]"
      "wl = filter (\<lambda>fd. \<not> (fd = sa_pipe s \<and> fd \<in> r \<and> rr fd) \<and> fd \<in> w \<and> rw fd) [0..<Suc high]"
      "s' = s \<or> s' = s\<lparr>sa_bytes := sa_bytes s - 1\<rparr>"
    using assms c by (auto simp: sa_collect_def Let_def returns split: if_splits simp del: upt_Suc intro!: filter_cong)
  show "set rl \<union> set wl \<subseteq> pc_fds (PL_Select copy)"
    unfolding e(1,2) c by auto
  show "length rl \<le> Suc (snd (snd copy))" "length wl \<le> Suc (snd (snd copy))"
    unfolding e(1,2) c using length_filter_le [of _ "[0..<Suc high]"] by (simp_all del: upt_Suc)
  show "sa_rfds s' = sa_rfds s" "sa_wfds s' = sa_wfds s" "sa_highfds s' = sa_highfds s" "sa_pipe s' = sa_pipe s"
    using e(3) by auto
qed

lemma call_back_keeps [simp]:
  "py_pm (call_back fd y) = py_pm y" "py_waiting (call_back fd y) = py_waiting y" "py_woken (call_back fd y) = py_woken y"
  "py_removed (call_back fd y) = py_removed y" "py_pc (call_back fd y) = py_pc y"
  by (auto simp: call_back_def split: option.splits)

lemma poll_inv_call: "poll_inv (call_back fd y) = poll_inv y"
  by (simp add: poll_inv_def gone_def)

lemma poll_inv_pc:
  assumes "poll_inv y" "pc = PL_Top \<or> (\<exists>rl wl. pc = PL_Run rl wl)" "pc_fds pc \<subseteq> pc_fds (py_pc y)"
  shows "poll_inv (y\<lparr>py_pc := pc\<rparr>)"
proof -
  have "gone y \<inter> pc_fds pc = {}"
    using assms(1,3) by (auto simp: poll_inv_def)
  then show ?thesis
    using assms(1,2) by (auto simp: poll_inv_def pc_inv_def gone_def)
qed

lemma wait_loop_inv:
  assumes inv: "poll_inv y" and l: "wait_loop rr rw y = Inr y'"
  shows "poll_inv y'"
proof (cases "py_pc y")
  case PL_Top
  then show ?thesis
    using assms by (cases "pm_pending_change (py_pm y)") (auto simp: wait_loop_def poll_inv_def pc_inv_def gone_def Let_def)
next
  case PL_Copy
  have "y' = y\<lparr>py_pc := PL_Select (sa_copy (aio_of y))\<rparr>"
    using l PL_Copy by (simp add: wait_loop_def)
  moreover have "sa_pipe (aio_of y) \<le> sa_highfds (aio_of y)"
    using inv by (auto simp: poll_inv_def aio_inv_def sa_ok_def)
  ultimately show ?thesis
    using inv PL_Copy by (auto simp: poll_inv_def pc_inv_def gone_def sa_copy_def aio_inv_def)
next
  case (PL_Select copy)
  then obtain rl wl s where c: "sa_collect rr rw copy (aio_of y) = Inr (rl, wl, s)"
      "y' = y\<lparr>py_pm := (py_pm y)\<lparr>pm_aio := s\<rparr>, py_pc := (if rl = [] \<and> wl = [] then PL_Top else PL_Run rl wl)\<rparr>"
    using l by (auto simp: wait_loop_def returns)
  note res = sa_collect_result [OF c(1)]
  have "aio_inv s"
    using inv res(4-7) by (simp add: poll_inv_def aio_inv_def sa_ok_def)
  moreover have "gone y \<inter> pc_fds (PL_Select copy) = {}"
    using inv PL_Select unfolding poll_inv_def by metis
  then have "gone y \<inter> (set rl \<union> set wl) = {}"
    using res(1) by blast
  ultimately show ?thesis
    using inv res(4,5) c(2) by (auto simp: poll_inv_def pc_inv_def gone_def)
next
  case (PL_Run rl wl)
  then show ?thesis
    using l inv by (cases rl; cases wl) (auto simp: wait_loop_def poll_inv_call intro!: poll_inv_pc)
qed

lemma pc_inv_bytes: "pc_inv pc s pending \<Longrightarrow> sa_pipe s' = sa_pipe s \<Longrightarrow> sa_bytes s \<le> sa_bytes s' \<Longrightarrow> pc_inv pc s' pending"
  by (auto simp: pc_inv_def split: poll_pc.splits)

lemma pc_inv_pending: "pc_inv pc s pending \<Longrightarrow> sa_pipe s' = sa_pipe s \<Longrightarrow> 0 < sa_bytes s' \<Longrightarrow> pc_inv pc s' True"
  by (auto simp: pc_inv_def split: poll_pc.splits)

lemma sa_watch_keeps: "sa_pipe (sa_watch_fd fd flag s) = sa_pipe s" "sa_bytes (sa_watch_fd fd flag s) = sa_bytes s + 1"
  by (simp_all add: sa_watch_fd_def)

lemma poll_step_inv: "poll_step y y' \<Longrightarrow> poll_inv y \<Longrightarrow> poll_inv y'"
proof (induction rule: poll_step.induct)
  case (py_loop y y')
  then show ?case
    using wait_loop_inv by (auto simp: loop_step_def)
next
  case (py_add fd y flag ch pm)
  define s' where "s' = sa_watch_fd fd flag (aio_of y)"
  have pm: "pm_aio pm = s'" "pm_pending_change pm = pm_pending_change (py_pm y)"
    using py_add.hyps(4) by (auto simp: add_callback_def s'_def Let_def split: if_splits)
  have sets: "sa_rfds s' = (if reads flag then insert fd (sa_rfds (aio_of y)) else sa_rfds (aio_of y))"
      "sa_wfds s' = (if writes flag then insert fd (sa_wfds (aio_of y)) else sa_wfds (aio_of y))"
    using sa_watch_sets [OF py_add.hyps(3), of fd "aio_of y"] by (simp_all add: s'_def)
  have keep: "sa_pipe s' = sa_pipe (aio_of y)" "sa_bytes (aio_of y) \<le> sa_bytes s'" "sa_ok s'"
    using py_add.prems sa_watch_ok by (simp_all add: s'_def sa_watch_keeps poll_inv_def aio_inv_def)
  have "aio_inv s'"
    using py_add.prems py_add.hyps(1) sets keep by (auto simp: poll_inv_def aio_inv_def)
  moreover have "pc_inv (py_pc y) s' (pm_pending_change pm)"
    using py_add.prems keep pc_inv_bytes unfolding pm(2) poll_inv_def by blast
  moreover have "(set (py_waiting y) \<union> (set (py_woken y) \<union> (py_removed y - {fd}))) \<inter> (sa_rfds s' \<union> sa_wfds s') = {}"
    using py_add.prems py_add.hyps(2) unfolding sets poll_inv_def gone_def by auto
  ultimately show ?case
    using py_add.prems pm by (auto simp: poll_inv_def gone_def)
next
  case (py_del fd y flag pm)
  obtain s' where s': "sa_unwatch_fd fd flag (aio_of y) = Inr (fd \<notin> sa_rfds s' \<and> fd \<notin> sa_wfds s', s')" "sa_ok (aio_of y) \<longrightarrow> sa_ok s'"
      "(sa_rfds s', sa_wfds s') = spec_op (Unwatch fd flag) (sa_rfds (aio_of y), sa_wfds (aio_of y))"
      "sa_pipe s' = sa_pipe (aio_of y)" "sa_bytes s' = (if flag = CB_RDWR then sa_bytes (aio_of y) + 1 else sa_bytes (aio_of y))"
    using sa_unwatch_spec [OF py_del.hyps(2), of fd "aio_of y"] by blast
  have pm: "pm_aio pm = s'" "pm_pending_change pm = pm_pending_change (py_pm y)"
    using py_del.hyps(3) s'(1) by (auto simp: del_callback_def Let_def split: if_splits)
  have sets: "sa_rfds s' \<subseteq> sa_rfds (aio_of y)" "sa_wfds s' \<subseteq> sa_wfds (aio_of y)" "sa_rfds (aio_of y) - {fd} \<subseteq> sa_rfds s'"
    using s'(3) by (auto split: if_splits)
  have "aio_inv s'"
    using py_del.prems py_del.hyps(1) sets s'(2,4) by (auto simp: poll_inv_def aio_inv_def)
  moreover have "pc_inv (py_pc y) s' (pm_pending_change pm)"
    using py_del.prems s'(4,5) pc_inv_bytes [of "py_pc y" "aio_of y" _ s'] unfolding pm(2) poll_inv_def by (simp split: if_splits)
  moreover have "(set (py_waiting y) \<union> gone y) \<inter> (sa_rfds s' \<union> sa_wfds s') = {}"
    using py_del.prems sets unfolding poll_inv_def by blast
  ultimately show ?case
    using py_del.prems pm by (auto simp: poll_inv_def gone_def)
next
  case (py_remove fd y pm)
  obtain s' where s': "sa_unwatch_fd fd CB_RDWR (aio_of y) = Inr (fd \<notin> sa_rfds s' \<and> fd \<notin> sa_wfds s', s')" "sa_ok (aio_of y) \<longrightarrow> sa_ok s'"
      "(sa_rfds s', sa_wfds s') = spec_op (Unwatch fd CB_RDWR) (sa_rfds (aio_of y), sa_wfds (aio_of y))"
      "sa_pipe s' = sa_pipe (aio_of y)" "sa_bytes s' = sa_bytes (aio_of y) + 1"
    using sa_unwatch_spec [of CB_RDWR fd "aio_of y"] by (auto simp: reads_def)
  have pm: "pm_aio pm = s'" "pm_pending_change pm"
    using py_remove.hyps(2) s'(1) by (auto simp: block_remove_begin_def)
  have sets: "sa_rfds s' = sa_rfds (aio_of y) - {fd}" "sa_wfds s' = sa_wfds (aio_of y) - {fd}"
    using s'(3) by (auto simp: reads_def writes_def)
  have "aio_inv s'"
    using py_remove.prems py_remove.hyps(1) sets s'(2,4) by (auto simp: poll_inv_def aio_inv_def)
  moreover have "pc_inv (py_pc y) s' True"
    using py_remove.prems s'(4,5) pc_inv_pending [of "py_pc y" "aio_of y" _ s'] by (auto simp: poll_inv_def)
  moreover have "(insert fd (set (py_waiting y)) \<union> gone y) \<inter> (sa_rfds s' \<union> sa_wfds s') = {}"
    using py_remove.prems unfolding sets poll_inv_def by blast
  ultimately show ?case
    using py_remove.prems pm by (auto simp: poll_inv_def gone_def)
next
  case (py_return y xs fd ys)
  then have "set (py_woken y) = insert fd (set xs \<union> set ys)"
    by auto
  then have "gone (y\<lparr>py_pm := block_remove_end fd (py_pm y), py_woken := xs @ ys, py_removed := insert fd (py_removed y)\<rparr>) = gone y"
    by (auto simp: gone_def)
  then show ?case
    using py_return.prems by (simp add: poll_inv_def block_remove_end_def)
qed

lemma poll_reachable_inv: "poll_reachable y \<Longrightarrow> poll_inv y"
proof (induction rule: poll_reachable.induct)
  case (py_new p)
  show ?case
    by (simp add: poll_inv_def poll_sys_new_def PollMgr_new_def SelectAIO_new_def aio_inv_def sa_ok_def pc_inv_def gone_def)
next
  case (py_step y y')
  then show ?case
    using poll_step_inv by blast
qed

section \<open>What block\_remove\_fd guarantees\<close>

lemma wait_loop_call:
  assumes "wait_loop rr rw y = Inr y'" "py_calls y' = py_calls y @ [(fd, c)]"
  shows "fd \<in> pc_fds (py_pc y)"
proof (cases "py_pc y")
  case PL_Top
  then show ?thesis
    using assms by (cases "pm_pending_change (py_pm y)") (auto simp: wait_loop_def)
next
  case (PL_Run rl wl)
  then show ?thesis
    using assms by (cases rl; cases wl) (auto simp: wait_loop_def call_back_def split: option.splits)
qed (use assms in \<open>auto simp: wait_loop_def returns\<close>)


text \<open>How far the polling thread is from the top of its loop.\<close>

definition poll_dist :: "'c poll_sys \<Rightarrow> nat" where
  "poll_dist y =
     (case py_pc y of
        PL_Top \<Rightarrow> 0
      | PL_Copy \<Rightarrow> 2 * Suc (sa_highfds (aio_of y)) + 3
      | PL_Select (r, w, high) \<Rightarrow> 2 * Suc high + 2
      | PL_Run rl wl \<Rightarrow> length rl + length wl + 1)"

text \<open>
  \<^verbatim>\<open>block_remove_fd\<close> returns: as long as a thread waits in it, the polling thread can always take its next step, since there is a byte in
  the pipe that keeps \<^verbatim>\<open>select\<close> from blocking, and every such step either wakes up the thread that waits or brings the polling thread nearer to the
  point where it does.
\<close>

theorem block_remove_returns:
  assumes "poll_reachable y" "fd \<in> set (py_waiting y)"
  shows "(\<exists>y'. loop_step y y') \<and> (\<forall>y'. loop_step y y' \<longrightarrow> fd \<in> set (py_woken y') \<or> poll_dist y' < poll_dist y)
    \<and> (\<forall>copy. py_pc y = PL_Select copy \<longrightarrow> sa_pipe (aio_of y) \<in> fst copy \<and> 0 < sa_bytes (aio_of y))"
proof (intro conjI allI impI)
  have inv: "poll_inv y" and pend: "pm_pending_change (py_pm y)"
    using poll_reachable_inv [OF assms(1)] assms(2) by (auto simp: poll_inv_def)
  show sel: "sa_pipe (aio_of y) \<in> fst copy" "0 < sa_bytes (aio_of y)" if "py_pc y = PL_Select copy" for copy
    using inv pend that by (auto simp: poll_inv_def pc_inv_def split: prod.splits)
  have "\<exists>y'. wait_loop (\<lambda>_. 0 < sa_bytes (aio_of y)) (\<lambda>_. False) y = Inr y'"
  proof (cases "py_pc y")
    case (PL_Select copy)
    then show ?thesis
      using sel [OF PL_Select] by (cases copy) (simp add: wait_loop_def sa_collect_def Let_def)
  next
    case (PL_Run rl wl)
    then show ?thesis
      by (cases rl; cases wl) (simp_all add: wait_loop_def)
  qed (simp_all add: wait_loop_def Let_def)
  then show "\<exists>y'. loop_step y y'"
    unfolding loop_step_def by blast
  fix y'
  assume "loop_step y y'"
  then obtain rr rw where l: "wait_loop rr rw y = Inr y'"
    by (auto simp: loop_step_def)
  show "fd \<in> set (py_woken y') \<or> poll_dist y' < poll_dist y"
  proof (cases "py_pc y")
    case PL_Top
    then show ?thesis
      using l pend assms(2) by (auto simp: wait_loop_def Let_def)
  next
    case PL_Copy
    then show ?thesis
      using l by (auto simp: wait_loop_def poll_dist_def sa_copy_def)
  next
    case (PL_Select copy)
    then obtain rl wl s where c: "sa_collect rr rw copy (aio_of y) = Inr (rl, wl, s)"
        "y' = y\<lparr>py_pm := (py_pm y)\<lparr>pm_aio := s\<rparr>, py_pc := (if rl = [] \<and> wl = [] then PL_Top else PL_Run rl wl)\<rparr>"
      using l by (auto simp: wait_loop_def returns)
    then show ?thesis
      using sa_collect_result(2,3) [OF c(1)] PL_Select by (cases copy) (simp add: poll_dist_def)
  next
    case (PL_Run rl wl)
    then show ?thesis
      using l by (cases rl; cases wl) (auto simp: wait_loop_def poll_dist_def)
  qed
qed

text \<open>A descriptor that is added, called back, and removed.\<close>

definition ex_poll_added :: "nat poll_sys" where
  "ex_poll_added =
     \<lparr>py_pm = \<lparr>pm_callbacks = (\<lambda>_. None)(9 := Some 1), pm_aio = sa_watch_fd 9 CB_RDONLY (SelectAIO_new 3), pm_pending_change = False\<rparr>,
      py_pc = PL_Copy, py_waiting = [], py_woken = [], py_removed = {}, py_calls = []\<rparr>"

lemma loop_stepI: "wait_loop (\<lambda>_. 0 < sa_bytes (aio_of y)) (\<lambda>_. False) y = Inr y' \<Longrightarrow> loop_step y y'"
  unfolding loop_step_def by blast

lemma ex_poll_added_reachable: "poll_reachable ex_poll_added"
proof -
  let ?y0 = "poll_sys_new 3 :: nat poll_sys"
  have "add_callback 9 CB_RDONLY 1 (py_pm ?y0) = Inr (py_pm ex_poll_added)"
    by (simp add: add_callback_def MAX_POLL_FDS_def poll_sys_new_def PollMgr_new_def ex_poll_added_def)
  then have "poll_step ?y0 (?y0\<lparr>py_pm := py_pm ex_poll_added, py_removed := py_removed ?y0 - {9}\<rparr>)" (is "poll_step _ ?y1")
    by (rule py_add [rotated 3]) (simp_all add: poll_sys_new_def PollMgr_new_def SelectAIO_new_def reads_def)
  then have "poll_reachable ?y1"
    by (rule py_step [OF py_new])
  moreover have "loop_step ?y1 ex_poll_added"
    by (rule loop_stepI) (simp add: wait_loop_def poll_sys_new_def ex_poll_added_def)
  ultimately show ?thesis
    by (rule py_step [OF _ py_loop])
qed

lemma ex_poll_removing:
  "\<exists>y :: nat poll_sys. poll_reachable y \<and> py_waiting y = [9] \<and> py_pc y = PL_Copy \<and> py_woken y = []"
proof -
  obtain s where "sa_unwatch_fd 9 CB_RDWR (aio_of ex_poll_added) = Inr s"
    using sa_unwatch_spec [of CB_RDWR 9 "aio_of ex_poll_added"] by (auto simp: reads_def)
  then obtain pm where "block_remove_begin 9 (py_pm ex_poll_added) = Inr pm"
    by (cases s) (simp add: block_remove_begin_def)
  then have "poll_step ex_poll_added (ex_poll_added\<lparr>py_pm := pm, py_waiting := 9 # py_waiting ex_poll_added\<rparr>)"
    by (rule py_remove [rotated]) (simp add: ex_poll_added_def SelectAIO_new_def sa_watch_fd_def)
  from py_step [OF ex_poll_added_reachable this] show ?thesis
    by (intro exI conjI) (auto simp: ex_poll_added_def)
qed


theorem block_remove_returns_witness:
  "\<exists>(y :: nat poll_sys) y'. poll_reachable y \<and> 9 \<in> set (py_waiting y) \<and> loop_step y y' \<and> poll_dist y' < poll_dist y"
proof -
  obtain y :: "nat poll_sys" where y: "poll_reachable y" "py_waiting y = [9]" "py_pc y = PL_Copy" "py_woken y = []"
    using ex_poll_removing by blast
  have nine: "9 \<in> set (py_waiting y)"
    using y(2) by simp
  obtain y' where y': "loop_step y y'"
    using block_remove_returns [OF y(1) nine] by blast
  moreover have "py_woken y' = []"
    using y' y(3,4) by (auto simp: loop_step_def wait_loop_def)
  ultimately have "poll_dist y' < poll_dist y"
    using block_remove_returns [OF y(1) nine] by fastforce
  then show ?thesis
    using y(1) nine y' by blast
qed

end
