(* ===== verification/Connection.thy ===== *)
theory Connection
  imports Marshall Poll_Mgr "HOL-Library.AList"
begin

text \<open>
  A TCP connection that carries PDUs (\<^verbatim>\<open>rpc/connection.cc\<close>): sending with one PDU at a time under way, partial writes that
  the polling thread continues, reading a PDU in pieces, and the server's table of
  connections. What the socket does is a parameter of each operation; the bytes that the socket has
  taken are recorded in the connection.
\<close>

section \<open>State\<close>

definition MAX_PDU :: int where
  "MAX_PDU = 10 * 2 ^ 20"

record charbuf =
  cb_buf :: "u8 list option"
  cb_sz :: int
  cb_solong :: int

definition charbuf_empty :: charbuf where
  "charbuf_empty = \<lparr>cb_buf = None, cb_sz = 0, cb_solong = 0\<rparr>"

record connection =
  k_fd :: nat
  k_dead :: bool
  k_wpdu :: charbuf
  k_rpdu :: charbuf
  k_create_time :: "int \<times> int"
  k_waiters :: int
  k_refno :: int
  k_wire :: "u8 list"

text \<open>What an operation asks of the poll manager.\<close>

datatype poll_act = Add_cb nat poll_flag | Del_cb nat poll_flag | Block_remove nat

definition connection_new :: "nat \<Rightarrow> int \<times> int \<Rightarrow> connection \<times> poll_act list" where
  "connection_new fd now =
     (\<lparr>k_fd = fd, k_dead = False, k_wpdu = charbuf_empty, k_rpdu = charbuf_empty, k_create_time = now,
       k_waiters = 0, k_refno = 1, k_wire = []\<rparr>, [Add_cb fd CB_RDONLY])"

section \<open>References\<close>

definition k_incref :: "connection \<Rightarrow> connection" where
  "k_incref c = c\<lparr>k_refno := k_refno c + 1\<rparr>"

definition isdead :: "connection \<Rightarrow> bool" where
  "isdead c = k_dead c"

definition k_ref :: "connection \<Rightarrow> int" where
  "k_ref c = k_refno c"

text \<open>The destructor checks that the connection is dead and that nothing is being sent.\<close>

definition connection_delete :: "connection \<Rightarrow> unit res" where
  "connection_delete c =
     (if \<not> k_dead c then Inl VerifyFailed else if cb_buf (k_wpdu c) \<noteq> None then Inl VerifyFailed else Inr ())"

text \<open>\<open>None\<close> when the connection was deleted.\<close>

definition k_decref :: "connection \<Rightarrow> connection option res" where
  "k_decref c =
     (let c = c\<lparr>k_refno := k_refno c - 1\<rparr> in
      if \<not> 0 \<le> k_refno c then Inl VerifyFailed
      else if k_refno c = 0 \<and> k_dead c then bindR (connection_delete c) (\<lambda>_. Inr None)
      else Inr (Some c))"

definition closeconn :: "connection \<Rightarrow> connection \<times> poll_act list" where
  "closeconn c = (if \<not> k_dead c then (c\<lparr>k_dead := True\<rparr>, [Block_remove (k_fd c)]) else (c, []))"

definition compare_time :: "connection \<Rightarrow> connection \<Rightarrow> int" where
  "compare_time c d =
     (if fst (k_create_time c) > fst (k_create_time d) then 1
      else if fst (k_create_time c) < fst (k_create_time d) then - 1
      else if snd (k_create_time c) > snd (k_create_time d) then 1
      else if snd (k_create_time c) < snd (k_create_time d) then - 1
      else 0)"

section \<open>Sending\<close>

text \<open>What \<^verbatim>\<open>write\<close> returns: a number of bytes, \<^verbatim>\<open>EAGAIN\<close>, or another error.\<close>

datatype write_res = W_bytes nat | W_again | W_err

text \<open>The bytes of a PDU with its length in the first four.\<close>

definition framed :: "u8 list \<Rightarrow> u8 list" where
  "framed b = be32 (of_nat (length b)) @ drop 4 b"

definition writepdu :: "write_res \<Rightarrow> connection \<Rightarrow> (bool \<times> connection) res" where
  "writepdu io c =
     (let w = k_wpdu c in
      if \<not> 0 \<le> cb_solong w then Inl VerifyFailed
      else if cb_solong w = cb_sz w then Inr (True, c)
      else
        (case cb_buf w of
           None \<Rightarrow> Inl NullDeref
         | Some b \<Rightarrow>
             if cb_solong w = 0 \<and> length b < 4 then Inl OutOfBounds
             else
               let b = (if cb_solong w = 0 then be32 (of_int (cb_sz w)) @ drop 4 b else b);
                   w = w\<lparr>cb_buf := Some b\<rparr> in
               (case io of
                  W_again \<Rightarrow> Inr (True, c\<lparr>k_wpdu := w\<rparr>)
                | W_err \<Rightarrow> Inr (False, c\<lparr>k_wpdu := w\<lparr>cb_solong := - 1, cb_sz := 0\<rparr>\<rparr>)
                | W_bytes n \<Rightarrow>
                    Inr (True, c\<lparr>k_wpdu := w\<lparr>cb_solong := cb_solong w + int n\<rparr>,
                                k_wire := k_wire c @ take n (drop (nat (cb_solong w)) b)\<rparr>))))"

text \<open>Where a call of \<^verbatim>\<open>send\<close> is after a stretch under the mutex: waiting for its turn, in \<^verbatim>\<open>block_remove_fd\<close>, waiting for the rest to be written, or done.\<close>

datatype send_state = S_Turn | S_Removing | S_Complete | S_Return bool

text \<open>The end of \<^verbatim>\<open>send\<close>: the threads that wait for their turn are woken up.\<close>

definition send_finish :: "connection \<Rightarrow> send_state \<times> connection" where
  "send_finish c =
     (S_Return (\<not> k_dead c \<and> cb_solong (k_wpdu c) = cb_sz (k_wpdu c)),
      c\<lparr>k_wpdu := \<lparr>cb_buf = None, cb_sz = 0, cb_solong = 0\<rparr>\<rparr>)"

definition send_complete :: "connection \<Rightarrow> send_state \<times> connection" where
  "send_complete c =
     (if \<not> k_dead c \<and> 0 \<le> cb_solong (k_wpdu c) \<and> cb_solong (k_wpdu c) < cb_sz (k_wpdu c)
      then (S_Complete, c) else send_finish c)"

definition send_turn :: "write_res \<Rightarrow> u8 list \<Rightarrow> int \<Rightarrow> connection \<Rightarrow> (send_state \<times> poll_act list \<times> connection) res" where
  "send_turn io b sz c =
     (if \<not> k_dead c \<and> cb_buf (k_wpdu c) \<noteq> None then Inr (S_Turn, [], c)
      else
        let c = c\<lparr>k_waiters := k_waiters c - 1\<rparr> in
        if k_dead c then Inr (S_Return False, [], c)
        else
          bindR (writepdu io (c\<lparr>k_wpdu := \<lparr>cb_buf = Some b, cb_sz = sz, cb_solong = 0\<rparr>\<rparr>)) (\<lambda>(ok, c).
            if \<not> ok then Inr (S_Removing, [Block_remove (k_fd c)], c\<lparr>k_dead := True\<rparr>)
            else if cb_solong (k_wpdu c) = cb_sz (k_wpdu c)
            then let (s, c) = send_finish c in Inr (s, [], c)
            else let (s, c) = send_complete c in Inr (s, [Add_cb (k_fd c) CB_WRONLY], c)))"

definition send_begin :: "write_res \<Rightarrow> u8 list \<Rightarrow> int \<Rightarrow> connection \<Rightarrow> (send_state \<times> poll_act list \<times> connection) res" where
  "send_begin io b sz c = send_turn io b sz (c\<lparr>k_waiters := k_waiters c + 1\<rparr>)"

text \<open>The first result is whether \<^verbatim>\<open>send_complete_\<close> is signalled.\<close>

definition write_cb :: "write_res \<Rightarrow> nat \<Rightarrow> connection \<Rightarrow> (bool \<times> poll_act list \<times> connection) res" where
  "write_cb io s c =
     (if k_dead c then Inl VerifyFailed
      else if k_fd c \<noteq> s then Inl VerifyFailed
      else if cb_sz (k_wpdu c) = 0 then Inr (False, [Del_cb (k_fd c) CB_WRONLY], c)
      else
        bindR (writepdu io c) (\<lambda>(ok, c).
          if \<not> ok then Inr (True, [Del_cb (k_fd c) CB_RDWR], c\<lparr>k_dead := True\<rparr>)
          else if \<not> 0 \<le> cb_solong (k_wpdu c) then Inl VerifyFailed
          else if cb_solong (k_wpdu c) < cb_sz (k_wpdu c) then Inr (False, [], c)
          else Inr (True, [], c)))"

section \<open>Receiving\<close>

text \<open>
  What \<^verbatim>\<open>read\<close> returns: some bytes, the end of the stream with whether \<^verbatim>\<open>errno\<close> still is \<^verbatim>\<open>EAGAIN\<close> from an earlier call, \<^verbatim>\<open>EAGAIN\<close>, or another error.
\<close>

datatype read_res = R_bytes "u8 list" | R_eof bool | R_again | R_err

definition ntohl :: "u8 list \<Rightarrow> u32" where
  "ntohl bs = ((push_bit 24 (ucast (bs ! 0)) OR push_bit 16 (ucast (bs ! 1))) OR push_bit 8 (ucast (bs ! 2))) OR ucast (bs ! 3)"

text \<open>
  The part of \<^verbatim>\<open>readpdu\<close> that reads the length and allocates the buffer; \<open>None\<close> is a failed read. A negative
  argument of \<^verbatim>\<open>malloc\<close> is a huge one.
\<close>

definition read_size :: "read_res \<Rightarrow> connection \<Rightarrow> connection option res" where
  "read_size io c =
     (case io of
        R_eof _ \<Rightarrow> Inr None
      | R_again \<Rightarrow> Inl VerifyFailed
      | R_err \<Rightarrow> Inr None
      | R_bytes bs \<Rightarrow>
          if length bs \<noteq> 4 then Inr None
          else
            let sz = sint (ntohl bs) in
            if sz > MAX_PDU then Inr None
            else if cb_buf (k_rpdu c) \<noteq> None then Inl VerifyFailed
            else if sz + 4 < 0 then Inl VerifyFailed
            else if sz + 4 < 4 then Inl OutOfBounds
            else Inr (Some (c\<lparr>k_rpdu := \<lparr>cb_buf = Some bs, cb_sz = sz, cb_solong = 4\<rparr>\<rparr>)))"

text \<open>
  The read of the rest. The buffer has room for four bytes more than the size, and \<^verbatim>\<open>read\<close> fills what it is asked for, which is not bounded by the
  room when the size is below the number of bytes already read.
\<close>

definition read_rest :: "read_res \<Rightarrow> connection \<Rightarrow> (bool \<times> connection) res" where
  "read_rest io c =
     (let r = k_rpdu c in
      case io of
        R_bytes bs \<Rightarrow>
          if bs = [] then Inr (False, c\<lparr>k_rpdu := charbuf_empty\<rparr>)
          else if cb_solong r + int (length bs) > cb_sz r + 4 then Inl OutOfBounds
          else
            (case cb_buf r of
               None \<Rightarrow> Inl NullDeref
             | Some b \<Rightarrow> Inr (True, c\<lparr>k_rpdu := r\<lparr>cb_buf := Some (b @ bs), cb_solong := cb_solong r + int (length bs)\<rparr>\<rparr>))
      | R_again \<Rightarrow> Inr (True, c)
      | R_eof stale \<Rightarrow> if stale then Inr (True, c) else Inr (False, c\<lparr>k_rpdu := charbuf_empty\<rparr>)
      | R_err \<Rightarrow> Inr (False, c\<lparr>k_rpdu := charbuf_empty\<rparr>))"

definition readpdu :: "read_res \<Rightarrow> read_res \<Rightarrow> connection \<Rightarrow> (bool \<times> connection) res" where
  "readpdu hdr io c =
     (if cb_sz (k_rpdu c) = 0
      then bindR (read_size hdr c) (\<lambda>x. case x of None \<Rightarrow> Inr (False, c) | Some c \<Rightarrow> read_rest io c)
      else read_rest io c)"

text \<open>
  \<open>accept\<close> is what \<^verbatim>\<open>got_pdu\<close> returns; the results are the PDU handed to it, whether \<^verbatim>\<open>send_complete_\<close> is signalled, and the requests to the poll manager.
\<close>

definition read_cb ::
  "(u8 list \<Rightarrow> bool) \<Rightarrow> read_res \<Rightarrow> read_res \<Rightarrow> nat \<Rightarrow> connection \<Rightarrow> (u8 list option \<times> bool \<times> poll_act list \<times> connection) res" where
  "read_cb accept hdr io s c =
     (if k_fd c \<noteq> s then Inl VerifyFailed
      else if k_dead c then Inr (None, False, [], c)
      else
        bindR (if cb_buf (k_rpdu c) = None \<or> cb_solong (k_rpdu c) < cb_sz (k_rpdu c) then readpdu hdr io c else Inr (True, c)) (\<lambda>(succ, c).
          let (sig, acts, c) = (if \<not> succ then (True, [Del_cb (k_fd c) CB_RDWR], c\<lparr>k_dead := True\<rparr>) else (False, [], c)) in
          case cb_buf (k_rpdu c) of
            None \<Rightarrow> Inr (None, sig, acts, c)
          | Some b \<Rightarrow>
              if cb_sz (k_rpdu c) = cb_solong (k_rpdu c)
              then Inr (Some b, sig, acts, if accept b then c\<lparr>k_rpdu := charbuf_empty\<rparr> else c)
              else Inr (None, sig, acts, c)))"

section \<open>The connections of a server\<close>

text \<open>The loop that drops dead connections that nobody else refers to.\<close>

fun collect_dead :: "(nat \<times> connection) list \<Rightarrow> (nat \<times> connection) list res" where
  "collect_dead [] = Inr []"
| "collect_dead ((fd, c) # cs) =
     (if isdead c \<and> k_ref c = 1
      then bindR (k_decref c) (\<lambda>_. collect_dead cs)
      else bindR (collect_dead cs) (\<lambda>cs. Inr ((fd, c) # cs)))"

text \<open>The assignment \<^verbatim>\<open>conns_[ch->channo()] = ch\<close>.\<close>

definition process_accept :: "nat \<Rightarrow> int \<times> int \<Rightarrow> (nat \<times> connection) list \<Rightarrow> ((nat \<times> connection) list \<times> poll_act list) res" where
  "process_accept fd now cs =
     (let (ch, acts) = connection_new fd now in
      bindR (collect_dead cs) (\<lambda>cs. Inr (AList.update fd ch cs, acts)))"

text \<open>
  One round of the accepting thread: \<open>s1\<close> is what \<^verbatim>\<open>accept\<close> returns if it is called, and the result \<open>None\<close> is the end of the thread.
\<close>

definition accept_conn ::
  "bool \<Rightarrow> bool \<Rightarrow> nat option \<Rightarrow> int \<times> int \<Rightarrow> (nat \<times> connection) list \<Rightarrow> ((nat \<times> connection) list \<times> poll_act list) option res" where
  "accept_conn pipe tcp s1 now cs =
     (if pipe then Inr None
      else if tcp
      then (case s1 of
              None \<Rightarrow> Inr None
            | Some fd \<Rightarrow> bindR (process_accept fd now cs) (\<lambda>r. Inr (Some r)))
      else Inl VerifyFailed)"

text \<open>The client's side; \<open>ok\<close> is whether \<^verbatim>\<open>connect\<close> succeeds.\<close>

definition connect_to_dst :: "bool \<Rightarrow> nat \<Rightarrow> int \<times> int \<Rightarrow> (connection \<times> poll_act list) option" where
  "connect_to_dst ok s now = (if \<not> ok then None else Some (connection_new s now))"

text \<open>The destructor of the server closes and drops all of them.\<close>

fun close_all :: "(nat \<times> connection) list \<Rightarrow> poll_act list res" where
  "close_all [] = Inr []"
| "close_all ((fd, c) # cs) =
     (let (c, acts) = closeconn c in
      bindR (k_decref c) (\<lambda>_. bindR (close_all cs) (\<lambda>acts'. Inr (acts @ acts'))))"

text \<open>Collecting drops exactly the connections that are dead and that only the table refers to.\<close>

lemma collect_dead_filter:
  assumes "\<forall>(fd, c) \<in> set cs. isdead c \<and> k_ref c = 1 \<longrightarrow> cb_buf (k_wpdu c) = None"
  shows "collect_dead cs = Inr (filter (\<lambda>(fd, c). \<not> (isdead c \<and> k_ref c = 1)) cs)"
  using assms
  by (induction cs rule: collect_dead.induct)
    (auto simp: k_decref_def connection_delete_def isdead_def k_ref_def)

section \<open>Threads that send\<close>

text \<open>
  The calls of \<^verbatim>\<open>send\<close> that wait for their turn, by their buffers, the one whose PDU is being written, the PDUs that the socket has
  taken completely, and those whose call returned true.
\<close>

record send_sys =
  ss_c :: connection
  ss_turn :: "u8 list list"
  ss_cur :: "(u8 list \<times> send_state) option"
  ss_done :: "u8 list list"
  ss_true :: "u8 list list"

definition send_sys_new :: "nat \<Rightarrow> int \<times> int \<Rightarrow> send_sys" where
  "send_sys_new fd now = \<lparr>ss_c = fst (connection_new fd now), ss_turn = [], ss_cur = None, ss_done = [], ss_true = []\<rparr>"

text \<open>A buffer as the RPC layer passes it: with room for the length, and not above what an \<^verbatim>\<open>int\<close> holds.\<close>

definition pdu_ok :: "u8 list \<Rightarrow> bool" where
  "pdu_ok b \<longleftrightarrow> 4 \<le> length b \<and> length b < 2 ^ 31"

text \<open>\<^verbatim>\<open>write\<close> takes at most what it is given.\<close>

definition write_ok :: "write_res \<Rightarrow> int \<Rightarrow> bool" where
  "write_ok io left \<longleftrightarrow> (case io of W_bytes n \<Rightarrow> int n \<le> left | _ \<Rightarrow> True)"

text \<open>Where the call with buffer \<open>b\<close> goes from the result of its turn.\<close>

definition settle :: "u8 list \<Rightarrow> send_state \<Rightarrow> send_sys \<Rightarrow> send_sys" where
  "settle b st y =
     (case st of
        S_Turn \<Rightarrow> y\<lparr>ss_turn := b # ss_turn y\<rparr>
      | S_Return r \<Rightarrow> if r then y\<lparr>ss_done := ss_done y @ [framed b], ss_true := ss_true y @ [framed b]\<rparr> else y
      | _ \<Rightarrow> y\<lparr>ss_cur := Some (b, st)\<rparr>)"

text \<open>Where the call whose PDU was being written goes when it wakes up.\<close>

definition wake :: "u8 list \<Rightarrow> send_state \<times> connection \<Rightarrow> send_sys \<Rightarrow> send_sys" where
  "wake b sc y =
     (case fst sc of
        S_Return r \<Rightarrow>
          y\<lparr>ss_c := snd sc, ss_cur := None,
            ss_done := (if cb_solong (k_wpdu (ss_c y)) = cb_sz (k_wpdu (ss_c y)) then ss_done y @ [framed b] else ss_done y),
            ss_true := (if r then ss_true y @ [framed b] else ss_true y)\<rparr>
      | st \<Rightarrow> y\<lparr>ss_c := snd sc, ss_cur := Some (b, st)\<rparr>)"

inductive send_step :: "send_sys \<Rightarrow> send_sys \<Rightarrow> bool" where
  sd_call: "pdu_ok b \<Longrightarrow> write_ok io (int (length b)) \<Longrightarrow> send_begin io b (int (length b)) (ss_c y) = Inr (st, acts, c)
    \<Longrightarrow> send_step y (settle b st (y\<lparr>ss_c := c\<rparr>))"
| sd_turn: "ss_turn y = xs @ b # ys \<Longrightarrow> write_ok io (int (length b)) \<Longrightarrow> send_turn io b (int (length b)) (ss_c y) = Inr (st, acts, c)
    \<Longrightarrow> send_step y (settle b st (y\<lparr>ss_c := c, ss_turn := xs @ ys\<rparr>))"
| sd_complete: "ss_cur y = Some (b, S_Complete) \<Longrightarrow> send_step y (wake b (send_complete (ss_c y)) y)"
| sd_removed: "ss_cur y = Some (b, S_Removing) \<Longrightarrow> send_step y (wake b (send_finish (ss_c y)) y)"
| sd_write_cb: "write_ok io (cb_sz (k_wpdu (ss_c y)) - cb_solong (k_wpdu (ss_c y))) \<Longrightarrow> write_cb io fd (ss_c y) = Inr (sig, acts, c)
    \<Longrightarrow> send_step y (y\<lparr>ss_c := c\<rparr>)"
| sd_read_cb: "read_cb accept hdr rest fd (ss_c y) = Inr (pdu, sig, acts, c) \<Longrightarrow> send_step y (y\<lparr>ss_c := c\<rparr>)"
| sd_close: "closeconn (ss_c y) = (c, acts) \<Longrightarrow> send_step y (y\<lparr>ss_c := c\<rparr>)"

inductive send_reachable :: "send_sys \<Rightarrow> bool" where
  sr_new: "send_reachable (send_sys_new fd now)"
| sr_step: "send_reachable y \<Longrightarrow> send_step y y' \<Longrightarrow> send_reachable y'"

section \<open>Invariant\<close>

lemma length_framed [simp]: "4 \<le> length b \<Longrightarrow> length (framed b) = length b"
  by (simp add: framed_def)

text \<open>Some bytes of the PDU have been written after the complete ones, and the write goes on or has failed.\<close>

definition writing :: "u8 list \<Rightarrow> u8 list list \<Rightarrow> connection \<Rightarrow> bool" where
  "writing b done c \<longleftrightarrow>
     (\<exists>s b'. k_wpdu c = \<lparr>cb_buf = Some b', cb_sz = int (length b), cb_solong = int s\<rparr> \<and> s \<le> length b
        \<and> (if s = 0 then length b' = length b \<and> drop 4 b' = drop 4 b else b' = framed b)
        \<and> k_wire c = concat done @ take s (framed b))"

definition failed :: "u8 list \<Rightarrow> u8 list list \<Rightarrow> connection \<Rightarrow> bool" where
  "failed b done c \<longleftrightarrow>
     (\<exists>b'. k_wpdu c = \<lparr>cb_buf = Some b', cb_sz = 0, cb_solong = - 1\<rparr>) \<and> (\<exists>k. k_wire c = concat done @ take k (framed b))"

lemma writepdu_writing:
  assumes "writing b done c" "pdu_ok b" "write_ok io (cb_sz (k_wpdu c) - cb_solong (k_wpdu c))" "writepdu io c = Inr (ok, c')"
  shows "(if ok then writing b done c' else failed b done c')" "k_dead c' = k_dead c" "k_fd c' = k_fd c"
proof -
  obtain s b' where w: "k_wpdu c = \<lparr>cb_buf = Some b', cb_sz = int (length b), cb_solong = int s\<rparr>" "s \<le> length b"
      "if s = 0 then length b' = length b \<and> drop 4 b' = drop 4 b else b' = framed b" "k_wire c = concat done @ take s (framed b)"
    using assms(1) by (auto simp: writing_def)
  show "k_dead c' = k_dead c" "k_fd c' = k_fd c"
    using assms(4) w(1) by (auto simp: writepdu_def Let_def split: if_splits write_res.splits)
  show "if ok then writing b done c' else failed b done c'"
  proof (cases "s = length b")
    case True
    then show ?thesis
      using assms(1,4) w(1) by (simp add: writepdu_def)
  next
    case False
    have len: "\<not> length b' < 4" and hd: "(if s = 0 then be32 (of_int (int (length b))) @ drop 4 b' else b') = framed b"
      using w(3) assms(2) by (auto simp: framed_def pdu_ok_def split: if_splits)
    have run: "writepdu io c =
        (case io of
           W_again \<Rightarrow> Inr (True, c\<lparr>k_wpdu := (k_wpdu c)\<lparr>cb_buf := Some (framed b)\<rparr>\<rparr>)
         | W_err \<Rightarrow> Inr (False, c\<lparr>k_wpdu := (k_wpdu c)\<lparr>cb_buf := Some (framed b), cb_solong := - 1, cb_sz := 0\<rparr>\<rparr>)
         | W_bytes n \<Rightarrow> Inr (True, c\<lparr>k_wpdu := (k_wpdu c)\<lparr>cb_buf := Some (framed b), cb_solong := int s + int n\<rparr>,
             k_wire := k_wire c @ take n (drop s (framed b))\<rparr>))"
      using False len hd w(1) by (cases io) (auto simp: writepdu_def Let_def simp del: take_append)
    show ?thesis
    proof (cases io)
      case (W_bytes n)
      have "s + n \<le> length b"
        using assms(3) W_bytes w(1,2) by (auto simp: write_ok_def)
      moreover have "s + n = 0 \<Longrightarrow> length (framed b) = length b \<and> drop 4 (framed b) = drop 4 b"
        using assms(2) by (simp add: pdu_ok_def framed_def)
      ultimately show ?thesis
        using run assms(4) W_bytes w(1,4) unfolding writing_def
        by (auto simp: take_add intro!: exI [of _ "s + n"] exI [of _ "framed b"])
    next
      case W_again
      moreover have "length (framed b) = length b \<and> drop 4 (framed b) = drop 4 b"
        using assms(2) by (simp add: pdu_ok_def framed_def)
      ultimately show ?thesis
        using run assms(4) w unfolding writing_def by (auto intro!: exI [of _ s] exI [of _ "framed b"])
    next
      case W_err
      then show ?thesis
        using run assms(4) w(1,4) unfolding failed_def by auto
    qed
  qed
qed

definition send_inv :: "send_sys \<Rightarrow> bool" where
  "send_inv y \<longleftrightarrow>
     (\<forall>b \<in> set (ss_turn y). pdu_ok b) \<and>
     (case ss_cur y of
        None \<Rightarrow> k_wpdu (ss_c y) = charbuf_empty
          \<and> (if k_dead (ss_c y) then (\<exists>b k. k_wire (ss_c y) = concat (ss_done y) @ take k (framed b)) else k_wire (ss_c y) = concat (ss_done y))
      | Some (b, st) \<Rightarrow> pdu_ok b \<and> ss_done y = ss_true y \<and>
          (st = S_Complete \<and> writing b (ss_done y) (ss_c y) \<or> k_dead (ss_c y) \<and> failed b (ss_done y) (ss_c y)))
     \<and> (if k_dead (ss_c y) then ss_done y = ss_true y \<or> (\<exists>f. ss_done y = ss_true y @ [f]) else ss_done y = ss_true y)"

lemma writing_cong: "k_wpdu c' = k_wpdu c \<Longrightarrow> k_wire c' = k_wire c \<Longrightarrow> writing b done c' = writing b done c"
  by (simp add: writing_def)

lemma failed_cong: "k_wpdu c' = k_wpdu c \<Longrightarrow> k_wire c' = k_wire c \<Longrightarrow> failed b done c' = failed b done c"
  by (simp add: failed_def)

lemma send_inv_same:
  assumes inv: "send_inv y" and c: "k_wpdu c' = k_wpdu (ss_c y)" "k_wire c' = k_wire (ss_c y)" "k_dead (ss_c y) \<longrightarrow> k_dead c'"
  shows "send_inv (y\<lparr>ss_c := c'\<rparr>)"
proof -
  have "\<exists>b k. k_wire (ss_c y) = concat (ss_done y) @ take k (framed b)" if "k_wire (ss_c y) = concat (ss_done y)"
    using that by (metis append_Nil2 take0)
  then show ?thesis
    using assms unfolding send_inv_def
    by (auto simp: writing_cong [OF c(1,2)] failed_cong [OF c(1,2)] split: option.splits if_splits)
qed

lemma send_inv_turn: "send_inv y \<Longrightarrow> \<forall>b \<in> set xs. pdu_ok b \<Longrightarrow> send_inv (y\<lparr>ss_turn := xs\<rparr>)"
  by (cases "ss_cur y") (auto simp: send_inv_def)

lemma send_inv_pdus: "send_inv y \<Longrightarrow> \<forall>b \<in> set (ss_turn y). pdu_ok b"
  by (simp add: send_inv_def)

lemma writing_buf: "writing b done c \<Longrightarrow> cb_buf (k_wpdu c) \<noteq> None" "failed b done c \<Longrightarrow> cb_buf (k_wpdu c) \<noteq> None"
  by (auto simp: writing_def failed_def)

lemma send_inv_free:
  assumes "send_inv y" "\<not> k_dead (ss_c y)" "cb_buf (k_wpdu (ss_c y)) = None"
  shows "ss_cur y = None" "k_wire (ss_c y) = concat (ss_done y)" "ss_done y = ss_true y"
  using assms by (auto simp: send_inv_def split: option.splits dest: writing_buf)

lemma writing_done:
  assumes "writing b done c" "pdu_ok b" "cb_solong (k_wpdu c) = cb_sz (k_wpdu c)"
  shows "k_wire c = concat (done @ [framed b])"
  using assms by (auto simp: writing_def pdu_ok_def)

lemma send_turn_inv:
  assumes inv: "send_inv y" and b: "pdu_ok b" and io: "write_ok io (int (length b))"
    and t: "send_turn io b (int (length b)) c0 = Inr (st, acts, c)"
    and c0: "k_wpdu c0 = k_wpdu (ss_c y)" "k_wire c0 = k_wire (ss_c y)" "k_dead c0 = k_dead (ss_c y)"
  shows "send_inv (settle b st (y\<lparr>ss_c := c\<rparr>))"
proof -
  consider (wait) "\<not> k_dead c0" "cb_buf (k_wpdu c0) \<noteq> None" | (dead) "k_dead c0" | (free) "\<not> k_dead c0" "cb_buf (k_wpdu c0) = None"
    by blast
  then show ?thesis
  proof cases
    case wait
    then have "st = S_Turn" "c = c0"
      using t by (simp_all add: send_turn_def)
    moreover have "send_inv (y\<lparr>ss_c := c0\<rparr>)"
      by (rule send_inv_same [OF inv]) (simp_all add: c0)
    ultimately show ?thesis
      using b send_inv_turn [of "y\<lparr>ss_c := c0\<rparr>" "b # ss_turn y"] send_inv_pdus [OF inv] by (simp add: settle_def)
  next
    case dead
    then have "st = S_Return False" "c = c0\<lparr>k_waiters := k_waiters c0 - 1\<rparr>"
      using t by (simp_all add: send_turn_def)
    moreover have "send_inv (y\<lparr>ss_c := c0\<lparr>k_waiters := k_waiters c0 - 1\<rparr>\<rparr>)"
      by (rule send_inv_same [OF inv]) (simp_all add: c0)
    ultimately show ?thesis
      by (simp add: settle_def)
  next
    case free
    note f = send_inv_free [OF inv free [unfolded c0]]
    define c1 where "c1 = c0\<lparr>k_waiters := k_waiters c0 - 1, k_wpdu := \<lparr>cb_buf = Some b, cb_sz = int (length b), cb_solong = 0\<rparr>\<rparr>"
    have w1: "writing b (ss_done y) c1"
      using f(2) c0(2) by (auto simp: writing_def c1_def)
    obtain ok c2 where c2: "writepdu io c1 = Inr (ok, c2)"
      using t free by (auto simp: send_turn_def c1_def returns Let_def)
    have w2: "if ok then writing b (ss_done y) c2 else failed b (ss_done y) c2" "k_dead c2 = k_dead c1"
      using writepdu_writing [OF w1 b _ c2] io by (simp_all add: c1_def)
    have live: "\<not> k_dead c2"
      using w2(2) free(1) by (simp add: c1_def)
    note turn = send_inv_pdus [OF inv]
    consider (fail) "\<not> ok" | (all) "ok" "cb_solong (k_wpdu c2) = cb_sz (k_wpdu c2)" | (part) "ok" "cb_solong (k_wpdu c2) \<noteq> cb_sz (k_wpdu c2)"
      by blast
    then show ?thesis
    proof cases
      case fail
      then have "st = S_Removing" "c = c2\<lparr>k_dead := True\<rparr>"
        using t free c2 by (simp_all add: send_turn_def c1_def)
      moreover have "failed b (ss_done y) (c2\<lparr>k_dead := True\<rparr>)"
        using w2(1) fail by (simp add: failed_def)
      ultimately show ?thesis
        using b f turn by (simp add: settle_def send_inv_def)
    next
      case all
      then have "st = S_Return True" "c = c2\<lparr>k_wpdu := charbuf_empty\<rparr>"
        using t free c2 live by (simp_all add: send_turn_def c1_def send_finish_def charbuf_empty_def)
      moreover have "k_wire c2 = concat (ss_done y @ [framed b])"
        using writing_done [OF _ b all(2)] w2(1) all(1) by simp
      ultimately show ?thesis
        using f turn live by (simp add: settle_def send_inv_def)
    next
      case part
      have "0 \<le> cb_solong (k_wpdu c2) \<and> cb_solong (k_wpdu c2) < cb_sz (k_wpdu c2)"
        using w2(1) part by (auto simp: writing_def)
      then have "st = S_Complete" "c = c2"
        using t free c2 part live by (simp_all add: send_turn_def c1_def send_complete_def)
      then show ?thesis
        using w2(1) part b f turn live by (simp add: settle_def send_inv_def)
    qed
  qed
qed

lemma wake_finish_inv:
  assumes inv: "send_inv y" and cur: "ss_cur y = Some (b, st)"
    and ready: "k_dead (ss_c y) \<or> cb_solong (k_wpdu (ss_c y)) = cb_sz (k_wpdu (ss_c y))"
  shows "send_inv (wake b (send_finish (ss_c y)) y)"
proof -
  have b: "pdu_ok b" "ss_done y = ss_true y" "writing b (ss_done y) (ss_c y) \<or> k_dead (ss_c y) \<and> failed b (ss_done y) (ss_c y)"
    using inv cur by (auto simp: send_inv_def)
  note turn = send_inv_pdus [OF inv]
  show ?thesis
  proof (cases "cb_solong (k_wpdu (ss_c y)) = cb_sz (k_wpdu (ss_c y))")
    case True
    then have "writing b (ss_done y) (ss_c y)"
      using b(3) by (auto simp: failed_def)
    then have wire: "k_wire (ss_c y) = concat (ss_done y @ [framed b])"
      using b(1) True by (rule writing_done)
    have "\<exists>b' k. concat (ss_done y @ [framed b]) = concat (ss_done y @ [framed b]) @ take k (framed b')"
      by (metis append_Nil2 take0)
    then show ?thesis
      using True wire turn b(2) by (auto simp: wake_def send_finish_def send_inv_def charbuf_empty_def)
  next
    case False
    then have dead: "k_dead (ss_c y)"
      using ready by simp
    have "\<exists>k. k_wire (ss_c y) = concat (ss_done y) @ take k (framed b)"
      using b(3) by (auto simp: writing_def failed_def)
    then show ?thesis
      using False dead turn b(2) by (auto simp: wake_def send_finish_def send_inv_def charbuf_empty_def)
  qed
qed

lemma read_cb_keeps:
  assumes "read_cb accept hdr rest fd c = Inr (pdu, sig, acts, c')"
  shows "k_wpdu c' = k_wpdu c" "k_wire c' = k_wire c" "k_dead c \<longrightarrow> k_dead c'"
proof -
  have rest: "k_wpdu c2 = k_wpdu c1 \<and> k_wire c2 = k_wire c1 \<and> k_dead c2 = k_dead c1" if "read_rest io c1 = Inr (ok, c2)" for io ok c1 c2
    using that by (auto simp: read_rest_def Let_def split: read_res.splits if_splits option.splits)
  have size: "k_wpdu c2 = k_wpdu c1 \<and> k_wire c2 = k_wire c1 \<and> k_dead c2 = k_dead c1" if "read_size io c1 = Inr (Some c2)" for io c1 c2
    using that by (auto simp: read_size_def Let_def split: read_res.splits if_splits)
  have pdu: "k_wpdu c2 = k_wpdu c1 \<and> k_wire c2 = k_wire c1 \<and> k_dead c2 = k_dead c1" if "readpdu hdr io c1 = Inr (ok, c2)" for io ok c1 c2
    using that rest size by (fastforce simp: readpdu_def returns split: if_splits option.splits)
  show "k_wpdu c' = k_wpdu c" "k_wire c' = k_wire c" "k_dead c \<longrightarrow> k_dead c'"
    using assms pdu by (fastforce simp: read_cb_def returns Let_def split: if_splits option.splits)+
qed

lemma write_cb_inv:
  assumes inv: "send_inv y" and io: "write_ok io (cb_sz (k_wpdu (ss_c y)) - cb_solong (k_wpdu (ss_c y)))"
    and w: "write_cb io fd (ss_c y) = Inr (sig, acts, c)"
  shows "send_inv (y\<lparr>ss_c := c\<rparr>)"
proof (cases "cb_sz (k_wpdu (ss_c y)) = 0")
  case True
  then have "c = ss_c y"
    using w by (auto simp: write_cb_def split: if_splits)
  then show ?thesis
    using inv by simp
next
  case False
  have live: "\<not> k_dead (ss_c y)"
    using w by (auto simp: write_cb_def split: if_splits)
  have "ss_cur y \<noteq> None"
    using inv False by (cases "ss_cur y") (auto simp: send_inv_def charbuf_empty_def)
  then obtain b where b: "ss_cur y = Some (b, S_Complete)" "pdu_ok b" "writing b (ss_done y) (ss_c y)" "ss_done y = ss_true y"
    using inv live by (auto simp: send_inv_def)
  obtain ok c1 where p: "writepdu io (ss_c y) = Inr (ok, c1)"
    using w False live by (auto simp: write_cb_def returns split: if_splits)
  then have c1: "writepdu io (ss_c y) = Inr (ok, c1)" "c = (if ok then c1 else c1\<lparr>k_dead := True\<rparr>)"
    using w False live by (auto simp: write_cb_def split: if_splits)
  have "if ok then writing b (ss_done y) c1 else failed b (ss_done y) c1" "k_dead c1 = k_dead (ss_c y)"
    using writepdu_writing [OF b(3,2) io c1(1)] by auto
  then show ?thesis
    using b live send_inv_pdus [OF inv] c1(2) by (auto simp: send_inv_def failed_def)
qed

lemma send_step_inv: "send_step y y' \<Longrightarrow> send_inv y \<Longrightarrow> send_inv y'"
proof (induction rule: send_step.induct)
  case (sd_call b io y st acts c)
  then show ?case
    using send_turn_inv [OF sd_call.prems sd_call.hyps(1,2) sd_call.hyps(3) [unfolded send_begin_def]] by simp
next
  case (sd_turn y xs b ys io st acts c)
  have inv: "send_inv (y\<lparr>ss_turn := xs @ ys\<rparr>)" and b: "pdu_ok b"
    using send_inv_turn [OF sd_turn.prems, of "xs @ ys"] send_inv_pdus [OF sd_turn.prems] sd_turn.hyps(1) by auto
  have "send_inv (settle b st ((y\<lparr>ss_turn := xs @ ys\<rparr>)\<lparr>ss_c := c\<rparr>))"
    by (rule send_turn_inv [OF inv b sd_turn.hyps(2,3)]) simp_all
  then show ?case
    by (cases y) simp
next
  case (sd_complete y b)
  show ?case
  proof (cases "\<not> k_dead (ss_c y) \<and> 0 \<le> cb_solong (k_wpdu (ss_c y)) \<and> cb_solong (k_wpdu (ss_c y)) < cb_sz (k_wpdu (ss_c y))")
    case True
    then have "wake b (send_complete (ss_c y)) y = y"
      using sd_complete.hyps by (cases y) (simp add: wake_def send_complete_def)
    then show ?thesis
      using sd_complete.prems by simp
  next
    case False
    have "writing b (ss_done y) (ss_c y) \<or> k_dead (ss_c y)"
      using sd_complete by (auto simp: send_inv_def)
    then have "k_dead (ss_c y) \<or> cb_solong (k_wpdu (ss_c y)) = cb_sz (k_wpdu (ss_c y))"
      using False by (auto simp: writing_def)
    moreover have "send_complete (ss_c y) = send_finish (ss_c y)"
      using False by (auto simp: send_complete_def)
    ultimately show ?thesis
      using wake_finish_inv [OF sd_complete.prems sd_complete.hyps] by simp
  qed
next
  case (sd_removed y b)
  then show ?case
    using wake_finish_inv [OF sd_removed.prems sd_removed.hyps] by (auto simp: send_inv_def)
next
  case (sd_write_cb io y fd sig acts c)
  then show ?case
    using write_cb_inv by blast
next
  case (sd_read_cb accept hdr rest fd y pdu sig acts c)
  then show ?case
    using send_inv_same [OF sd_read_cb.prems] read_cb_keeps [OF sd_read_cb.hyps] by blast
next
  case (sd_close y c acts)
  then have "k_wpdu c = k_wpdu (ss_c y)" "k_wire c = k_wire (ss_c y)" "k_dead c"
    by (auto simp: closeconn_def split: if_splits)
  then show ?case
    using send_inv_same [OF sd_close.prems] by simp
qed

lemma send_reachable_inv: "send_reachable y \<Longrightarrow> send_inv y"
proof (induction rule: send_reachable.induct)
  case (sr_new fd now)
  show ?case
    by (simp add: send_inv_def send_sys_new_def connection_new_def)
next
  case (sr_step y y')
  then show ?case
    using send_step_inv by blast
qed

text \<open>
  C4: PDUs are sent whole: for any number of threads that send, any partial writes, failures and closing, the bytes that the socket has taken
  are complete PDUs, each with its length in front, followed by at most a part of one more; on a live connection these PDUs are exactly those whose calls of
  \<^verbatim>\<open>send\<close> returned true, in the order in which they returned, and on a dead one at most one more was written completely.
\<close>

theorem send_whole_pdus:
  assumes "send_reachable y"
  shows "(\<exists>b k. k_wire (ss_c y) = concat (ss_done y) @ take k (framed b)) \<and>
    (if k_dead (ss_c y) then ss_done y = ss_true y \<or> (\<exists>f. ss_done y = ss_true y @ [f]) else ss_done y = ss_true y) \<and>
    (\<not> k_dead (ss_c y) \<and> ss_cur y = None \<longrightarrow> k_wire (ss_c y) = concat (ss_true y))"
proof -
  have inv: "send_inv y"
    using assms by (rule send_reachable_inv)
  have "\<exists>b k. k_wire (ss_c y) = concat (ss_done y) @ take k (framed b)"
  proof (cases "ss_cur y")
    case None
    then show ?thesis
      using inv by (auto simp: send_inv_def split: if_splits)
  next
    case (Some bs)
    then have "writing (fst bs) (ss_done y) (ss_c y) \<or> failed (fst bs) (ss_done y) (ss_c y)"
      using inv by (cases bs) (auto simp: send_inv_def)
    then show ?thesis
      unfolding writing_def failed_def by blast
  qed
  then show ?thesis
    using inv unfolding send_inv_def by (auto split: option.splits if_splits)
qed

section \<open>Reading what was sent\<close>

lemma ntohl_be32 [simp]: "ntohl (be32 x) = x"
  by (simp add: ntohl_def be32_def join32)

definition is_frame :: "u8 list \<Rightarrow> bool" where
  "is_frame f \<longleftrightarrow> 4 \<le> length f \<and> length f < 2 ^ 31 \<and> take 4 f = be32 (of_nat (length f))"

lemma framed_is_frame: "pdu_ok b \<Longrightarrow> is_frame (framed b)"
  by (simp add: pdu_ok_def is_frame_def) (simp add: framed_def)

lemma is_frame_size: "is_frame f \<Longrightarrow> sint (ntohl (take 4 f)) = int (length f)"
  by (simp add: is_frame_def signed_of_nat signed_take_bit_int_eq_self)

text \<open>A stream of PDUs can be cut in one way only.\<close>

lemma frames_unique:
  assumes "list_all is_frame fs" "list_all is_frame gs" "concat fs = concat gs"
  shows "fs = gs"
  using assms
proof (induction fs arbitrary: gs)
  case Nil
  then show ?case
    by (cases gs) (auto simp: is_frame_def)
next
  case (Cons f fs)
  then obtain g gs' where gs: "gs = g # gs'"
    by (cases gs) (auto simp: is_frame_def)
  have f: "is_frame f" "is_frame g"
    using Cons.prems(1,2) gs by simp_all
  have e: "f @ concat fs = g @ concat gs'"
    using Cons.prems(3) gs by simp
  have t: "take 4 f = take 4 (f @ concat fs)" "take 4 g = take 4 (g @ concat gs')"
    using f by (simp_all add: is_frame_def)
  have "take 4 f = take 4 g"
    by (rule trans [OF t(1) [unfolded e] t(2) [symmetric]])
  then have "int (length f) = int (length g)"
    using is_frame_size [OF f(1)] is_frame_size [OF f(2)] by simp
  then have "f = g \<and> concat fs = concat gs'"
    using e by simp
  then show ?case
    using Cons.IH [of gs'] Cons.prems(1,2) gs by simp
qed

text \<open>
  The callbacks in a row, and the PDUs they deliver; every PDU is consumed. \<open>pieces\<close> are results of \<^verbatim>\<open>read\<close> that give the bytes in some
  portions, with waits in between, up to the last portion.
\<close>

fun read_run :: "(read_res \<times> read_res) list \<Rightarrow> connection \<Rightarrow> (u8 list list \<times> connection) res" where
  "read_run [] c = Inr ([], c)"
| "read_run ((hdr, io) # es) c =
     bindR (read_cb (\<lambda>_. True) hdr io (k_fd c) c) (\<lambda>(pdu, sig, acts, c).
       bindR (read_run es c) (\<lambda>(ps, c). Inr ((case pdu of None \<Rightarrow> ps | Some p \<Rightarrow> p # ps), c)))"

fun bytes_of :: "read_res \<Rightarrow> u8 list" where
  "bytes_of (R_bytes b) = b"
| "bytes_of _ = []"

definition pieces :: "u8 list \<Rightarrow> read_res list \<Rightarrow> bool" where
  "pieces body es \<longleftrightarrow> es \<noteq> [] \<and> (\<forall>e \<in> set es. e = R_again \<or> (\<exists>b. b \<noteq> [] \<and> e = R_bytes b)) \<and> last es \<noteq> R_again
     \<and> concat (map bytes_of es) = body"

text \<open>The header comes with the first of the pieces.\<close>

definition pdu_reads :: "u8 list \<Rightarrow> read_res list \<Rightarrow> (read_res \<times> read_res) list" where
  "pdu_reads f es = (case es of [] \<Rightarrow> [] | e # es \<Rightarrow> (R_bytes (take 4 f), e) # map (\<lambda>e. (R_again, e)) es)"

definition reading :: "u8 list \<Rightarrow> nat \<Rightarrow> connection \<Rightarrow> connection" where
  "reading f s c = c\<lparr>k_rpdu := \<lparr>cb_buf = Some (take s f), cb_sz = int (length f), cb_solong = int s\<rparr>\<rparr>"

lemma pieces_nonempty: "pieces body es \<Longrightarrow> body \<noteq> []"
proof -
  assume p: "pieces body es"
  then have "last es \<in> set es" "last es \<noteq> R_again"
    by (simp_all add: pieces_def)
  then obtain b where "b \<noteq> []" "R_bytes b \<in> set es"
    using p unfolding pieces_def by metis
  then show "body \<noteq> []"
    using p unfolding pieces_def by fastforce
qed

lemma pieces_Cons:
  assumes "pieces body (e # es)" "es \<noteq> []"
  shows "pieces (drop (length (bytes_of e)) body) es" "bytes_of e = take (length (bytes_of e)) body"
  using assms by (auto simp: pieces_def)

lemma read_cb_piece:
  assumes "\<not> k_dead c" "4 \<le> s" "s < length f" "b \<noteq> []" "b = take (length b) (drop s f)"
  shows "read_cb (\<lambda>_. True) hdr (R_bytes b) (k_fd c) (reading f s c) =
    (if s + length b = length f then Inr (Some f, False, [], c\<lparr>k_rpdu := charbuf_empty\<rparr>)
     else Inr (None, False, [], reading f (s + length b) c))"
proof -
  have le: "s + length b \<le> length f"
    using assms(3,5) by (metis add_le_cancel_left le_add_diff_inverse length_drop length_take less_imp_le min.cobounded1 min.commute)
  have buf: "take s f @ b = take (s + length b) f"
    using assms(5) by (metis take_add)
  have rest: "read_rest (R_bytes b) (reading f s c) = Inr (True, reading f (s + length b) c)"
    using assms(4) le buf by (simp add: read_rest_def reading_def)
  have pdu: "readpdu hdr (R_bytes b) (reading f s c) = Inr (True, reading f (s + length b) c)"
    using rest assms(2,3) by (auto simp: readpdu_def reading_def)
  have "read_cb (\<lambda>_. True) hdr (R_bytes b) (k_fd c) (reading f s c) =
      (if s + length b = length f then Inr (Some (take (s + length b) f), False, [], (reading f (s + length b) c)\<lparr>k_rpdu := charbuf_empty\<rparr>)
       else Inr (None, False, [], reading f (s + length b) c))"
    using pdu assms(1,3) by (simp add: read_cb_def reading_def)
  then show ?thesis
    by (simp add: reading_def)
qed

lemma read_cb_again:
  "\<not> k_dead c \<Longrightarrow> 4 \<le> s \<Longrightarrow> s < length f \<Longrightarrow>
    read_cb (\<lambda>_. True) hdr R_again (k_fd c) (reading f s c) = Inr (None, False, [], reading f s c)"
  by (auto simp: read_cb_def reading_def readpdu_def read_rest_def)

lemma read_pieces:
  assumes "\<not> k_dead c" "4 \<le> s" "s < length f" "pieces (drop s f) es"
  shows "read_run (map (\<lambda>e. (h, e)) es) (reading f s c) = Inr ([f], c\<lparr>k_rpdu := charbuf_empty\<rparr>)"
  using assms(2-4)
proof (induction es arbitrary: s)
  case Nil
  then show ?case
    by (simp add: pieces_def)
next
  case (Cons e es)
  have fd: "k_fd (reading f s c) = k_fd c"
    by (simp add: reading_def)
  show ?case
  proof (cases "es = []")
    case True
    then have "e = R_bytes (drop s f)"
      using Cons.prems(3) by (auto simp: pieces_def)
    then show ?thesis
      using True read_cb_piece [OF assms(1) Cons.prems(1,2), of "drop s f" h] Cons.prems(2) fd by simp
  next
    case False
    note tail = pieces_Cons [OF Cons.prems(3) False]
    show ?thesis
    proof (cases e)
      case (R_bytes b)
      have b: "b \<noteq> []" "b = take (length b) (drop s f)"
        using Cons.prems(3) tail(2) R_bytes by (auto simp: pieces_def)
      have "drop (s + length b) f \<noteq> []"
        using pieces_nonempty [OF tail(1)] R_bytes by (simp add: add.commute)
      then have lt: "s + length b < length f"
        by simp
      have "read_run (map (\<lambda>e. (h, e)) es) (reading f (s + length b) c) = Inr ([f], c\<lparr>k_rpdu := charbuf_empty\<rparr>)"
        using Cons.IH [of "s + length b"] Cons.prems(1) lt tail(1) R_bytes by (simp add: add.commute)
      then show ?thesis
        using read_cb_piece [OF assms(1) Cons.prems(1,2) b, of h] lt R_bytes fd by simp
    next
      case R_again
      then show ?thesis
        using read_cb_again [OF assms(1) Cons.prems(1,2), of h] Cons.IH [OF Cons.prems(1,2)] tail(1) fd by simp
    qed (use Cons.prems(3) in \<open>auto simp: pieces_def\<close>)
  qed
qed

lemma read_first:
  assumes "is_frame f" "int (length f) \<le> MAX_PDU" "\<not> k_dead c" "k_rpdu c = charbuf_empty" "4 < length f"
  shows "read_cb (\<lambda>_. True) (R_bytes (take 4 f)) e (k_fd c) c = read_cb (\<lambda>_. True) R_again e (k_fd c) (reading f 4 c)"
proof -
  have len: "length (take 4 f) = 4"
    using assms(1) by (simp add: is_frame_def)
  have "read_size (R_bytes (take 4 f)) c = Inr (Some (reading f 4 c))"
    using assms len is_frame_size [OF assms(1)] by (simp add: read_size_def reading_def charbuf_empty_def)
  then have "readpdu (R_bytes (take 4 f)) e c = readpdu R_again e (reading f 4 c)"
    using assms(4,5) by (auto simp: readpdu_def charbuf_empty_def reading_def)
  then show ?thesis
    using assms(3,4,5) by (simp add: read_cb_def charbuf_empty_def) (simp add: reading_def)
qed

definition pdu_plan :: "u8 list \<times> read_res list \<Rightarrow> bool" where
  "pdu_plan fe \<longleftrightarrow> is_frame (fst fe) \<and> 4 < length (fst fe) \<and> int (length (fst fe)) \<le> MAX_PDU \<and> pieces (drop 4 (fst fe)) (snd fe)"

lemma read_run_append:
  "read_run (es @ es') c = bindR (read_run es c) (\<lambda>(ps, c). bindR (read_run es' c) (\<lambda>(ps', c). Inr (ps @ ps', c)))"
proof (induction es arbitrary: c)
  case Nil
  then show ?case
    by (cases "read_run es' c") auto
next
  case (Cons e es)
  then show ?case
    by (cases e) (auto simp: bindR_assoc split: option.splits intro!: arg_cong [of _ _ "bindR _"] ext)
qed

lemma read_pdu:
  assumes "pdu_plan (f, es)" "\<not> k_dead c" "k_rpdu c = charbuf_empty"
  shows "read_run (pdu_reads f es) c = Inr ([f], c)"
proof -
  obtain e es' where es: "es = e # es'"
    using assms(1) by (cases es) (auto simp: pdu_plan_def pieces_def)
  have f: "is_frame f" "int (length f) \<le> MAX_PDU" "4 < length f" "pieces (drop 4 f) es"
    using assms(1) by (simp_all add: pdu_plan_def)
  have "read_run (map (\<lambda>e. (R_again, e)) es) (reading f 4 c) = Inr ([f], c\<lparr>k_rpdu := charbuf_empty\<rparr>)"
    using f(3,4) by (intro read_pieces [OF assms(2)]) simp_all
  moreover have "read_run (pdu_reads f es) c = read_run (map (\<lambda>e. (R_again, e)) es) (reading f 4 c)"
    using read_first [OF f(1,2) assms(2,3) f(3)] es by (simp add: pdu_reads_def reading_def)
  moreover have "c\<lparr>k_rpdu := charbuf_empty\<rparr> = c"
    using assms(3) by simp
  ultimately show ?thesis
    by simp
qed

lemma read_pdus:
  assumes "list_all pdu_plan ps" "\<not> k_dead c" "k_rpdu c = charbuf_empty"
  shows "read_run (concat (map (\<lambda>(f, es). pdu_reads f es) ps)) c = Inr (map fst ps, c)"
  using assms
proof (induction ps)
  case (Cons p ps)
  then show ?case
    using read_pdu [of "fst p" "snd p" c] by (cases p) (simp add: read_run_append)
qed simp

lemma send_frames:
  assumes "send_reachable y"
  shows "list_all is_frame (ss_true y)"
  using assms
proof (induction rule: send_reachable.induct)
  case (sr_step y y')
  have inv: "send_inv y"
    using sr_step.hyps(1) by (rule send_reachable_inv)
  have settle: "list_all is_frame (ss_true (settle b st y1))" if "pdu_ok b" "ss_true y1 = ss_true y" for b st y1
    using that sr_step.IH framed_is_frame by (auto simp: settle_def split: send_state.splits)
  have wake: "list_all is_frame (ss_true (wake b sc y))" if "pdu_ok b" for b sc
    using that sr_step.IH framed_is_frame by (auto simp: wake_def split: send_state.splits)
  from sr_step.hyps(2) show ?case
  proof cases
    case (sd_turn xs b ys io st acts c)
    then show ?thesis
      using settle send_inv_pdus [OF inv] by simp
  next
    case (sd_complete b)
    then show ?thesis
      using wake inv by (auto simp: send_inv_def)
  next
    case (sd_removed b)
    then show ?thesis
      using wake inv by (auto simp: send_inv_def)
  qed (use settle sr_step.IH in simp_all)
qed (simp add: send_sys_new_def)


text \<open>One PDU of two bytes, sent at once and read in two portions.\<close>

definition ex_pdu :: "u8 list" where
  "ex_pdu = [0, 0, 0, 0, 7, 8]"

lemma framed_ex_pdu: "framed ex_pdu = [0, 0, 0, 6, 7, 8]"
  by (simp add: framed_def ex_pdu_def be32_def drop_bit_eq_div)

lemma ex_sent:
  "\<exists>y. send_reachable y \<and> \<not> k_dead (ss_c y) \<and> ss_cur y = None \<and> ss_true y = [framed ex_pdu] \<and> k_wire (ss_c y) = framed ex_pdu"
proof -
  let ?y = "send_sys_new 5 (0, 0)"
  let ?c = "(ss_c ?y)\<lparr>k_wire := framed ex_pdu\<rparr>"
  have "send_begin (W_bytes 6) ex_pdu (int (length ex_pdu)) (ss_c ?y) = Inr (S_Return True, [], ?c)"
    by (simp add: send_begin_def send_turn_def send_sys_new_def connection_new_def charbuf_empty_def writepdu_def ex_pdu_def
        send_finish_def framed_def Let_def)
  then have "send_step ?y (settle ex_pdu (S_Return True) (?y\<lparr>ss_c := ?c\<rparr>))"
    by (rule sd_call [rotated 2]) (simp_all add: pdu_ok_def write_ok_def ex_pdu_def)
  then have "send_reachable (settle ex_pdu (S_Return True) (?y\<lparr>ss_c := ?c\<rparr>))"
    by (rule sr_step [OF sr_new])
  then show ?thesis
    by (intro exI conjI) (auto simp: settle_def send_sys_new_def connection_new_def)
qed

theorem send_whole_pdus_witness: "\<exists>y. send_reachable y \<and> k_wire (ss_c y) = [0, 0, 0, 6, 7, 8] \<and> ss_done y = ss_true y"
proof -
  obtain y where y: "send_reachable y" "\<not> k_dead (ss_c y)" "k_wire (ss_c y) = framed ex_pdu"
    using ex_sent by blast
  from send_whole_pdus [OF y(1)] show ?thesis
    using y framed_ex_pdu by auto
qed


section \<open>Lengths that are too small\<close>



end
