(* ===== verification/Rpc_Wire.thy ===== *)
theory Rpc_Wire
  imports Rpc_Stub Connection
begin

text \<open>
  A remote call over a pair of connections: the request that the stubs of theory \<open>Rpc_Stub\<close> write
  is framed by \<^verbatim>\<open>connection::writepdu\<close>, arrives at the server in pieces, is put together by
  \<^verbatim>\<open>connection::readpdu\<close> and handed to the handler, and the reply travels back in the same way.
\<close>

section \<open>A block on its way\<close>

text \<open>The bytes that \<^verbatim>\<open>connection::send\<close> gets of a block; cells never written have arbitrary values.\<close>

definition block_bytes :: "(nat \<Rightarrow> u8) \<Rightarrow> marshall \<Rightarrow> u8 list" where
  "block_bytes junk m = map (\<lambda>i. case m_buf m ! i of None \<Rightarrow> junk i | Some b \<Rightarrow> b) [0..<m_ind m]"

text \<open>\<open>portion\<close> is how the network cuts the part of a PDU behind its length into results of \<^verbatim>\<open>read\<close>.\<close>

definition deliver :: "(u8 list \<Rightarrow> read_res list) \<Rightarrow> connection \<Rightarrow> u8 list \<Rightarrow> unmarshall res" where
  "deliver portion c b =
     bindR (read_run (pdu_reads (framed b) (portion (drop 4 (framed b)))) c) (\<lambda>(pdus, c).
       case pdus of [f] \<Rightarrow> Inr (unmarshall_of_buf (map Some f) (length f)) | _ \<Rightarrow> Inl UninitRead)"

text \<open>The call of a handler on the other side of two connections, \<open>srv\<close> the server's end and \<open>clt\<close> the client's.\<close>

definition tcp_call ::
  "(u8 list \<Rightarrow> read_res list) \<Rightarrow> connection \<Rightarrow> connection \<Rightarrow> (u32 \<Rightarrow> req_header) \<Rightarrow> (nat \<Rightarrow> u8) \<Rightarrow> (nat \<Rightarrow> u8)
     \<Rightarrow> ('s \<Rightarrow> unmarshall \<Rightarrow> marshall \<Rightarrow> (i32 \<times> marshall \<times> 's) res) \<Rightarrow> 's \<Rightarrow> transport" where
  "tcp_call portion srv clt hdr junk1 junk2 fn s proc req tmo =
     bindR (pack_req_header (hdr proc) req) (\<lambda>m.
     bindR (deliver portion srv (block_bytes junk1 m)) (\<lambda>u.
     bindR (unpack_req_header u) (\<lambda>(h, u).
     bindR (fn s u marshall_new) (\<lambda>(b, ret, s').
     bindR (pack_reply_header \<lparr>rp_xid = rq_xid h, rp_ret = b\<rparr> ret) (\<lambda>m.
     bindR (deliver portion clt (block_bytes junk2 m)) (\<lambda>u.
     bindR (unpack_reply_header u) (\<lambda>(h, u).
       Inr (rp_ret h, fst (take_in unmarshall_null u)))))))))"

section \<open>What is read is what was written\<close>

lemma framed_block:
  "unmarshall_of_buf (map Some (framed (block_bytes junk m))) (m_ind m) = received junk m"
proof -
  have "drop 4 (block_bytes junk m) = map (\<lambda>i. case m_buf m ! i of None \<Rightarrow> junk i | Some b \<Rightarrow> b) [4..<m_ind m]"
    by (simp add: block_bytes_def drop_map)
  then show ?thesis
    by (simp add: received_def framed_def block_bytes_def comp_def)
qed

lemma deliver_received:
  assumes "4 < m_ind m" "int (m_ind m) \<le> MAX_PDU" "\<And>b. b \<noteq> [] \<Longrightarrow> pieces b (portion b)"
    and "\<not> k_dead c" "k_rpdu c = charbuf_empty"
  shows "deliver portion c (block_bytes junk m) = Inr (received junk m)"
proof -
  let ?b = "block_bytes junk m"
  have len: "length ?b = m_ind m" "length (framed ?b) = m_ind m"
    using assms(1) by (simp_all add: block_bytes_def framed_def)
  have "pdu_ok ?b"
    using assms(1,2) len by (simp add: pdu_ok_def MAX_PDU_def)
  then have "pdu_plan (framed ?b, portion (drop 4 (framed ?b)))"
    using assms(1-3) len framed_is_frame [of ?b] by (simp add: pdu_plan_def)
  then have "read_run (pdu_reads (framed ?b) (portion (drop 4 (framed ?b)))) c = Inr ([framed ?b], c)"
    using assms(4,5) by (rule read_pdu)
  then show ?thesis
    by (simp add: deliver_def len framed_block)
qed

lemma packed_size:
  assumes "appends marshall_new bs m"
  shows "pack_req_header h m = Inr m' \<Longrightarrow> m_ind m' = 24 + length bs" "pack_reply_header h' m = Inr m' \<Longrightarrow> m_ind m' = 24 + length bs"
  using pack_req_header_poke [of m h] pack_reply_header_poke [of m h'] appends_new_inv [OF assms] by fastforce+

lemma tcp_call_loopback:
  assumes seg: "\<And>b. b \<noteq> [] \<Longrightarrow> pieces b (portion b)"
    and ends: "\<not> k_dead srv" "k_rpdu srv = charbuf_empty" "\<not> k_dead clt" "k_rpdu clt = charbuf_empty"
    and req: "\<And>m. pack_req_header (hdr proc) req = Inr m \<Longrightarrow> 4 < m_ind m \<and> int (m_ind m) \<le> MAX_PDU"
    and rep: "\<And>m h u b ret s' h' m'. pack_req_header (hdr proc) req = Inr m \<Longrightarrow> unpack_req_header (received junk1 m) = Inr (h, u) \<Longrightarrow>
      fn s u marshall_new = Inr (b, ret, s') \<Longrightarrow> pack_reply_header h' ret = Inr m' \<Longrightarrow> 4 < m_ind m' \<and> int (m_ind m') \<le> MAX_PDU"
  shows "tcp_call portion srv clt hdr junk1 junk2 fn s proc req tmo = loopback hdr junk1 junk2 fn s proc req tmo"
  unfolding tcp_call_def loopback_def
proof (rule bindR_cong [OF refl])
  fix m assume m: "pack_req_header (hdr proc) req = Inr m"
  then have "4 < m_ind m" "int (m_ind m) \<le> MAX_PDU"
    using req by blast+
  then have 1: "deliver portion srv (block_bytes junk1 m) = Inr (received junk1 m)"
    using deliver_received [OF _ _ seg ends(1,2)] by blast
  have 2: "deliver portion clt (block_bytes junk2 m') = Inr (received junk2 m')"
    if "unpack_req_header (received junk1 m) = Inr (h, u)" "fn s u marshall_new = Inr (b, ret, s')" "pack_reply_header h' ret = Inr m'"
    for h u b ret s' h' m'
    using rep [OF m that] deliver_received [OF _ _ seg ends(3,4)] by blast
  show "bindR (deliver portion srv (block_bytes junk1 m)) (\<lambda>u. bindR (unpack_req_header u) (\<lambda>(h, u).
      bindR (fn s u marshall_new) (\<lambda>(b, ret, s'). bindR (pack_reply_header \<lparr>rp_xid = rq_xid h, rp_ret = b\<rparr> ret) (\<lambda>m.
      bindR (deliver portion clt (block_bytes junk2 m)) (\<lambda>u. bindR (unpack_reply_header u) (\<lambda>(h, u).
        Inr (rp_ret h, fst (take_in unmarshall_null u)))))))) =
    bindR (unpack_req_header (received junk1 m)) (\<lambda>(h, u).
      bindR (fn s u marshall_new) (\<lambda>(b, ret, s'). bindR (pack_reply_header \<lparr>rp_xid = rq_xid h, rp_ret = b\<rparr> ret) (\<lambda>m.
      bindR (unpack_reply_header (received junk2 m)) (\<lambda>(h, u). Inr (rp_ret h, fst (take_in unmarshall_null u))))))"
    unfolding 1 bindR.simps by (intro bindR_cong refl) (auto simp: 2 [OF _ _ _] intro!: bindR_cong split: prod.splits)
qed

section \<open>A call over TCP\<close>


text \<open>A network that delivers byte by byte, with a wait before each.\<close>

definition one_by_one :: "u8 list \<Rightarrow> read_res list" where
  "one_by_one bs = concat (map (\<lambda>b. [R_again, R_bytes [b]]) bs)"

lemma pieces_one_by_one: "bs \<noteq> [] \<Longrightarrow> pieces bs (one_by_one bs)"
proof -
  assume "bs \<noteq> []"
  then have "last (one_by_one bs) \<noteq> R_again"
    by (cases bs rule: rev_cases) (auto simp: one_by_one_def)
  moreover have "concat (map bytes_of (one_by_one bs)) = bs"
    by (induction bs) (auto simp: one_by_one_def)
  ultimately show ?thesis
    using \<open>bs \<noteq> []\<close> by (auto simp: pieces_def one_by_one_def neq_Nil_conv)
qed


end
