(* ===== verification/Rpc_Chan.thy ===== *)
theory Rpc_Chan
  imports Rpc_Client Connection Text_Stream "HOL-Library.Multiset"
begin

text \<open>
  The channel of an RPC client (\<^verbatim>\<open>rpcc::get_refconn\<close> and the destructor, \<^verbatim>\<open>rpc/rpc.cc\<close>): the connection that \<^verbatim>\<open>chan_\<close> points to,
  the references of the calls that are under way, and when connections are created and deleted. The connections are
  objects in a store; a pointer is an address in it. The addresses of servers are at the end.
\<close>

section \<open>The channel\<close>

type_synonym conn_store = "nat \<rightharpoonup> connection"

definition st_decref :: "nat \<Rightarrow> conn_store \<Rightarrow> conn_store res" where
  "st_decref a h = (case h a of None \<Rightarrow> Inl UseAfterFree | Some c \<Rightarrow> bindR (k_decref c) (\<lambda>c'. Inr (h(a := c'))))"

definition st_incref :: "nat \<Rightarrow> conn_store \<Rightarrow> conn_store res" where
  "st_incref a h = (case h a of None \<Rightarrow> Inl UseAfterFree | Some c \<Rightarrow> Inr (h(a \<mapsto> k_incref c)))"

text \<open>
  What \<^verbatim>\<open>connect_to_dst\<close> finds: whether the connection comes about, the descriptor, the time, and the address of the new object.
\<close>

record conn_obs =
  co_ok :: bool
  co_fd :: nat
  co_now :: "int \<times> int"
  co_addr :: nat

definition connect_chan :: "conn_obs \<Rightarrow> conn_store \<Rightarrow> nat option \<times> conn_store" where
  "connect_chan ob h =
     (case connect_to_dst (co_ok ob) (co_fd ob) (co_now ob) of
        None \<Rightarrow> (None, h)
      | Some (c, acts) \<Rightarrow> (Some (co_addr ob), h(co_addr ob \<mapsto> c)))"

definition refresh_chan :: "conn_obs \<Rightarrow> nat option \<Rightarrow> conn_store \<Rightarrow> (nat option \<times> conn_store) res" where
  "refresh_chan ob chan h =
     (case chan of
        None \<Rightarrow> Inr (connect_chan ob h)
      | Some a \<Rightarrow>
          (case h a of
             None \<Rightarrow> Inl UseAfterFree
           | Some c \<Rightarrow> if isdead c then bindR (st_decref a h) (\<lambda>h. Inr (connect_chan ob h)) else Inr (chan, h)))"

definition get_refconn :: "conn_obs \<Rightarrow> nat option \<Rightarrow> nat option \<Rightarrow> conn_store \<Rightarrow> (nat option \<times> nat option \<times> conn_store) res" where
  "get_refconn ob ch chan h =
     bindR (refresh_chan ob chan h) (\<lambda>(chan, h).
       case chan of
         None \<Rightarrow> Inr (ch, chan, h)
       | Some a \<Rightarrow>
           bindR (case ch of None \<Rightarrow> Inr h | Some b \<Rightarrow> st_decref b h) (\<lambda>h.
           bindR (st_incref a h) (\<lambda>h. Inr (Some a, chan, h))))"

text \<open>The end of \<^verbatim>\<open>call1\<close>, and the destructor; \<open>n\<close> is the number of entries of \<^verbatim>\<open>calls_\<close>.\<close>

definition call1_drop :: "nat option \<Rightarrow> conn_store \<Rightarrow> conn_store res" where
  "call1_drop ch h = (case ch of None \<Rightarrow> Inr h | Some a \<Rightarrow> st_decref a h)"

definition rpcc_delete :: "nat \<Rightarrow> nat option \<Rightarrow> conn_store \<Rightarrow> conn_store res" where
  "rpcc_delete n chan h =
     bindR (case chan of
              None \<Rightarrow> Inr h
            | Some a \<Rightarrow>
                (case h a of
                   None \<Rightarrow> Inl UseAfterFree
                 | Some c \<Rightarrow> st_decref a (h(a \<mapsto> fst (closeconn c))))) (\<lambda>h.
       if n \<noteq> 0 then Inl VerifyFailed else Inr h)"

section \<open>Calls that share a channel\<close>

text \<open>
  The calls that are under way, by their variable \<^verbatim>\<open>ch\<close>. A whole \<^verbatim>\<open>send\<close> is one step; how the sends of several threads interleave is the subject of theory \<open>Connection\<close>.
  A connection can die at any time.
\<close>

record chan_sys =
  cs_chan :: "nat option"
  cs_store :: conn_store
  cs_calls :: "nat option multiset"

inductive chan_step :: "chan_sys \<Rightarrow> chan_sys \<Rightarrow> bool" where
  ch_call: "chan_step s (s\<lparr>cs_calls := add_mset None (cs_calls s)\<rparr>)"
| ch_transmit: "cs_calls s = add_mset ch cs \<Longrightarrow> cs_store s (co_addr ob) = None \<Longrightarrow>
    get_refconn ob ch (cs_chan s) (cs_store s) = Inr (ch', chan, h) \<Longrightarrow>
    chan_step s \<lparr>cs_chan = chan, cs_store = h, cs_calls = add_mset ch' cs\<rparr>"
| ch_send: "Some a \<in># cs_calls s \<Longrightarrow> cs_store s a = Some c \<Longrightarrow> k_refno c' = k_refno c \<Longrightarrow> k_dead c \<longrightarrow> k_dead c' \<Longrightarrow>
    cb_buf (k_wpdu c') = None \<Longrightarrow> chan_step s (s\<lparr>cs_store := (cs_store s)(a \<mapsto> c')\<rparr>)"
| ch_die: "cs_store s a = Some c \<Longrightarrow> chan_step s (s\<lparr>cs_store := (cs_store s)(a \<mapsto> c\<lparr>k_dead := True\<rparr>)\<rparr>)"
| ch_end: "cs_calls s = add_mset ch cs \<Longrightarrow> call1_drop ch (cs_store s) = Inr h \<Longrightarrow>
    chan_step s (s\<lparr>cs_store := h, cs_calls := cs\<rparr>)"

inductive chan_reachable :: "chan_sys \<Rightarrow> bool" where
  cr_new: "chan_reachable \<lparr>cs_chan = None, cs_store = Map.empty, cs_calls = {#}\<rparr>"
| cr_step: "chan_reachable s \<Longrightarrow> chan_step s s' \<Longrightarrow> chan_reachable s'"

text \<open>The number of pointers to an object.\<close>

definition refs :: "nat option \<Rightarrow> nat option multiset \<Rightarrow> nat \<Rightarrow> nat" where
  "refs chan cs a = (if chan = Some a then 1 else 0) + count cs (Some a)"

text \<open>
  Every object has as many references as its counter says, at least one; nothing is being sent; and only the channel is alive.
\<close>

definition counted :: "(nat \<Rightarrow> nat) \<Rightarrow> nat option \<Rightarrow> conn_store \<Rightarrow> bool" where
  "counted rf chan h \<longleftrightarrow>
     (\<forall>a. h a = None \<longrightarrow> rf a = 0) \<and>
     (\<forall>a c. h a = Some c \<longrightarrow>
        k_refno c = int (rf a) \<and> 0 < rf a \<and> cb_buf (k_wpdu c) = None \<and> (k_dead c \<or> chan = Some a))"

abbreviation chan_ok :: "nat option \<Rightarrow> nat option multiset \<Rightarrow> conn_store \<Rightarrow> bool" where
  "chan_ok chan cs \<equiv> counted (refs chan cs) chan"

lemma countedD:
  assumes "counted rf chan h" "0 < rf a"
  obtains c where "h a = Some c" "k_refno c = int (rf a)" "cb_buf (k_wpdu c) = None" "k_dead c \<or> chan = Some a"
  using assms by (cases "h a") (auto simp: counted_def)

lemma countedD2:
  assumes "counted rf chan h" "h a = Some c"
  shows "0 < rf a" "k_refno c = int (rf a)" "cb_buf (k_wpdu c) = None" "k_dead c \<or> chan = Some a"
  using assms by (auto simp: counted_def)

lemma counted_upd:
  assumes "counted rf chan h" "k_refno c = int n" "0 < n" "cb_buf (k_wpdu c) = None" "k_dead c \<or> chan = Some a"
  shows "counted (rf(a := n)) chan (h(a \<mapsto> c))"
  using assms by (auto simp: counted_def)

lemma counted_del: "counted rf chan h \<Longrightarrow> counted (rf(a := 0)) chan (h(a := None))"
  by (auto simp: counted_def)

text \<open>Giving up a reference; the last one only of a dead connection.\<close>

lemma decref_counted:
  assumes "counted rf chan h" "0 < rf a" "rf a = 1 \<Longrightarrow> (\<exists>c. h a = Some c \<and> k_dead c)"
  shows "\<exists>h'. st_decref a h = Inr h' \<and> counted (rf(a := rf a - 1)) chan h' \<and> (\<forall>b. h b = None \<longrightarrow> h' b = None)"
proof -
  obtain c where c: "h a = Some c" "k_refno c = int (rf a)" "cb_buf (k_wpdu c) = None" "k_dead c \<or> chan = Some a"
    using countedD [OF assms(1,2)] .
  show ?thesis
  proof (cases "rf a = 1")
    case True
    then have "st_decref a h = Inr (h(a := None))"
      using c assms(3) by (auto simp: st_decref_def k_decref_def connection_delete_def)
    then show ?thesis
      using counted_del [OF assms(1), of a] True by simp
  next
    case False
    then have "st_decref a h = Inr (h(a \<mapsto> c\<lparr>k_refno := int (rf a - 1)\<rparr>))"
      using c assms(2) by (auto simp: st_decref_def k_decref_def)
    moreover have "counted (rf(a := rf a - 1)) chan (h(a \<mapsto> c\<lparr>k_refno := int (rf a - 1)\<rparr>))"
      using c assms(1,2) False by (intro counted_upd) auto
    ultimately show ?thesis
      using c(1) by auto
  qed
qed

lemma incref_counted:
  assumes "counted rf chan h" "0 < rf a"
  shows "\<exists>h'. st_incref a h = Inr h' \<and> counted (rf(a := rf a + 1)) chan h'"
proof -
  obtain c where c: "h a = Some c" "k_refno c = int (rf a)" "cb_buf (k_wpdu c) = None" "k_dead c \<or> chan = Some a"
    using countedD [OF assms] .
  then show ?thesis
    using counted_upd [OF assms(1), of "k_incref c" "rf a + 1" a] by (simp add: st_incref_def k_incref_def)
qed

lemma counted_dead:
  assumes "counted rf (Some a) h" "h a = Some c" "k_dead c"
  shows "counted rf None h"
  using assms unfolding counted_def by (metis option.inject)

lemma connect_counted:
  assumes "counted rf None h" "h (co_addr ob) = None" "connect_chan ob h = (chan, h')"
  shows "counted (\<lambda>a. rf a + (if chan = Some a then 1 else 0)) chan h'"
proof (cases "co_ok ob")
  case True
  have "rf (co_addr ob) = 0"
    using assms(1,2) by (simp add: counted_def)
  then show ?thesis
    using assms True
    by (auto simp: connect_chan_def connect_to_dst_def connection_new_def charbuf_empty_def counted_def split: option.splits)
next
  case False
  then show ?thesis
    using assms by (auto simp: connect_chan_def connect_to_dst_def)
qed

text \<open>\<open>rf\<close> counts the references of the calls only.\<close>

lemma refresh_counted:
  assumes "counted (\<lambda>a. rf a + (if chan = Some a then 1 else 0)) chan h" "h (co_addr ob) = None"
  shows "\<exists>chan' h'. refresh_chan ob chan h = Inr (chan', h') \<and> counted (\<lambda>a. rf a + (if chan' = Some a then 1 else 0)) chan' h'"
proof (cases chan)
  case None
  obtain chan' h' where c: "connect_chan ob h = (chan', h')"
    by (cases "connect_chan ob h")
  have "counted rf None h"
    using assms(1) None by simp
  from connect_counted [OF this assms(2) c] show ?thesis
    using None c by (simp add: refresh_chan_def)
next
  case (Some a)
  obtain c where c: "h a = Some c"
    using countedD [OF assms(1), of a] Some by auto
  show ?thesis
  proof (cases "k_dead c")
    case True
    have d: "counted (\<lambda>b. rf b + (if chan = Some b then 1 else 0)) None h"
      using assms(1) unfolding Some by (rule counted_dead) fact+
    obtain h1 where h1: "st_decref a h = Inr h1" "h1 (co_addr ob) = None"
        "counted ((\<lambda>b. rf b + (if chan = Some b then 1 else 0))(a := rf a)) None h1"
      using decref_counted [OF d, of a] Some c True assms(2) by auto
    have "(\<lambda>b. rf b + (if chan = Some b then 1 else 0))(a := rf a) = rf"
      using Some by auto
    moreover obtain chan' h' where h': "connect_chan ob h1 = (chan', h')"
      by (cases "connect_chan ob h1")
    ultimately have "counted (\<lambda>a. rf a + (if chan' = Some a then 1 else 0)) chan' h'"
      using connect_counted [OF _ h1(2) h'] h1(3) by simp
    then show ?thesis
      using Some c True h1(1) h' by (simp add: refresh_chan_def isdead_def)
  next
    case False
    then show ?thesis
      using Some c assms(1) by (simp add: refresh_chan_def isdead_def)
  qed
qed

lemma refs_eq: "refs chan cs = (\<lambda>a. count cs (Some a) + (if chan = Some a then 1 else 0))"
  by (simp add: refs_def fun_eq_iff)

lemma get_refconn_ok:
  assumes "chan_ok chan (add_mset ch cs) h" "h (co_addr ob) = None"
  shows "\<exists>ch' chan' h'. get_refconn ob ch chan h = Inr (ch', chan', h') \<and> chan_ok chan' (add_mset ch' cs) h'"
proof -
  obtain chan1 h1 where r: "refresh_chan ob chan h = Inr (chan1, h1)" and ok: "chan_ok chan1 (add_mset ch cs) h1"
    using refresh_counted [OF assms(1) [unfolded refs_eq] assms(2)] unfolding refs_eq by blast
  show ?thesis
  proof (cases chan1)
    case None
    then show ?thesis
      using r ok by (simp add: get_refconn_def)
  next
    case (Some a)
    obtain h2 where h2: "(case ch of None \<Rightarrow> Inr h1 | Some b \<Rightarrow> st_decref b h1) = Inr h2" "chan_ok chan1 cs h2"
    proof (cases ch)
      case None
      then have "refs chan1 (add_mset ch cs) = refs chan1 cs"
        by (simp add: refs_eq)
      then show thesis
        using that None ok by simp
    next
      case (Some b)
      have "refs chan1 (add_mset ch cs) b = 1 \<Longrightarrow> \<exists>c. h1 b = Some c \<and> k_dead c"
        using countedD [OF ok, of b] \<open>ch = Some b\<close> by (auto simp: refs_def split: if_splits)
      then obtain h2 where "st_decref b h1 = Inr h2" "counted ((refs chan1 (add_mset ch cs))(b := refs chan1 (add_mset ch cs) b - 1)) chan1 h2"
        using decref_counted [OF ok, of b] Some by (auto simp: refs_def)
      moreover have "(refs chan1 (add_mset ch cs))(b := refs chan1 (add_mset ch cs) b - 1) = refs chan1 cs"
        using Some by (auto simp: refs_def)
      ultimately show thesis
        using that Some by simp
    qed
    obtain h3 where "st_incref a h2 = Inr h3" "counted ((refs chan1 cs)(a := refs chan1 cs a + 1)) chan1 h3"
      using incref_counted [OF h2(2), of a] Some by (auto simp: refs_def)
    moreover have "(refs chan1 cs)(a := refs chan1 cs a + 1) = refs chan1 (add_mset (Some a) cs)"
      by (auto simp: refs_def)
    ultimately show ?thesis
      using r Some h2(1) by (auto simp: get_refconn_def)
  qed
qed

lemma call1_drop_ok:
  assumes "chan_ok chan (add_mset ch cs) h"
  shows "\<exists>h'. call1_drop ch h = Inr h' \<and> chan_ok chan cs h'"
proof (cases ch)
  case None
  then show ?thesis
    using assms by (simp add: call1_drop_def refs_eq)
next
  case (Some b)
  have "refs chan (add_mset ch cs) b = 1 \<Longrightarrow> \<exists>c. h b = Some c \<and> k_dead c"
    using countedD [OF assms, of b] Some by (auto simp: refs_def split: if_splits)
  moreover have "(refs chan (add_mset ch cs))(b := refs chan (add_mset ch cs) b - 1) = refs chan cs"
    using Some by (auto simp: refs_def)
  ultimately show ?thesis
    using decref_counted [OF assms, of b] Some by (auto simp: call1_drop_def refs_def)
qed

lemma counted_same:
  assumes "counted rf chan h" "h a = Some c" "k_refno c' = k_refno c" "k_dead c \<longrightarrow> k_dead c'" "cb_buf (k_wpdu c') = None"
  shows "counted rf chan (h(a \<mapsto> c'))"
  using assms by (auto simp: counted_def)

lemma chan_reachable_ok: "chan_reachable s \<Longrightarrow> chan_ok (cs_chan s) (cs_calls s) (cs_store s)"
proof (induction rule: chan_reachable.induct)
  case cr_new
  then show ?case
    by (simp add: counted_def refs_def)
next
  case (cr_step s s')
  note ok = cr_step.IH
  from cr_step.hyps(2) show ?case
  proof cases
    case ch_call
    then show ?thesis
      using ok by (simp add: refs_eq)
  next
    case (ch_transmit ch cs ob ch' chan h)
    then show ?thesis
      using get_refconn_ok [of "cs_chan s" ch cs "cs_store s" ob] ok by auto
  next
    case (ch_send a c c')
    then show ?thesis
      using counted_same [OF ok ch_send(3-6)] unfolding ch_send(1) by (simp add: fun_upd_def)
  next
    case (ch_die a c)
    then show ?thesis
      using counted_same [OF ok ch_die(2), of "c\<lparr>k_dead := True\<rparr>"] countedD2(3) [OF ok ch_die(2)] by (simp add: fun_upd_def)
  next
    case (ch_end ch cs h)
    then show ?thesis
      using call1_drop_ok [of "cs_chan s" ch cs "cs_store s"] ok by auto
  qed
qed

lemma rpcc_delete_ok:
  assumes "chan_ok chan {#} h"
  shows "rpcc_delete 0 chan h = Inr Map.empty"
proof (cases chan)
  case None
  then have "h a = None" for a
    using countedD2(1) [OF assms, of a] by (cases "h a") (auto simp: refs_def)
  then show ?thesis
    using None by (auto simp: rpcc_delete_def)
next
  case (Some a)
  obtain c where c: "h a = Some c" "k_refno c = 1" "cb_buf (k_wpdu c) = None"
    using countedD [OF assms, of a] Some by (auto simp: refs_def)
  have "h b = None" if "b \<noteq> a" for b
    using that Some countedD2(1) [OF assms, of b] by (cases "h b") (auto simp: refs_def)
  then have "h(a := None) = Map.empty"
    by auto
  moreover have "rpcc_delete 0 chan h = Inr (h(a := None))"
    using Some c by (auto simp: rpcc_delete_def st_decref_def closeconn_def k_decref_def connection_delete_def)
  ultimately show ?thesis
    by simp
qed

text \<open>
  C17: The calls of a client share connections safely: whatever the order in which calls start, transmit, send, end and connections
  die, each object counts exactly the pointers to it and is there as long as there is one; so obtaining a channel and giving it up
  never touch a deleted connection or fail a check, and the destructor, called when no call is under way, leaves no connection behind.
\<close>

theorem refconn_counts:
  assumes "chan_reachable s"
  shows "(\<forall>a. case cs_store s a of
        None \<Rightarrow> refs (cs_chan s) (cs_calls s) a = 0
      | Some c \<Rightarrow> k_refno c = int (refs (cs_chan s) (cs_calls s) a) \<and> 0 < k_refno c)
    \<and> (\<forall>ch ob. ch \<in># cs_calls s \<and> cs_store s (co_addr ob) = None \<longrightarrow>
        (\<exists>r. get_refconn ob ch (cs_chan s) (cs_store s) = Inr r) \<and> (\<exists>h. call1_drop ch (cs_store s) = Inr h))
    \<and> (cs_calls s = {#} \<longrightarrow> rpcc_delete 0 (cs_chan s) (cs_store s) = Inr Map.empty)"
proof (intro conjI allI impI; (elim conjE)?)
  note ok = chan_reachable_ok [OF assms]
  fix a
  show "case cs_store s a of None \<Rightarrow> refs (cs_chan s) (cs_calls s) a = 0
      | Some c \<Rightarrow> k_refno c = int (refs (cs_chan s) (cs_calls s) a) \<and> 0 < k_refno c"
    using ok countedD2 [OF ok, of a] by (cases "cs_store s a") (auto simp: counted_def)
next
  fix ch and ob :: conn_obs
  assume ch: "ch \<in># cs_calls s" and ob: "cs_store s (co_addr ob) = None"
  obtain cs where "cs_calls s = add_mset ch cs"
    using ch by (meson multi_member_split)
  then have ok: "chan_ok (cs_chan s) (add_mset ch cs) (cs_store s)"
    using chan_reachable_ok [OF assms] by simp
  show "\<exists>r. get_refconn ob ch (cs_chan s) (cs_store s) = Inr r"
    using get_refconn_ok [OF ok ob] by blast
  show "\<exists>h. call1_drop ch (cs_store s) = Inr h"
    using call1_drop_ok [OF ok] by blast
next
  assume "cs_calls s = {#}"
  then show "rpcc_delete 0 (cs_chan s) (cs_store s) = Inr Map.empty"
    using rpcc_delete_ok chan_reachable_ok [OF assms] by simp
qed

text \<open>One call that has a connection: the channel and the call refer to it.\<close>

lemma ex_chan:
  "\<exists>s c. chan_reachable s \<and> cs_chan s = Some 7 \<and> cs_calls s = {#Some 7#} \<and> cs_store s = [7 \<mapsto> c] \<and> k_refno c = 2"
proof -
  let ?ob = "\<lparr>co_ok = True, co_fd = 3, co_now = (0, 0), co_addr = 7\<rparr>" and ?c = "k_incref (fst (connection_new 3 (0, 0)))"
  have 1: "chan_reachable \<lparr>cs_chan = None, cs_store = Map.empty, cs_calls = {#None#}\<rparr>"
    using cr_step [OF cr_new ch_call] by simp
  have g: "get_refconn ?ob None None Map.empty = Inr (Some 7, Some 7, [7 \<mapsto> ?c])"
    by (simp add: get_refconn_def refresh_chan_def connect_chan_def connect_to_dst_def st_incref_def connection_new_def)
  have "chan_step \<lparr>cs_chan = None, cs_store = Map.empty, cs_calls = {#None#}\<rparr>
      \<lparr>cs_chan = Some 7, cs_store = [7 \<mapsto> ?c], cs_calls = add_mset (Some 7) {#}\<rparr>"
    by (rule ch_transmit [of _ None "{#}" ?ob]) (use g in simp_all)
  then have "chan_reachable \<lparr>cs_chan = Some 7, cs_store = [7 \<mapsto> ?c], cs_calls = {#Some 7#}\<rparr>"
    using cr_step [OF 1] by simp
  then show ?thesis
    by (intro exI conjI) (auto simp: k_incref_def connection_new_def)
qed

theorem refconn_counts_witness:
  "\<exists>s h. chan_reachable s \<and> cs_calls s = {#Some 7#} \<and> call1_drop (Some 7) (cs_store s) = Inr h"
proof -
  obtain s c where s: "chan_reachable s" "cs_calls s = {#Some 7#}" "cs_store s = [7 \<mapsto> c]"
    using ex_chan by blast
  have "cs_store s (co_addr \<lparr>co_ok = False, co_fd = 0, co_now = (0, 0), co_addr = 8\<rparr>) = None" "Some 7 \<in># cs_calls s"
    using s by simp_all
  then have "\<exists>h. call1_drop (Some 7) (cs_store s) = Inr h"
    using refconn_counts [OF s(1)] by blast
  then show ?thesis
    using s by blast
qed

section \<open>Addresses of servers\<close>

datatype sockaddr_in = Sockaddr (sin_addr: u32) (sin_port: u16)

instantiation sockaddr_in :: linorder
begin

definition less_sockaddr_in :: "sockaddr_in \<Rightarrow> sockaddr_in \<Rightarrow> bool" where
  "less_sockaddr_in a b \<longleftrightarrow> sin_addr a < sin_addr b \<or> sin_addr a = sin_addr b \<and> sin_port a < sin_port b"

definition less_eq_sockaddr_in :: "sockaddr_in \<Rightarrow> sockaddr_in \<Rightarrow> bool" where
  "less_eq_sockaddr_in a b \<longleftrightarrow> a = b \<or> a < b"

instance
proof
  fix a b :: sockaddr_in
  show "a \<le> b \<or> b \<le> a"
    by (cases a; cases b) (auto simp: less_eq_sockaddr_in_def less_sockaddr_in_def)
qed (auto simp: less_eq_sockaddr_in_def less_sockaddr_in_def)

end

text \<open>
  \<^verbatim>\<open>atoi\<close> skips white space, takes a sign and digits; the numbers of ports are in its range. The resolver is a parameter: \<open>inet\<close>
  gives the address that a text stands for, which is \<open>- 1\<close> for a text that is none, and \<open>resolve\<close> the length and the first address that are found for a name.
\<close>

definition atoi :: "string \<Rightarrow> int" where
  "atoi s =
     (case dropWhile is_space s of
        [] \<Rightarrow> 0
      | c # t \<Rightarrow> if c = CHR ''-'' then - int (number t) else if c = CHR ''+'' then int (number t) else int (number (c # t)))"

definition htons :: "u16 \<Rightarrow> u16" where
  "htons w = push_bit 8 w OR drop_bit 8 w"

text \<open>\<open>None\<close> is the exit of the program.\<close>

definition make_sockaddr :: "(string \<Rightarrow> u32) \<Rightarrow> (string \<Rightarrow> (nat \<times> u32) option) \<Rightarrow> string \<Rightarrow> string \<Rightarrow> sockaddr_in option" where
  "make_sockaddr inet resolve host port =
     map_option (\<lambda>a. Sockaddr a (htons (of_int (atoi port))))
       (if inet host \<noteq> - 1 then Some (inet host)
        else case resolve host of None \<Rightarrow> None | Some (len, a) \<Rightarrow> if len \<noteq> 4 then None else Some a)"

text \<open>The array for the name of the host has 200 cells.\<close>

definition make_sockaddr_str ::
  "(string \<Rightarrow> u32) \<Rightarrow> (string \<Rightarrow> (nat \<times> u32) option) \<Rightarrow> string \<Rightarrow> sockaddr_in option res" where
  "make_sockaddr_str inet resolve hostandport =
     (let host = takeWhile (\<lambda>c. c \<noteq> CHR '':'') hostandport in
      if CHR '':'' \<notin> set hostandport then Inr (make_sockaddr inet resolve ''127.0.0.1'' hostandport)
      else if 200 \<le> length host then Inl OutOfBounds
      else Inr (make_sockaddr inet resolve host (drop (length host + 1) hostandport)))"

text \<open>
  The address of a server is read as it is written; a name of 200 or more characters before the colon overflows the array on the stack.
\<close>

theorem make_sockaddr_reads:
  assumes "CHR '':'' \<notin> set host"
  shows "make_sockaddr_str inet resolve (host @ '':'' @ port) =
    (if length host < 200 then Inr (make_sockaddr inet resolve host port) else Inl OutOfBounds)"
proof -
  have "takeWhile (\<lambda>c. c \<noteq> CHR '':'') (host @ '':'' @ port) = host"
    using assms by (subst takeWhile_append2) auto
  then show ?thesis
    unfolding make_sockaddr_str_def Let_def by simp
qed

lemma htons_twice: "htons (htons w) = w"
  by (rule bit_word_eqI) (auto simp: htons_def bit_simps)

end
