(* ===== verification/Lock_Tester.thy ===== *)
theory Lock_Tester
  imports Lock_System Rpc_Chan
begin

text \<open>
  The lock tester (\<^verbatim>\<open>lock_tester.cc\<close>): the counters by which it checks that no lock is granted twice, the programs of its threads, and their
  execution on a lock service. What it relies on is the contract of theory \<open>Lock_System\<close>, as a locale.
\<close>

section \<open>The counters\<close>

text \<open>An array of 256 counters, by the lowest byte of the lock; \<open>None\<close> is the exit with an error message.\<close>

definition check_grant :: "lockid_t \<Rightarrow> (u8 \<Rightarrow> i32) \<Rightarrow> (u8 \<Rightarrow> i32) option" where
  "check_grant lid ct = (let x = ucast lid in if ct x \<noteq> 0 then None else Some (ct(x := ct x + 1)))"

definition check_release :: "lockid_t \<Rightarrow> (u8 \<Rightarrow> i32) \<Rightarrow> (u8 \<Rightarrow> i32) option" where
  "check_release lid ct = (let x = ucast lid in if ct x \<noteq> 1 then None else Some (ct(x := ct x - 1)))"

section \<open>The programs of the threads\<close>

text \<open>The first argument of \<open>Acquire\<close> and \<open>Release\<close> is the index of the client in \<^verbatim>\<open>lc\<close>.\<close>

datatype tester_op = Acquire nat lockid_t | Release nat lockid_t | CheckGrant lockid_t | CheckRelease lockid_t

definition lid_a :: lockid_t where "lid_a = 1"
definition lid_b :: lockid_t where "lid_b = 2"

definition tester_nt :: nat where "tester_nt = 6"

definition test1 :: "tester_op list" where
  "test1 =
     [Acquire 0 lid_a, CheckGrant lid_a, Release 0 lid_a, CheckRelease lid_a,
      Acquire 0 lid_a, CheckGrant lid_a, Release 0 lid_a, CheckRelease lid_a,
      Acquire 0 lid_a, CheckGrant lid_a, Acquire 0 lid_b, CheckGrant lid_b,
      Release 0 lid_b, CheckRelease lid_b, Release 0 lid_a, CheckRelease lid_a]"

definition test2 :: "nat \<Rightarrow> tester_op list" where
  "test2 i = [Acquire i lid_a, CheckGrant lid_a, CheckRelease lid_a, Release i lid_a]"

definition test3 :: "nat \<Rightarrow> tester_op list" where
  "test3 i = concat (replicate 10 [Acquire i lid_a, CheckGrant lid_a, CheckRelease lid_a, Release i lid_a])"

definition test4 :: "nat \<Rightarrow> tester_op list" where
  "test4 i = concat (replicate 10 [Acquire 0 lid_a, CheckGrant lid_a, CheckRelease lid_a, Release 0 lid_a])"

definition test5 :: "nat \<Rightarrow> tester_op list" where
  "test5 i = concat (replicate 10
     [if i < 5 then Acquire 0 lid_a else Acquire 1 lid_a, CheckGrant lid_a, CheckRelease lid_a,
      if i < 5 then Release 0 lid_a else Release 1 lid_a])"

text \<open>
  The threads of each test that is run; \<^verbatim>\<open>main\<close> joins those of a test before it starts the next. \<open>None\<close> is the exit with a message about the arguments.
\<close>

definition tester_phases :: "int \<Rightarrow> tester_op list list list" where
  "tester_phases test =
     (if test = 0 \<or> test = 1 then [[test1]] else []) @
     (if test = 0 \<or> test = 2 then [map test2 [0..<tester_nt]] else []) @
     (if test = 0 \<or> test = 3 then [map test3 [0..<tester_nt]] else []) @
     (if test = 0 \<or> test = 4 then [map test4 [0..<2]] else []) @
     (if test = 0 \<or> test = 5 then [map test5 [0..<tester_nt]] else [])"

definition tester_main :: "string list \<Rightarrow> tester_op list list list option" where
  "tester_main argv =
     (if length argv < 2 then None
      else if 2 < length argv
      then (let test = atoi (argv ! 2) in if test < 1 \<or> 5 < test then None else Some (tester_phases test))
      else Some (tester_phases 0))"

section \<open>Execution\<close>

text \<open>
  \<open>tst_run\<close> is what is left of the threads of the present test. The lock service is a step relation \<open>step\<close> and the list \<open>holds\<close> of the
  calls of \<^verbatim>\<open>acquire\<close> that have returned and have not been released; \<open>cl\<close> gives the identity of a client.
\<close>

record 'k tester =
  tst_sys :: 'k
  tst_ct :: "u8 \<Rightarrow> i32"
  tst_run :: "tester_op list list"
  tst_next :: "tester_op list list list"

inductive tester_step ::
  "('k \<Rightarrow> 'k \<Rightarrow> bool) \<Rightarrow> ('k \<Rightarrow> (string \<times> nat \<times> lockid_t) list) \<Rightarrow> (nat \<Rightarrow> string) \<Rightarrow> 'k tester \<Rightarrow> 'k tester \<Rightarrow> bool"
  for step holds cl where
  ts_service: "step (tst_sys q) k \<Longrightarrow> holds k = holds (tst_sys q) \<Longrightarrow> tester_step step holds cl q (q\<lparr>tst_sys := k\<rparr>)"
| ts_acquire: "t < length (tst_run q) \<Longrightarrow> tst_run q ! t = Acquire i lid # p \<Longrightarrow> step (tst_sys q) k \<Longrightarrow>
    holds k = (cl i, t, lid) # holds (tst_sys q) \<Longrightarrow>
    tester_step step holds cl q (q\<lparr>tst_sys := k, tst_run := (tst_run q)[t := p]\<rparr>)"
| ts_release: "t < length (tst_run q) \<Longrightarrow> tst_run q ! t = Release i lid # p \<Longrightarrow> step (tst_sys q) k \<Longrightarrow>
    holds (tst_sys q) = us @ (cl i, t, lid) # vs \<Longrightarrow> holds k = us @ vs \<Longrightarrow>
    tester_step step holds cl q (q\<lparr>tst_sys := k, tst_run := (tst_run q)[t := p]\<rparr>)"
| ts_grant: "t < length (tst_run q) \<Longrightarrow> tst_run q ! t = CheckGrant lid # p \<Longrightarrow> check_grant lid (tst_ct q) = Some ct \<Longrightarrow>
    tester_step step holds cl q (q\<lparr>tst_ct := ct, tst_run := (tst_run q)[t := p]\<rparr>)"
| ts_check_release: "t < length (tst_run q) \<Longrightarrow> tst_run q ! t = CheckRelease lid # p \<Longrightarrow> check_release lid (tst_ct q) = Some ct \<Longrightarrow>
    tester_step step holds cl q (q\<lparr>tst_ct := ct, tst_run := (tst_run q)[t := p]\<rparr>)"
| ts_join: "\<forall>p \<in> set (tst_run q). p = [] \<Longrightarrow> tst_next q = ph # phs \<Longrightarrow>
    tester_step step holds cl q (q\<lparr>tst_run := ph, tst_next := phs\<rparr>)"

definition tester_new :: "'k \<Rightarrow> tester_op list list list \<Rightarrow> 'k tester" where
  "tester_new k phases = \<lparr>tst_sys = k, tst_ct = (\<lambda>_. 0), tst_run = [], tst_next = phases\<rparr>"

text \<open>No thread is about to exit with an error.\<close>

definition checks_pass :: "'k tester \<Rightarrow> bool" where
  "checks_pass q \<longleftrightarrow> (\<forall>p \<in> set (tst_run q). case p of
       CheckGrant lid # _ \<Rightarrow> check_grant lid (tst_ct q) \<noteq> None
     | CheckRelease lid # _ \<Rightarrow> check_release lid (tst_ct q) \<noteq> None
     | _ \<Rightarrow> True)"

section \<open>Threads that take the lock in turns\<close>

definition turn :: "nat \<Rightarrow> tester_op list" where
  "turn i = [Acquire i lid_a, CheckGrant lid_a, CheckRelease lid_a, Release i lid_a]"

definition turns :: "nat \<Rightarrow> tester_op list \<Rightarrow> bool" where
  "turns i p \<longleftrightarrow> (\<exists>d n. p = drop d (turn i) @ concat (replicate n (turn i)))"

lemma turns_replicate: "turns i (concat (replicate n (turn i)))"
  unfolding turns_def by (rule exI [of _ 4]) (auto simp: turn_def)

lemma turns_cases:
  assumes "turns i p"
  obtains (ended) "p = []"
  | (acquire) p' where "p = Acquire i lid_a # p'" "turns i p'" "\<exists>r. p' = CheckGrant lid_a # r"
  | (grant) p' where "p = CheckGrant lid_a # p'" "turns i p'" "\<exists>r. p' = CheckRelease lid_a # r"
  | (check) p' where "p = CheckRelease lid_a # p'" "turns i p'" "\<exists>r. p' = Release i lid_a # r"
  | (release) p' where "p = Release i lid_a # p'" "turns i p'" "p' = [] \<or> (\<exists>r. p' = Acquire i lid_a # r)"
proof -
  obtain d n where p: "p = drop d (turn i) @ concat (replicate n (turn i))"
    using assms by (auto simp: turns_def)
  have more: "turns i (drop k (turn i) @ concat (replicate n (turn i)))" for k n
    unfolding turns_def by blast
  have start: thesis if "p = turn i @ concat (replicate n (turn i))" for n
    using that more [of 1 n] by (intro acquire [of "drop 1 (turn i) @ concat (replicate n (turn i))"]) (simp_all add: turn_def)
  consider "d = 0" | "d = 1" | "d = 2" | "d = 3" | "4 \<le> d"
    by linarith
  then show thesis
  proof cases
    case 1
    then show thesis using p start by simp
  next
    case 2
    then show thesis
      using p more [of 2 n] by (intro grant [of "drop 2 (turn i) @ concat (replicate n (turn i))"]) (simp_all add: turn_def)
  next
    case 3
    then show thesis
      using p more [of 3 n] by (intro check [of "drop 3 (turn i) @ concat (replicate n (turn i))"]) (simp_all add: turn_def)
  next
    case 4
    then show thesis
      using p more [of 4 n] by (intro release [of "concat (replicate n (turn i))"]) (cases n; simp add: turn_def)+
  next
    case 5
    then have "p = concat (replicate n (turn i))"
      using p by (simp add: turn_def)
    then show thesis
      using ended start by (cases n) simp_all
  qed
qed

text \<open>The thread is between the return of \<^verbatim>\<open>acquire\<close> and the call of \<^verbatim>\<open>release\<close>.\<close>

definition inside :: "tester_op list \<Rightarrow> bool" where
  "inside p \<longleftrightarrow> (case p of [] \<Rightarrow> False | Acquire _ _ # _ \<Rightarrow> False | _ \<Rightarrow> True)"

definition granted :: "tester_op list \<Rightarrow> bool" where
  "granted p \<longleftrightarrow> (\<exists>r. p = CheckRelease lid_a # r)"

text \<open>\<open>c\<close> gives the client that a thread uses.\<close>

definition turns_inv ::
  "(nat \<Rightarrow> string) \<Rightarrow> (nat \<Rightarrow> nat) \<Rightarrow> (string \<times> nat \<times> lockid_t) list \<Rightarrow> (u8 \<Rightarrow> i32) \<Rightarrow> tester_op list list \<Rightarrow> bool" where
  "turns_inv cl c hs ct run \<longleftrightarrow>
     (\<forall>t < length run. turns (c t) (run ! t) \<and> (inside (run ! t) \<longrightarrow> (cl (c t), t, lid_a) \<in> set hs))
     \<and> ct = (\<lambda>x. if x = 1 \<and> (\<exists>t < length run. granted (run ! t)) then 1 else 0)"

lemma one_inside:
  assumes "distinct (map (snd \<circ> snd) hs)" "(i, t, lid) \<in> set hs" "(j, u, lid) \<in> set hs"
  shows "t = u"
proof -
  have "inj_on (snd \<circ> snd) (set hs)"
    using assms(1) by (simp add: distinct_map)
  from inj_onD [OF this _ assms(2,3)] show ?thesis
    by simp
qed

lemma granted_inside: "granted p \<Longrightarrow> inside p"
  by (auto simp: granted_def inside_def)

lemma turns_one_granted:
  assumes "turns_inv cl c hs ct run" "distinct (map (snd \<circ> snd) hs)"
    and "t < length run" "inside (run ! t)" "u < length run" "granted (run ! u)"
  shows "u = t"
  using assms granted_inside one_inside [OF assms(2)] unfolding turns_inv_def by blast

text \<open>One thread goes on by one operation; the others keep what they have.\<close>

lemma turns_inv_update:
  assumes inv: "turns_inv cl c hs ct run" and t: "t < length run"
    and p: "turns (c t) p" "inside p \<Longrightarrow> (cl (c t), t, lid_a) \<in> set hs'"
    and others: "\<And>u. u \<noteq> t \<Longrightarrow> (cl (c u), u, lid_a) \<in> set hs \<Longrightarrow> (cl (c u), u, lid_a) \<in> set hs'"
    and ct: "ct' = (\<lambda>x. if x = 1 \<and> (granted p \<or> (\<exists>u < length run. u \<noteq> t \<and> granted (run ! u))) then 1 else 0)"
  shows "turns_inv cl c hs' ct' (run[t := p])"
proof -
  have "(\<exists>u < length run. granted (run[t := p] ! u)) \<longleftrightarrow> granted p \<or> (\<exists>u < length run. u \<noteq> t \<and> granted (run ! u))"
    using t by (auto simp: nth_list_update)
  moreover have "turns (c u) (run[t := p] ! u) \<and> (inside (run[t := p] ! u) \<longrightarrow> (cl (c u), u, lid_a) \<in> set hs')" if "u < length run" for u
    using inv that p others by (cases "u = t") (auto simp: turns_inv_def)
  ultimately show ?thesis
    using ct by (simp add: turns_inv_def)
qed

lemma turns_inv_frame:
  assumes "turns_inv cl c hs ct run" "t < length run" "turns (c t) p" "inside p \<Longrightarrow> (cl (c t), t, lid_a) \<in> set hs'"
    and "\<And>u. u \<noteq> t \<Longrightarrow> (cl (c u), u, lid_a) \<in> set hs \<Longrightarrow> (cl (c u), u, lid_a) \<in> set hs'"
    and "\<not> granted p" "\<not> granted (run ! t)"
  shows "turns_inv cl c hs' ct (run[t := p])"
proof -
  have "(\<exists>u < length run. granted (run ! u)) \<longleftrightarrow> granted p \<or> (\<exists>u < length run. u \<noteq> t \<and> granted (run ! u))"
    using assms(2,6,7) by auto
  then have "ct = (\<lambda>x. if x = 1 \<and> (granted p \<or> (\<exists>u < length run. u \<noteq> t \<and> granted (run ! u))) then 1 else 0)"
    using assms(1) by (simp add: turns_inv_def)
  from turns_inv_update [OF assms(1-5) this] show ?thesis
    by blast
qed

lemma turns_acquire:
  assumes inv: "turns_inv cl c hs ct run" and t: "t < length run" "run ! t = Acquire i lid # p"
  shows "turns_inv cl c ((cl i, t, lid) # hs) ct (run[t := p])"
proof -
  have "turns (c t) (Acquire i lid # p)"
    using inv t by (auto simp: turns_inv_def)
  then show ?thesis
    using t by (cases rule: turns_cases; intro turns_inv_frame [OF inv t(1)]) (auto simp: granted_def inside_def)
qed

lemma turns_release:
  assumes inv: "turns_inv cl c (us @ (cl i, t, lid) # vs) ct run" and t: "t < length run" "run ! t = Release i lid # p"
  shows "turns_inv cl c (us @ vs) ct (run[t := p])"
proof -
  have "turns (c t) (Release i lid # p)"
    using inv t by (auto simp: turns_inv_def)
  then show ?thesis
    using t by (cases rule: turns_cases; intro turns_inv_frame [OF inv t(1)]) (auto simp: granted_def inside_def)
qed

lemma turns_grant:
  assumes inv: "turns_inv cl c hs ct run" and hs: "distinct (map (snd \<circ> snd) hs)" and t: "t < length run" "run ! t = CheckGrant lid # p"
  shows "\<exists>ct'. check_grant lid ct = Some ct' \<and> turns_inv cl c hs ct' (run[t := p])"
proof -
  have in_t: "inside (run ! t)" and ng: "\<not> granted (run ! t)"
    using t by (simp_all add: inside_def granted_def)
  then have none: "\<not> granted (run ! u)" if "u < length run" for u
    using turns_one_granted [OF inv hs t(1) _ that] by blast
  have "turns (c t) (CheckGrant lid # p)" and held: "(cl (c t), t, lid_a) \<in> set hs"
    using inv t in_t by (auto simp: turns_inv_def)
  then have p: "lid = lid_a" "turns (c t) p" "granted p"
    by (cases rule: turns_cases; auto simp: granted_def)+
  have "ct = (\<lambda>_. 0)"
    using inv none by (auto simp: turns_inv_def)
  then have "check_grant lid ct = Some (\<lambda>x. if x = 1 then 1 else 0)"
    using p(1) by (auto simp: check_grant_def lid_a_def)
  moreover have "turns_inv cl c hs (\<lambda>x. if x = 1 then 1 else 0) (run[t := p])"
    using held p by (intro turns_inv_update [OF inv t(1)]) auto
  ultimately show ?thesis
    by blast
qed

lemma turns_check_release:
  assumes inv: "turns_inv cl c hs ct run" and hs: "distinct (map (snd \<circ> snd) hs)" and t: "t < length run" "run ! t = CheckRelease lid # p"
  shows "\<exists>ct'. check_release lid ct = Some ct' \<and> turns_inv cl c hs ct' (run[t := p])"
proof -
  have "turns (c t) (CheckRelease lid # p)" and in_t: "inside (run ! t)"
    using inv t by (auto simp: turns_inv_def inside_def)
  then have p: "lid = lid_a" "turns (c t) p" "\<not> granted p"
    by (cases rule: turns_cases; auto simp: granted_def)+
  then have g: "granted (run ! t)" and held: "(cl (c t), t, lid_a) \<in> set hs"
    using inv t in_t by (auto simp: turns_inv_def granted_def)
  then have "\<exists>u < length run. granted (run ! u)"
    using t(1) by blast
  then have "ct = (\<lambda>x. if x = 1 then 1 else 0)"
    using inv by (simp add: turns_inv_def)
  then have "check_release lid ct = Some (\<lambda>_. 0)"
    using p(1) by (auto simp: check_release_def lid_a_def)
  moreover have "\<not> (\<exists>u < length run. u \<noteq> t \<and> granted (run ! u))"
    using turns_one_granted [OF inv hs t(1) in_t] by blast
  then have "turns_inv cl c hs (\<lambda>_. 0) (run[t := p])"
    using held p by (intro turns_inv_update [OF inv t(1)]) auto
  ultimately show ?thesis
    by blast
qed

section \<open>The first test\<close>

text \<open>The checks of one thread alone, whatever the lock service does.\<close>

fun run_checks :: "tester_op list \<Rightarrow> (u8 \<Rightarrow> i32) \<Rightarrow> (u8 \<Rightarrow> i32) option" where
  "run_checks [] ct = Some ct"
| "run_checks (CheckGrant lid # p) ct = Option.bind (check_grant lid ct) (run_checks p)"
| "run_checks (CheckRelease lid # p) ct = Option.bind (check_release lid ct) (run_checks p)"
| "run_checks (_ # p) ct = run_checks p ct"

lemma run_checks_test1: "run_checks test1 (\<lambda>_. 0) = Some (\<lambda>_. 0)"
  by (simp add: test1_def check_grant_def check_release_def lid_a_def lid_b_def fun_upd_def cong: if_cong)

definition alone :: "(u8 \<Rightarrow> i32) \<Rightarrow> tester_op list list \<Rightarrow> bool" where
  "alone ct run \<longleftrightarrow> (\<exists>p. run = [p] \<and> run_checks p ct = Some (\<lambda>_. 0))"

lemma alone_next:
  assumes "alone ct run" "t < length run" "run ! t = op # p" "run_checks [op] ct = Some ct'"
  shows "alone ct' (run[t := p])"
  using assms by (cases op) (auto simp: alone_def bind_eq_Some_conv)

section \<open>All tests\<close>

definition phase_ok :: "tester_op list list \<Rightarrow> bool" where
  "phase_ok ph \<longleftrightarrow> ph = [test1] \<or> (\<exists>c. \<forall>t < length ph. turns (c t) (ph ! t) \<and> \<not> inside (ph ! t))"

lemma turns_more: "turns i (concat (replicate n (turn i))) \<and> \<not> inside (concat (replicate n (turn i)))"
  using turns_replicate [of i n] by (cases n) (auto simp: inside_def turn_def)

lemma phase_ok_turns:
  assumes "\<And>t. t < m \<Longrightarrow> f t = concat (replicate (n t) (turn (c t)))"
  shows "phase_ok (map f [0..<m])"
proof -
  have "\<forall>t < length (map f [0..<m]). turns (c t) (map f [0..<m] ! t) \<and> \<not> inside (map f [0..<m] ! t)"
    using assms turns_more by simp
  then show ?thesis
    unfolding phase_ok_def by blast
qed

lemma phases_ok: "ph \<in> set (tester_phases test) \<Longrightarrow> phase_ok ph"
proof -
  have "phase_ok (map test2 [0..<tester_nt])"
    by (rule phase_ok_turns [where n = "\<lambda>_. 1" and c = "\<lambda>i. i"]) (simp add: test2_def turn_def)
  moreover have "phase_ok (map test3 [0..<tester_nt])"
    by (rule phase_ok_turns [where n = "\<lambda>_. 10" and c = "\<lambda>i. i"]) (simp add: test3_def turn_def)
  moreover have "phase_ok (map test4 [0..<2])"
    by (rule phase_ok_turns [where n = "\<lambda>_. 10" and c = "\<lambda>i. 0"]) (simp add: test4_def turn_def)
  moreover have "phase_ok (map test5 [0..<tester_nt])"
    by (rule phase_ok_turns [where n = "\<lambda>_. 10" and c = "\<lambda>i. if i < 5 then 0 else 1"]) (simp add: test5_def turn_def)
  moreover have "phase_ok [test1]"
    by (simp add: phase_ok_def)
  ultimately show "ph \<in> set (tester_phases test) \<Longrightarrow> phase_ok ph"
    unfolding tester_phases_def by (auto simp del: upt_Suc split: if_splits)
qed

lemma phase_start:
  assumes "phase_ok ph"
  shows "alone (\<lambda>_. 0) ph \<or> (\<exists>c. turns_inv cl c hs (\<lambda>_. 0) ph)"
proof (cases "ph = [test1]")
  case True
  then show ?thesis
    using run_checks_test1 by (simp add: alone_def)
next
  case False
  then obtain c where c: "\<forall>t < length ph. turns (c t) (ph ! t) \<and> \<not> inside (ph ! t)"
    using assms by (auto simp: phase_ok_def)
  then have "\<not> (\<exists>t < length ph. granted (ph ! t))"
    using granted_inside by blast
  then have "turns_inv cl c hs (\<lambda>_. 0) ph"
    using c by (auto simp: turns_inv_def)
  then show ?thesis
    by blast
qed

section \<open>The tester on a lock service\<close>

text \<open>What the tester needs of the service: in every state that it reaches, the locks that are held are held once.\<close>

locale lock_service =
  fixes step :: "'k \<Rightarrow> 'k \<Rightarrow> bool" and reach :: "'k \<Rightarrow> bool" and holds :: "'k \<Rightarrow> (string \<times> nat \<times> lockid_t) list"
  assumes reach_step: "reach k \<Longrightarrow> step k k' \<Longrightarrow> reach k'"
    and one_holder: "reach k \<Longrightarrow> distinct (map (snd \<circ> snd) (holds k))"
begin

definition tester_inv :: "(nat \<Rightarrow> string) \<Rightarrow> 'k tester \<Rightarrow> bool" where
  "tester_inv cl q \<longleftrightarrow> reach (tst_sys q) \<and> (\<forall>ph \<in> set (tst_next q). phase_ok ph)
     \<and> (alone (tst_ct q) (tst_run q) \<or> (\<exists>c. turns_inv cl c (holds (tst_sys q)) (tst_ct q) (tst_run q)))"

lemma tester_inv_new: "reach k \<Longrightarrow> \<forall>ph \<in> set phs. phase_ok ph \<Longrightarrow> tester_inv cl (tester_new k phs)"
  by (auto simp: tester_inv_def tester_new_def turns_inv_def)

lemma tester_inv_passes:
  assumes "tester_inv cl q"
  shows "checks_pass q"
proof -
  have "(case p of CheckGrant lid # _ \<Rightarrow> check_grant lid (tst_ct q) \<noteq> None
      | CheckRelease lid # _ \<Rightarrow> check_release lid (tst_ct q) \<noteq> None | _ \<Rightarrow> True)" if p: "p \<in> set (tst_run q)" for p
  proof (cases "alone (tst_ct q) (tst_run q)")
    case True
    then show ?thesis
      using p by (auto simp: alone_def bind_eq_Some_conv split: list.splits tester_op.splits)
  next
    case False
    then obtain c where inv: "turns_inv cl c (holds (tst_sys q)) (tst_ct q) (tst_run q)" and r: "reach (tst_sys q)"
      using assms by (auto simp: tester_inv_def)
    obtain t where "t < length (tst_run q)" "tst_run q ! t = p"
      using p by (auto simp: in_set_conv_nth)
    then show ?thesis
      using turns_grant [OF inv one_holder [OF r]] turns_check_release [OF inv one_holder [OF r]]
      by (fastforce split: list.splits tester_op.splits)
  qed
  then show ?thesis
    by (auto simp: checks_pass_def)
qed

lemma tester_inv_done:
  assumes "tester_inv cl q" "\<forall>p \<in> set (tst_run q). p = []"
  shows "tst_ct q = (\<lambda>_. 0)"
proof -
  have "\<not> (\<exists>t < length (tst_run q). granted (tst_run q ! t))"
    using assms(2) nth_mem by (force simp: granted_def)
  then show ?thesis
    using assms by (auto simp: tester_inv_def alone_def turns_inv_def)
qed

lemma tester_inv_step:
  assumes "tester_step step holds cl q q'" "tester_inv cl q"
  shows "tester_inv cl q'"
  using assms
proof cases
  case (ts_join ph phs)
  then have "tst_ct q = (\<lambda>_. 0)" "phase_ok ph"
    using tester_inv_done [OF assms(2)] assms(2) by (auto simp: tester_inv_def)
  then have "alone (tst_ct q) ph \<or> (\<exists>c. turns_inv cl c (holds (tst_sys q)) (tst_ct q) ph)"
    using phase_start by simp
  then show ?thesis
    using ts_join assms(2) by (auto simp: tester_inv_def)
next
  case (ts_service k)
  then show ?thesis
    using assms(2) reach_step by (auto simp: tester_inv_def)
next
  case (ts_acquire t i lid p k)
  then show ?thesis
    using assms(2) reach_step turns_acquire [OF _ ts_acquire(2,3)] alone_next [OF _ ts_acquire(2,3)]
    by (fastforce simp: tester_inv_def)
next
  case (ts_release t i lid p k us vs)
  then show ?thesis
    using assms(2) reach_step turns_release [OF _ ts_release(2,3)] alone_next [OF _ ts_release(2,3)]
    by (fastforce simp: tester_inv_def)
next
  case (ts_grant t lid p ct)
  then show ?thesis
    using assms(2) turns_grant [OF _ one_holder ts_grant(2,3)] alone_next [OF _ ts_grant(2,3)]
    by (fastforce simp: tester_inv_def)
next
  case (ts_check_release t lid p ct)
  then show ?thesis
    using assms(2) turns_check_release [OF _ one_holder ts_check_release(2,3)] alone_next [OF _ ts_check_release(2,3)]
    by (fastforce simp: tester_inv_def)
qed

lemma tester_run_inv:
  assumes "(tester_step step holds cl)\<^sup>*\<^sup>* (tester_new k phs) q" "reach k" "\<forall>ph \<in> set phs. phase_ok ph"
  shows "tester_inv cl q"
  using assms(1)
proof (induction rule: rtranclp_induct)
  case base
  then show ?case using assms(2,3) by (rule tester_inv_new)
next
  case (step q q')
  then show ?case using tester_inv_step by blast
qed

end

section \<open>The tester on the caching lock server\<close>

interpretation lsys: lock_service lsys_step lsys_reachable k_holds
proof
  show "lsys_reachable k \<Longrightarrow> lsys_step k k' \<Longrightarrow> lsys_reachable k'" for k k'
    by (rule lsys_next)
  show "lsys_reachable k \<Longrightarrow> distinct (map (snd \<circ> snd) (k_holds k))" for k
    using holders_distinct [OF lsys_reachable_inv, of k] by (simp add: slot_def comp_def)
qed


text \<open>The second test, when the first of its threads has got the lock.\<close>

lemma ex_tester:
  "\<exists>k. (tester_step lsys_step k_holds (\<lambda>i. ''a''))\<^sup>*\<^sup>* (tester_new lock_sys_new [map test2 [0..<tester_nt]])
     \<lparr>tst_sys = k, tst_ct = (\<lambda>_. 0), tst_run = (map test2 [0..<tester_nt])[0 := drop 1 (test2 0)], tst_next = []\<rparr>"
proof -
  let ?k = "lock_sys_new\<lparr>k_srv := snd (lsc_acquire 1 ''a'' lock_server_cache_new),
     k_cl := (k_cl lock_sys_new)(''a'' := set_st 1 LOCKED (acquire_prepare 1 (lock_client_cache_new ''a'' True))),
     k_holds := [(''a'', 0, 1)]\<rparr>"
  let ?q = "\<lparr>tst_sys = lock_sys_new, tst_ct = (\<lambda>_. 0), tst_run = map test2 [0..<tester_nt], tst_next = []\<rparr>"
  have "acquire_switch call_acquire 1 (acquire_prepare 1 (k_cl lock_sys_new ''a'')) (k_srv lock_sys_new)
     = Inr (Got lp_OK, set_st 1 LOCKED (acquire_prepare 1 (lock_client_cache_new ''a'' True)),
         snd (lsc_acquire 1 ''a'' lock_server_cache_new))"
    by (simp add: acquire_switch_def call_acquire_def served_def lock_sys_new_def lock_client_cache_new_def
        lock_server_cache_new_def lsc_acquire_def)
  from ls_acquire [OF _ this, of 0] have step: "lsys_step lock_sys_new ?k"
    by (simp add: lock_sys_new_def)
  have "tester_step lsys_step k_holds (\<lambda>i. ''a'') (tester_new lock_sys_new [map test2 [0..<tester_nt]]) ?q"
    using ts_join [of "tester_new lock_sys_new [map test2 [0..<tester_nt]]"] by (simp add: tester_new_def)
  moreover have "tester_step lsys_step k_holds (\<lambda>i. ''a'') ?q (?q\<lparr>tst_sys := ?k, tst_run := (tst_run ?q)[0 := drop 1 (test2 0)]\<rparr>)"
  proof (rule ts_acquire)
    show "0 < length (tst_run ?q)"
      by (simp add: tester_nt_def)
    show "tst_run ?q ! 0 = Acquire 0 1 # drop 1 (test2 0)"
      by (simp add: tester_nt_def test2_def lid_a_def)
    show "lsys_step (tst_sys ?q) ?k"
      using step by simp
    show "k_holds ?k = (''a'', 0, 1) # k_holds (tst_sys ?q)"
      by (simp add: lock_sys_new_def)
  qed
  ultimately have "(tester_step lsys_step k_holds (\<lambda>i. ''a''))\<^sup>*\<^sup>* (tester_new lock_sys_new [map test2 [0..<tester_nt]])
      (?q\<lparr>tst_sys := ?k, tst_run := (tst_run ?q)[0 := drop 1 (test2 0)]\<rparr>)"
    by (rule converse_rtranclp_into_rtranclp [OF _ r_into_rtranclp])
  then show ?thesis
    unfolding tester.update_convs tester.select_convs by (rule exI)
qed


end
