(* ===== verification/Spec2Isabelle.thy ===== *)
theory Spec2Isabelle
  imports Extent_System Extent_Rpc Fuse Rsm Thr_Pool Rpc_Wire Lock_Tester
begin

text \<open>
  \<^bold>\<open>Verification of the yfs distributed file system\<close>

  \<^bold>\<open>The program.\<close> A user process (\<^verbatim>\<open>fuse.cc\<close>) answers the file system requests of the kernel with
  \<^verbatim>\<open>yfs_client\<close>, which keeps files and directories as the contents of numbered extents. Extents live on an extent
  server and are cached by \<^verbatim>\<open>extent_client\<close>, which writes back when a lock is given up. Locks come from a lock server that lets
  clients keep them until another client asks (\<^verbatim>\<open>lock_server_cache\<close>, \<^verbatim>\<open>lock_client_cache\<close>). All parts talk through an RPC library
  (\<^verbatim>\<open>rpc/\<close>): marshalling, stubs, a client with retransmission, a server with at-most-once execution, connections,
  a poll thread, and a thread pool. The lock server is meant to be replicated: \<^verbatim>\<open>rsm\<close> over \<^verbatim>\<open>config\<close> over
  \<^verbatim>\<open>paxos\<close>, with \<^verbatim>\<open>log\<close> as the durable state and \<^verbatim>\<open>handle\<close> as the cache of RPC clients.

  \<^bold>\<open>Conventions.\<close> Theory \<open>Prelude\<close> has the machine integers as words of their width, the faults an execution can end in
  (a failed \<^verbatim>\<open>VERIFY\<close>, an access out of bounds, a read of memory never written, null and dangling pointers, self-deadlock), and
  the result type that carries them; \<open>None\<close> stands for a process exit or for a thread that has to wait, as each
  definition says. The collections \<open>returns\<close> and \<open>signed\<close> hold the rules for such results and for signed comparisons.
  Results of system calls, clocks and random numbers are arguments. What runs under one mutex without waiting is one
  function; threads interleave in inductive step relations over these functions.

  \<^bold>\<open>RPC library.\<close>
  \<^item> \<open>Marshall\<close> (\<^verbatim>\<open>rpc/marshall.h\<close>, operators of \<^verbatim>\<open>rpc/rpc.cc\<close>): the buffers with their growth and their cells never written, every
    operator, the headers. The locale \<open>codec\<close> is the contract of a pair of operators; all pairs of the sources
    interpret it, those of Paxos, the state machine and the extents in their theories.
  \<^item> \<open>Rpc_Stub\<close> (templates of \<^verbatim>\<open>rpc/rpc.h\<close>): calls and handlers with up to seven arguments; a remote call equals the local one.
  \<^item> \<open>Rpc_Client\<close> (\<^verbatim>\<open>rpcc\<close>): the table of calls, the window of acknowledgements, time arithmetic, the wait loop of
    \<^verbatim>\<open>call1\<close>. The front of the window is the greatest number up to which all is acknowledged; a
    pending call is never acknowledged; the loop ends.
  \<^item> \<open>Rpc_Server\<close> (\<^verbatim>\<open>rpcs\<close>): the windows of replies and \<^verbatim>\<open>dispatch\<close>, split where other threads can run. A handler runs at
    most once for a call, and a repeated request gets the bytes of that run.
  \<^item> \<open>Rpc_Chan\<close> (\<^verbatim>\<open>get_refconn\<close>, \<^verbatim>\<open>~rpcc\<close>, \<^verbatim>\<open>make_sockaddr\<close>): reference counts of connections shared by calls, on an explicit store.
  \<^item> \<open>Fifo\<close>, \<open>Thr_Pool\<close>, \<open>Poll_Mgr\<close>, \<open>Connection\<close> (\<^verbatim>\<open>rpc/fifo.h\<close>, \<^verbatim>\<open>thr_pool.cc\<close>, \<^verbatim>\<open>pollmgr.cc\<close>, \<^verbatim>\<open>connection.cc\<close>): the queue keeps order
    and bound (locale \<open>fifo_queue\<close>); the pool runs what it accepted and its destructor returns; \<^verbatim>\<open>select\<close> and \<^verbatim>\<open>epoll\<close> agree
    (locale \<open>aio\<close>, both interpret it) and no callback is made after \<^verbatim>\<open>block_remove_fd\<close>; packets are sent whole and in order and arrive
    as they were sent, however the network cuts them.
  \<^item> \<open>Rpc_Wire\<close> and \<open>Rpc_Remote\<close> compose these parts: a call over two connections, and sessions of calls through the
    dispatcher, give what the handlers give when they are called directly.

  \<^bold>\<open>Locks.\<close>
  \<^item> \<open>Lock_Server\<close> (\<^verbatim>\<open>lock_server.cc\<close>, \<^verbatim>\<open>lock_client.cc\<close>), \<open>Lock_Server_Cache\<close>, \<open>Lock_Client_Cache\<close>: the operations.
  \<^item> \<open>Lock_System\<close>: server, clients and threads together. No two threads hold a lock; nothing faults; every step is a
    step of an abstract lock service.
  \<^item> \<open>Lock_Tester\<close> (\<^verbatim>\<open>lock_tester.cc\<close>): a client of the contract \<open>lock_service\<close>, which \<open>Lock_System\<close> provides; its checks never fail.

  \<^bold>\<open>Files.\<close>
  \<^item> \<open>Extent\<close> (\<^verbatim>\<open>extent_server.cc\<close>, \<^verbatim>\<open>extent_client.cc\<close>): the operations, and the contract \<open>extent_store\<close> that the cache keeps for its user.
    \<open>Extent_Rpc\<close> (\<^verbatim>\<open>extent_smain.cc\<close>): the server as a process behind the dispatcher.
  \<^item> \<open>Extent_System\<close>: the caches under the locks of \<open>Lock_System\<close>; who holds the lock of an extent reads what was written last.
  \<^item> \<open>Text_Stream\<close> and \<open>Yfs_Client\<close> (\<^verbatim>\<open>yfs_client.cc\<close>): directories as texts. The operations are related to a map from names to
    numbers, with the conditions under which the search in the text finds the right place.
  \<^item> \<open>Fuse\<close> (\<^verbatim>\<open>fuse.cc\<close>): every handler with its replies; sessions of requests; listings.

  \<^bold>\<open>Replication.\<close>
  \<^item> \<open>Paxos_Log\<close>, \<open>Paxos\<close> (\<^verbatim>\<open>log.cc\<close>, \<^verbatim>\<open>paxos.cc\<close>): the log reads back as what was written; an acceptor recovers what was decided;
    decisions are stable. The locale \<open>quorums\<close> is interpreted by the test for a majority.
  \<^item> \<open>Handle\<close>, \<open>Config\<close>, \<open>Rsm\<close> (\<^verbatim>\<open>handle.cc\<close>, \<^verbatim>\<open>config.cc\<close>, \<^verbatim>\<open>rsm.cc\<close>): handles never reach freed records; views follow the decided
    instances, and majorities of successive views meet; a node serves only in the latest view it knows; recovery and join complete.

  \<^bold>\<open>Bounds.\<close> No definition uses fuel. Loops that need it have a termination proof by a measure; the wait loop of a call runs over the
  list of what its rounds observe and is shown to end within nine rounds; the polling and worker loops are step relations.
  Theorems on marshalling bound sizes by what a 32-bit length field can carry, those on connections by \<^verbatim>\<open>MAX_PDU\<close>.

  \<^bold>\<open>Not modelled.\<close> The constructor of \<^verbatim>\<open>tcpsconn\<close>, which makes system calls only, and the set-up of the fuse library in \<^verbatim>\<open>main\<close> of \<^verbatim>\<open>fuse.cc\<close>.
  \<^verbatim>\<open>lock_smain.cc\<close>, which as built only constructs the \<^verbatim>\<open>rsm\<close> object. Test and demonstration programs other than the lock tester
  (\<^verbatim>\<open>rpctest.cc\<close>, \<^verbatim>\<open>lock_demo.cc\<close>, \<^verbatim>\<open>rsm_tester.cc\<close>, \<^verbatim>\<open>rsmtest_client.cc\<close>, \<^verbatim>\<open>mapListTester.cc\<close>, \<^verbatim>\<open>pthreadCondition.c\<close>, \<^verbatim>\<open>test-lab-*\<close>), scripts, logging,
  the thread templates of \<^verbatim>\<open>method_thread.h\<close>, and the Apple clock of \<^verbatim>\<open>gettime.cc\<close>. The abstract class of \<^verbatim>\<open>rsm_state_transfer.h\<close> has no implementation in
  the sources and \<^verbatim>\<open>rsm\<close> never calls it. The handlers of \<^verbatim>\<open>rsm\<close> for the invocation of requests and for state transfer are stubs in the sources, and in the model.
\<close>

end
